(* ===== verification/Prelude.thy ===== *)
theory Prelude
  imports Main "HOL-Library.Word" "HOL-Library.Monad_Syntax"
begin

text \<open>
  Shared vocabulary of the development: the machine types of the program, the
  explicit store that pointers live in, bounds-checked array accesses, C's
  \<^verbatim>\<open>assert\<close>, and the rewrite rules every component proof uses.

  A C++ operation is a function into \<open>'a option\<close>.  \<open>Some r\<close> is a run that
  returns \<open>r\<close>; \<open>None\<close> is a run that dereferences a null or unallocated pointer,
  indexes an array out of range, overflows a signed integer, fails an \<^verbatim>\<open>assert\<close>,
  or does not return at all.  A theorem that an operation equals \<open>Some r\<close> is
  therefore a proof of memory safety, of termination and of the result at once.
\<close>

unbundle bit_operations_syntax

section \<open>Machine types\<close>

type_synonym u8 = "8 word"
type_synonym u32 = "32 word"
type_synonym u64 = "64 word"
type_synonym i64 = "64 word"      \<comment> \<open>\<^verbatim>\<open>int64_t\<close>: read with \<^term>\<open>sint\<close>\<close>
type_synonym size_t = "64 word"
type_synonym bytes = "u8 list"    \<comment> \<open>\<^verbatim>\<open>std::string\<close>, \<^verbatim>\<open>std::vector<uint8_t>\<close>\<close>

type_synonym addr = nat           \<comment> \<open>the address of an allocated object\<close>
type_synonym ptr = "addr option"  \<comment> \<open>a nullable pointer\<close>

abbreviation (input) NULL :: "'a option" where "NULL \<equiv> None"
abbreviation (input) UB :: "'a option" where "UB \<equiv> None"

section \<open>The store\<close>

text \<open>\<open>deref h p\<close> is \<^verbatim>\<open>*p\<close>; \<open>assign h p f\<close> is \<^verbatim>\<open>p->field = value\<close> with
  \<open>f\<close> the field update.\<close>

definition deref :: "('a \<rightharpoonup> 'b) \<Rightarrow> 'a option \<Rightarrow> 'b option" where
  "deref h p = Option.bind p h"

definition assign :: "('a \<rightharpoonup> 'b) \<Rightarrow> 'a option \<Rightarrow> ('b \<Rightarrow> 'b) \<Rightarrow> ('a \<rightharpoonup> 'b) option" where
  "assign h p f = do { a \<leftarrow> p; v \<leftarrow> h a; Some (h(a \<mapsto> f v)) }"

definition arr_get :: "'a list \<Rightarrow> nat \<Rightarrow> 'a option" where
  "arr_get xs i = (if i < length xs then Some (xs ! i) else UB)"

definition arr_set :: "'a list \<Rightarrow> nat \<Rightarrow> 'a \<Rightarrow> 'a list option" where
  "arr_set xs i v = (if i < length xs then Some (xs[i := v]) else UB)"

definition c_assert :: "bool \<Rightarrow> unit option" where
  "c_assert b = (if b then Some () else UB)"

lemma deref_simps [simp]:
  "deref h None = None"
  "deref h (Some a) = h a"
  by (simp_all add: deref_def)

lemma assign_None [simp]: "assign h None f = None"
  by (simp add: assign_def)

lemma assign_Some [simp]: "h a = Some v \<Longrightarrow> assign h (Some a) f = Some (h(a \<mapsto> f v))"
  by (simp add: assign_def)

lemma arr_get_in [simp]: "i < length xs \<Longrightarrow> arr_get xs i = Some (xs ! i)"
  by (simp add: arr_get_def)

lemma arr_set_in [simp]: "i < length xs \<Longrightarrow> arr_set xs i v = Some (xs[i := v])"
  by (simp add: arr_set_def)

lemma c_assert_simps [simp]:
  "c_assert True = Some ()"
  "c_assert b = Some () \<longleftrightarrow> b"
  by (simp_all add: c_assert_def)

text \<open>The collection of the relations that say what a change leaves alone.\<close>

named_theorems frame_defs

text \<open>\<open>agree_off S h h'\<close>: going from \<open>h\<close> to \<open>h'\<close> changed nothing outside \<open>S\<close>.\<close>

definition agree_off :: "'a set \<Rightarrow> ('a \<rightharpoonup> 'b) \<Rightarrow> ('a \<rightharpoonup> 'b) \<Rightarrow> bool" where [frame_defs]:
  "agree_off S h h' \<longleftrightarrow> (\<forall>x. x \<notin> S \<longrightarrow> h' x = h x)"

lemma agree_offD: "agree_off S h h' \<Longrightarrow> x \<notin> S \<Longrightarrow> h' x = h x"
  by (simp add: agree_off_def)

lemma agree_off_refl [simp]: "agree_off S h h"
  by (simp add: agree_off_def)

lemma agree_off_trans [trans]: "agree_off S h h' \<Longrightarrow> agree_off S h' h'' \<Longrightarrow> agree_off S h h''"
  by (simp add: agree_off_def)

lemma agree_off_mono: "agree_off S h h' \<Longrightarrow> S \<subseteq> T \<Longrightarrow> agree_off T h h'"
  by (auto simp: agree_off_def)

lemma agree_off_comp: "agree_off S h h' \<Longrightarrow> agree_off T h' h'' \<Longrightarrow> T \<subseteq> S \<Longrightarrow> agree_off S h h''"
  by (auto simp: agree_off_def)

lemma agree_off_upd [simp]: "a \<in> S \<Longrightarrow> agree_off S h (h(a := v))"
  by (auto simp: agree_off_def)

section \<open>Signed 64-bit arithmetic\<close>

text \<open>\<^verbatim>\<open>int64_t\<close> expressions that the code computes with are integers checked
  against the range of the type: signed overflow is undefined behaviour.\<close>

definition i64_ok :: "int \<Rightarrow> bool" where
  "i64_ok x \<longleftrightarrow> - (2 ^ 63) \<le> x \<and> x < 2 ^ 63"

definition i64_chk :: "int \<Rightarrow> int option" where
  "i64_chk x = (if i64_ok x then Some x else UB)"

lemma i64_chk_in [simp]: "i64_ok x \<Longrightarrow> i64_chk x = Some x"
  by (simp add: i64_chk_def)

lemma i64_ok_sint [simp]: "i64_ok (sint (w :: i64))"
  using sint_ge [of w] sint_lt [of w] by (simp add: i64_ok_def)

section \<open>Lists and words\<close>

lemma nth_update_lookup:
  "j < length xs \<Longrightarrow> xs[i := v] ! j = (if i = j then v else xs ! j)"
  by (cases "i = j") auto

lemma unat_u8_less: "unat (w :: u8) < 256"
  and unat_u32_less: "unat (v :: u32) < 2 ^ 32"
  and unat_u64_less: "unat (x :: u64) < 2 ^ 64"
  using unsigned_less [of w] unsigned_less [of v] unsigned_less [of x] by simp_all

lemma unat_of_nat_u32: "n < 2 ^ 32 \<Longrightarrow> unat (of_nat n :: u32) = n"
  by (simp add: unat_of_nat take_bit_nat_def)

lemma unat_of_nat_u64: "n < 2 ^ 64 \<Longrightarrow> unat (of_nat n :: u64) = n"
  by (simp add: unat_of_nat take_bit_nat_def)

lemma of_nat_u32_inject:
  "m < 2 ^ 32 \<Longrightarrow> n < 2 ^ 32 \<Longrightarrow> (of_nat m :: u32) = of_nat n \<longleftrightarrow> m = n"
  by (metis unat_of_nat_u32)

lemma of_nat_u64_inject:
  "m < 2 ^ 64 \<Longrightarrow> n < 2 ^ 64 \<Longrightarrow> (of_nat m :: u64) = of_nat n \<longleftrightarrow> m = n"
  by (metis unat_of_nat_u64)

lemma of_nat_u32_less:
  "m < 2 ^ 32 \<Longrightarrow> n < 2 ^ 32 \<Longrightarrow> (of_nat m :: u32) < of_nat n \<longleftrightarrow> m < n"
  by (simp add: word_less_nat_alt unat_of_nat_u32)

lemma of_nat_u64_less:
  "m < 2 ^ 64 \<Longrightarrow> n < 2 ^ 64 \<Longrightarrow> (of_nat m :: u64) < of_nat n \<longleftrightarrow> m < n"
  by (simp add: word_less_nat_alt unat_of_nat_u64)

section \<open>Termination\<close>

lemma no_infinite_descent:
  assumes "\<And>x y. step x y \<Longrightarrow> m y < (m x :: nat)"
  shows "\<not> (\<exists>f. f 0 = s \<and> (\<forall>k. step (f k) (f (Suc k))))"
proof
  assume "\<exists>f. f 0 = s \<and> (\<forall>k. step (f k) (f (Suc k)))"
  then obtain f where "\<forall>k. step (f k) (f (Suc k))" by blast
  then have less: "m (f (Suc k)) < m (f k)" for k using assms by blast
  have "m (f k) + k \<le> m (f 0)" for k
  proof (induction k)
    case (Suc k)
    then show ?case using less [of k] by simp
  qed simp
  from this [of "Suc (m (f 0))"] show False by simp
qed

end
