(* ===== verification/Avl.thy ===== *)
theory Avl
  imports Prelude "HOL-Library.Tree"
begin

text \<open>
  \<^verbatim>\<open>lib/server/avl.cpp\<close>: a balanced search tree of nodes with parent
  pointers, heights and subtree counts, over an explicit store.  The first half
  transcribes the code; the second half relates the store to a binary tree of
  addresses (\<open>avl_at\<close>) and its context (\<open>ctx_at\<close>), and shows that the pointer
  algorithms compute the functional rebalancing \<open>fix_ctx\<close>, keep the AVL
  invariant, delete exactly the given node, and step by rank.
\<close>

section \<open>Data\<close>

record avlnode =
  a_parent :: ptr
  a_left :: ptr
  a_right :: ptr
  a_height :: u32
  a_cnt :: u32

type_synonym aheap = "addr \<rightharpoonup> avlnode"

text \<open>A variable of type \<^verbatim>\<open>AVLNode **\<close>: a local pointer variable, or a child
  field of a node.\<close>

datatype slot = Local | LeftOf ptr | RightOf ptr

section \<open>Operations\<close>

definition avl_init :: "aheap \<Rightarrow> ptr \<Rightarrow> aheap option" where
  "avl_init h node = assign h node (\<lambda>n. n\<lparr>a_left := NULL, a_right := NULL, a_parent := NULL,
     a_height := 1, a_cnt := 1\<rparr>)"

definition avl_height :: "aheap \<Rightarrow> ptr \<Rightarrow> u32 option" where
  "avl_height h node = (if node \<noteq> NULL then map_option a_height (deref h node) else Some 0)"

definition avl_cnt :: "aheap \<Rightarrow> ptr \<Rightarrow> u32 option" where
  "avl_cnt h node = (if node \<noteq> NULL then map_option a_cnt (deref h node) else Some 0)"

definition avl_max :: "u32 \<Rightarrow> u32 \<Rightarrow> u32" where
  "avl_max lhs rhs = (if lhs < rhs then rhs else lhs)"

definition avl_update :: "aheap \<Rightarrow> ptr \<Rightarrow> aheap option" where
  "avl_update h node = do {
     n \<leftarrow> deref h node;
     hl \<leftarrow> avl_height h (a_left n);
     hr \<leftarrow> avl_height h (a_right n);
     h \<leftarrow> assign h node (a_height_update (\<lambda>_. 1 + avl_max hl hr));
     n \<leftarrow> deref h node;
     cl \<leftarrow> avl_cnt h (a_left n);
     cr \<leftarrow> avl_cnt h (a_right n);
     assign h node (a_cnt_update (\<lambda>_. 1 + cl + cr))
   }"

definition rot_left :: "aheap \<Rightarrow> ptr \<Rightarrow> (ptr \<times> aheap) option" where
  "rot_left h node = do {
     n \<leftarrow> deref h node;
     let parent = a_parent n;
     let new_node = a_right n;
     nn \<leftarrow> deref h new_node;
     let inner = a_left nn;
     h \<leftarrow> assign h node (a_right_update (\<lambda>_. inner));
     h \<leftarrow> (if inner \<noteq> NULL then assign h inner (a_parent_update (\<lambda>_. node)) else Some h);
     h \<leftarrow> assign h new_node (a_parent_update (\<lambda>_. parent));
     h \<leftarrow> assign h new_node (a_left_update (\<lambda>_. node));
     h \<leftarrow> assign h node (a_parent_update (\<lambda>_. new_node));
     h \<leftarrow> avl_update h node;
     h \<leftarrow> avl_update h new_node;
     Some (new_node, h)
   }"

definition rot_right :: "aheap \<Rightarrow> ptr \<Rightarrow> (ptr \<times> aheap) option" where
  "rot_right h node = do {
     n \<leftarrow> deref h node;
     let parent = a_parent n;
     let new_node = a_left n;
     nn \<leftarrow> deref h new_node;
     let inner = a_right nn;
     h \<leftarrow> assign h node (a_left_update (\<lambda>_. inner));
     h \<leftarrow> (if inner \<noteq> NULL then assign h inner (a_parent_update (\<lambda>_. node)) else Some h);
     h \<leftarrow> assign h new_node (a_parent_update (\<lambda>_. parent));
     h \<leftarrow> assign h new_node (a_right_update (\<lambda>_. node));
     h \<leftarrow> assign h node (a_parent_update (\<lambda>_. new_node));
     h \<leftarrow> avl_update h node;
     h \<leftarrow> avl_update h new_node;
     Some (new_node, h)
   }"

definition avl_fix_left :: "aheap \<Rightarrow> ptr \<Rightarrow> (ptr \<times> aheap) option" where
  "avl_fix_left h node = do {
     n \<leftarrow> deref h node;
     ln \<leftarrow> deref h (a_left n);
     hll \<leftarrow> avl_height h (a_left ln);
     hlr \<leftarrow> avl_height h (a_right ln);
     h \<leftarrow> (if hll < hlr
           then do { (t, h) \<leftarrow> rot_left h (a_left n); assign h node (a_left_update (\<lambda>_. t)) }
           else Some h);
     rot_right h node
   }"

definition avl_fix_right :: "aheap \<Rightarrow> ptr \<Rightarrow> (ptr \<times> aheap) option" where
  "avl_fix_right h node = do {
     n \<leftarrow> deref h node;
     rn \<leftarrow> deref h (a_right n);
     hrr \<leftarrow> avl_height h (a_right rn);
     hrl \<leftarrow> avl_height h (a_left rn);
     h \<leftarrow> (if hrr < hrl
           then do { (t, h) \<leftarrow> rot_right h (a_right n); assign h node (a_right_update (\<lambda>_. t)) }
           else Some h);
     rot_left h node
   }"

text \<open>\<open>child_slot\<close> is \<^verbatim>\<open>parent->left == node ? &parent->left : &parent->right\<close>;
  \<open>slot_set\<close> is the assignment through the slot, where \<open>v\<close> is the value of the local
  variable a \<open>Local\<close> slot stands for.\<close>

definition child_slot :: "aheap \<Rightarrow> ptr \<Rightarrow> ptr \<Rightarrow> slot option" where
  "child_slot h parent node = do {
     p \<leftarrow> deref h parent;
     Some (if a_left p = node then LeftOf parent else RightOf parent)
   }"

definition slot_set :: "aheap \<Rightarrow> slot \<Rightarrow> ptr \<Rightarrow> ptr \<Rightarrow> (ptr \<times> aheap) option" where
  "slot_set h from v new = (case from of
     Local \<Rightarrow> Some (new, h)
   | LeftOf p \<Rightarrow> do { h \<leftarrow> assign h p (a_left_update (\<lambda>_. new)); Some (v, h) }
   | RightOf p \<Rightarrow> do { h \<leftarrow> assign h p (a_right_update (\<lambda>_. new)); Some (v, h) })"

partial_function (option) avl_fix :: "aheap \<Rightarrow> ptr \<Rightarrow> (ptr \<times> aheap) option" where
  "avl_fix h node = do {
     n \<leftarrow> deref h node;
     from \<leftarrow> (if a_parent n \<noteq> NULL then child_slot h (a_parent n) node else Some Local);
     h \<leftarrow> avl_update h node;
     m \<leftarrow> deref h node;
     l \<leftarrow> avl_height h (a_left m);
     r \<leftarrow> avl_height h (a_right m);
     (node, h) \<leftarrow>
       (if l = r + 2 then do { (t, h) \<leftarrow> avl_fix_left h node; slot_set h from node t }
        else if l + 2 = r then do { (t, h) \<leftarrow> avl_fix_right h node; slot_set h from node t }
        else Some (node, h));
     if a_parent n = NULL then Some (node, h) else avl_fix h (a_parent n)
   }"

definition avl_del_easy :: "aheap \<Rightarrow> ptr \<Rightarrow> (ptr \<times> aheap) option" where
  "avl_del_easy h node = do {
     n \<leftarrow> deref h node;
     c_assert (a_left n = NULL \<or> a_right n = NULL);
     let child = (if a_left n \<noteq> NULL then a_left n else a_right n);
     let parent = a_parent n;
     h \<leftarrow> (if child \<noteq> NULL then assign h child (a_parent_update (\<lambda>_. parent)) else Some h);
     if parent = NULL then Some (child, h)
     else do {
       from \<leftarrow> child_slot h parent node;
       (_, h) \<leftarrow> slot_set h from node child;
       avl_fix h parent
     }
   }"

partial_function (option) avl_leftmost :: "aheap \<Rightarrow> ptr \<Rightarrow> ptr option" where
  "avl_leftmost h victim = do {
     n \<leftarrow> deref h victim;
     if a_left n \<noteq> NULL then avl_leftmost h (a_left n) else Some victim
   }"

definition avl_del :: "aheap \<Rightarrow> ptr \<Rightarrow> (ptr \<times> aheap) option" where
  "avl_del h node = do {
     n \<leftarrow> deref h node;
     if a_left n = NULL \<or> a_right n = NULL then avl_del_easy h node
     else do {
       victim \<leftarrow> avl_leftmost h (a_right n);
       (root, h) \<leftarrow> avl_del_easy h victim;
       n \<leftarrow> deref h node;
       h \<leftarrow> assign h victim (\<lambda>_. n);
       v \<leftarrow> deref h victim;
       h \<leftarrow> (if a_left v \<noteq> NULL then assign h (a_left v) (a_parent_update (\<lambda>_. victim)) else Some h);
       v \<leftarrow> deref h victim;
       h \<leftarrow> (if a_right v \<noteq> NULL then assign h (a_right v) (a_parent_update (\<lambda>_. victim)) else Some h);
       n \<leftarrow> deref h node;
       from \<leftarrow> (if a_parent n \<noteq> NULL then child_slot h (a_parent n) node else Some Local);
       slot_set h from root victim
     }
   }"

text \<open>The sums \<^verbatim>\<open>avl_cnt(x) + 1\<close> are unsigned 32-bit; the sums with the 64-bit
  \<open>pos\<close> are signed.\<close>

partial_function (option) avl_offset_loop :: "aheap \<Rightarrow> ptr \<Rightarrow> int \<Rightarrow> int \<Rightarrow> ptr option" where
  "avl_offset_loop h node offset pos =
     (if offset = pos then Some node
      else do {
        n \<leftarrow> deref h node;
        go_right \<leftarrow> (if pos < offset
          then do { c \<leftarrow> avl_cnt h (a_right n); x \<leftarrow> i64_chk (pos + uint c); Some (x \<ge> offset) }
          else Some False);
        if go_right then do {
          m \<leftarrow> deref h (a_right n);
          c \<leftarrow> avl_cnt h (a_left m);
          pos \<leftarrow> i64_chk (pos + uint (c + 1));
          avl_offset_loop h (a_right n) offset pos
        }
        else do {
          go_left \<leftarrow> (if pos > offset
            then do { c \<leftarrow> avl_cnt h (a_left n); x \<leftarrow> i64_chk (pos - uint c); Some (x \<le> offset) }
            else Some False);
          if go_left then do {
            m \<leftarrow> deref h (a_left n);
            c \<leftarrow> avl_cnt h (a_right m);
            pos \<leftarrow> i64_chk (pos - uint (c + 1));
            avl_offset_loop h (a_left n) offset pos
          }
          else if a_parent n = NULL then Some NULL
          else do {
            p \<leftarrow> deref h (a_parent n);
            pos \<leftarrow> (if a_right p = node
              then do { c \<leftarrow> avl_cnt h (a_left n); i64_chk (pos - uint (c + 1)) }
              else do { c \<leftarrow> avl_cnt h (a_right n); i64_chk (pos + uint (c + 1)) });
            avl_offset_loop h (a_parent n) offset pos
          }
        }
      })"

definition avl_offset :: "aheap \<Rightarrow> ptr \<Rightarrow> i64 \<Rightarrow> ptr option" where
  "avl_offset h node offset = avl_offset_loop h node (sint offset) 0"

section \<open>Trees in the store\<close>

fun rt :: "addr tree \<Rightarrow> ptr" where
  "rt Leaf = NULL"
| "rt (Node l a r) = Some a"

text \<open>The content of a node whose subtrees are \<open>l\<close> and \<open>r\<close> and whose parent is \<open>par\<close>.\<close>

definition nd :: "ptr \<Rightarrow> addr tree \<Rightarrow> addr tree \<Rightarrow> avlnode" where
  "nd par l r = \<lparr>a_parent = par, a_left = rt l, a_right = rt r,
     a_height = of_nat (1 + max (height l) (height r)), a_cnt = of_nat (1 + size l + size r)\<rparr>"

fun avl_at :: "aheap \<Rightarrow> ptr \<Rightarrow> addr tree \<Rightarrow> bool" where
  "avl_at h par Leaf = True"
| "avl_at h par (Node l a r) =
     (h a = Some (nd par l r) \<and> avl_at h (Some a) l \<and> avl_at h (Some a) r)"

text \<open>The path from a subtree up to the root: each frame is an ancestor with its other
  subtree.  Heights and counts on the path may be out of date.\<close>

datatype frame = InLeft addr "addr tree" | InRight "addr tree" addr

fun par_of :: "frame list \<Rightarrow> ptr" where
  "par_of [] = NULL"
| "par_of (InLeft a r # c) = Some a"
| "par_of (InRight l a # c) = Some a"

fun ctx_at :: "aheap \<Rightarrow> ptr \<Rightarrow> frame list \<Rightarrow> bool" where
  "ctx_at h q [] = True"
| "ctx_at h q (InLeft a r # c) =
     ((\<exists>ht ct. h a = Some \<lparr>a_parent = par_of c, a_left = q, a_right = rt r, a_height = ht, a_cnt = ct\<rparr>) \<and>
      avl_at h (Some a) r \<and> ctx_at h (Some a) c)"
| "ctx_at h q (InRight l a # c) =
     ((\<exists>ht ct. h a = Some \<lparr>a_parent = par_of c, a_left = rt l, a_right = q, a_height = ht, a_cnt = ct\<rparr>) \<and>
      avl_at h (Some a) l \<and> ctx_at h (Some a) c)"

fun ctx_nodes :: "frame list \<Rightarrow> addr list" where
  "ctx_nodes [] = []"
| "ctx_nodes (InLeft a r # c) = a # inorder r @ ctx_nodes c"
| "ctx_nodes (InRight l a # c) = a # inorder l @ ctx_nodes c"

fun plug :: "frame list \<Rightarrow> addr tree \<Rightarrow> addr tree" where
  "plug [] t = t"
| "plug (InLeft a r # c) t = plug c (Node t a r)"
| "plug (InRight l a # c) t = plug c (Node l a t)"

lemma avl_at_upd [simp]: "a \<notin> set_tree t \<Longrightarrow> avl_at (h(a := v)) par t = avl_at h par t"
  by (induction t arbitrary: par) auto

lemma avl_at_frame: "avl_at h par t \<Longrightarrow> \<forall>a \<in> set_tree t. h' a = h a \<Longrightarrow> avl_at h' par t"
  by (induction t arbitrary: par) auto

lemma ctx_at_upd [simp]: "a \<notin> set (ctx_nodes c) \<Longrightarrow> ctx_at (h(a := v)) q c = ctx_at h q c"
  by (induction c arbitrary: q rule: ctx_nodes.induct) auto

lemma ctx_at_frame: "ctx_at h q c \<Longrightarrow> \<forall>a \<in> set (ctx_nodes c). h' a = h a \<Longrightarrow> ctx_at h' q c"
proof (induction c arbitrary: q rule: ctx_nodes.induct)
  case (2 a r c)
  then show ?case using avl_at_frame [of h "Some a" r h'] by auto
next
  case (3 l a c)
  then show ?case using avl_at_frame [of h "Some a" l h'] by auto
qed simp

lemma rt_in: "rt t = Some a \<Longrightarrow> a \<in> set_tree t"
  by (cases t) auto

lemma avl_height_at [simp]: "avl_at h par t \<Longrightarrow> avl_height h (rt t) = Some (of_nat (height t))"
  by (cases t) (auto simp: avl_height_def nd_def)

lemma avl_cnt_at [simp]: "avl_at h par t \<Longrightarrow> avl_cnt h (rt t) = Some (of_nat (size t))"
  by (cases t) (auto simp: avl_cnt_def nd_def)

text \<open>Moving a subtree under another parent.\<close>

definition reparent :: "aheap \<Rightarrow> addr tree \<Rightarrow> ptr \<Rightarrow> aheap" where
  "reparent h t q = (case t of Leaf \<Rightarrow> h | Node l a r \<Rightarrow> h(a \<mapsto> nd q l r))"

lemma reparent_assign:
  "avl_at h par t \<Longrightarrow>
   (if rt t \<noteq> NULL then assign h (rt t) (a_parent_update (\<lambda>_. q)) else Some h) = Some (reparent h t q)"
  by (cases t) (auto simp: reparent_def nd_def)

lemma avl_at_reparent:
  "avl_at h par t \<Longrightarrow> distinct (inorder t) \<Longrightarrow> avl_at (reparent h t q) q t"
  by (cases t) (auto simp: reparent_def)

lemma reparent_other: "x \<notin> set_tree t \<Longrightarrow> reparent h t q x = h x"
  by (cases t) (auto simp: reparent_def)

lemma agree_off_reparent: "agree_off (set_tree t) h (reparent h t q)"
  by (simp add: frame_defs reparent_other)

lemma avl_at_reparent_other:
  "set_tree t \<inter> set_tree u = {} \<Longrightarrow> avl_at (reparent h t q) par u = avl_at h par u"
  by (cases t) (auto simp: reparent_def)

lemma ctx_at_reparent:
  "set_tree t \<inter> set (ctx_nodes c) = {} \<Longrightarrow> ctx_at (reparent h t q) p c = ctx_at h p c"
  by (cases t) (auto simp: reparent_def)

subsection \<open>Updating one node\<close>

lemma avl_max_of_nat:
  "m < 2 ^ 32 \<Longrightarrow> n < 2 ^ 32 \<Longrightarrow> avl_max (of_nat m) (of_nat n) = of_nat (max m n)"
  by (auto simp: avl_max_def of_nat_u32_less max_def)

lemma height_less: "size (t :: addr tree) < 2 ^ 31 \<Longrightarrow> height t < 2 ^ 31"
  using height_le_size_tree [of t] by simp

lemma nd_simps [simp]:
  "a_parent (nd par l r) = par" "a_left (nd par l r) = rt l" "a_right (nd par l r) = rt r"
  "a_height (nd par l r) = of_nat (1 + max (height l) (height r))"
  "a_cnt (nd par l r) = of_nat (1 + size l + size r)"
  by (simp_all add: nd_def)

lemma nd_eqI:
  "a_parent n = par \<Longrightarrow> a_left n = rt l \<Longrightarrow> a_right n = rt r \<Longrightarrow>
   a_height n = of_nat (1 + max (height l) (height r)) \<Longrightarrow> a_cnt n = of_nat (1 + size l + size r) \<Longrightarrow>
   n = nd par l r"
  by (simp add: nd_def)

lemma avl_update_at:
  assumes "h a = Some n" "a_parent n = par" "a_left n = rt l" "a_right n = rt r"
    and "avl_at h p l" "avl_at h q r" "a \<notin> set_tree l" "a \<notin> set_tree r"
    and "size l < 2 ^ 31" "size r < 2 ^ 31"
  shows "avl_update h (Some a) = Some (h(a \<mapsto> nd par l r))"
proof -
  have "avl_max (of_nat (height l)) (of_nat (height r)) = of_nat (max (height l) (height r))"
    using height_less [OF assms(9)] height_less [OF assms(10)] by (intro avl_max_of_nat) auto
  then have "avl_update h (Some a) = Some (h(a \<mapsto> n\<lparr>a_height := 1 + of_nat (max (height l) (height r)),
      a_cnt := 1 + of_nat (size l) + of_nat (size r)\<rparr>))"
    using assms by (simp add: avl_update_def)
  moreover have "n\<lparr>a_height := 1 + of_nat (max (height l) (height r)),
      a_cnt := 1 + of_nat (size l) + of_nat (size r)\<rparr> = nd par l r"
    by (rule nd_eqI) (simp_all add: assms)
  ultimately show ?thesis by simp
qed

subsection \<open>Rotations\<close>

lemmas avl_disjoint = avl_at_reparent avl_at_reparent_other Int_Un_distrib Int_commute

lemma rot_right_at:
  assumes a: "h a = Some n" "a_parent n = par" "a_left n = Some b" "a_right n = rt r"
    and b: "h b = Some m" "a_left m = rt ll" "a_right m = rt lr"
    and t: "avl_at h (Some b) ll" "avl_at h (Some b) lr" "avl_at h (Some a) r"
    and d: "distinct (inorder ll @ b # inorder lr @ a # inorder r)"
    and sz: "size ll + size lr + size r + 2 < 2 ^ 31"
  shows "rot_right h (Some a) = Some (Some b, (reparent h lr (Some a))
           (a \<mapsto> nd (Some b) lr r, b \<mapsto> nd par ll (Node lr a r)))"
proof -
  have ne: "a \<noteq> b" using d by auto
  let ?h = "reparent h lr (Some a)"
  let ?h1 = "?h(a \<mapsto> n\<lparr>a_left := rt lr, a_parent := Some b\<rparr>,
    b \<mapsto> m\<lparr>a_parent := par, a_right := Some a\<rparr>)"
  let ?h2 = "?h1(a \<mapsto> nd (Some b) lr r)"
  have sub: "avl_at ?h (Some b) ll" "avl_at ?h (Some a) lr" "avl_at ?h (Some a) r"
    using t d by (simp_all add: avl_disjoint)
  have u1: "avl_update ?h1 (Some a) = Some ?h2"
    by (rule avl_update_at [where n = "n\<lparr>a_left := rt lr, a_parent := Some b\<rparr>"])
      (use d sz sub ne a(4) in auto)
  have u2: "avl_update ?h2 (Some b) = Some (?h2(b \<mapsto> nd par ll (Node lr a r)))"
    by (rule avl_update_at [where n = "m\<lparr>a_parent := par, a_right := Some a\<rparr>"])
      (use d sz sub ne b(2) in auto)
  have steps: "rot_right h (Some a) = do {
      h \<leftarrow> avl_update ?h1 (Some a); h \<leftarrow> avl_update h (Some b); Some (Some b, h) }"
  proof (cases lr)
    case Leaf
    with a b ne show ?thesis by (simp add: rot_right_def reparent_def fun_upd_twist Let_def)
  next
    case (Node x c y)
    with d have "c \<noteq> a" "c \<noteq> b" by auto
    with Node a b ne t(2) show ?thesis
      by (simp add: rot_right_def reparent_def nd_def fun_upd_twist Let_def)
  qed
  have "(do { h \<leftarrow> avl_update ?h1 (Some a); h \<leftarrow> avl_update h (Some b); Some (Some b, h) }) =
      Some (Some b, ?h2(b \<mapsto> nd par ll (Node lr a r)))"
    by (simp only: u1 u2 Option.bind.bind_lunit)
  also have "?h2(b \<mapsto> nd par ll (Node lr a r)) = ?h(a \<mapsto> nd (Some b) lr r, b \<mapsto> nd par ll (Node lr a r))"
    using ne by (simp add: fun_upd_twist)
  finally show ?thesis unfolding steps .
qed

lemma rot_left_at:
  assumes a: "h a = Some n" "a_parent n = par" "a_left n = rt l" "a_right n = Some b"
    and b: "h b = Some m" "a_left m = rt rl" "a_right m = rt rr"
    and t: "avl_at h (Some a) l" "avl_at h (Some b) rl" "avl_at h (Some b) rr"
    and d: "distinct (inorder l @ a # inorder rl @ b # inorder rr)"
    and sz: "size l + size rl + size rr + 2 < 2 ^ 31"
  shows "rot_left h (Some a) = Some (Some b, (reparent h rl (Some a))
           (a \<mapsto> nd (Some b) l rl, b \<mapsto> nd par (Node l a rl) rr))"
proof -
  have ne: "a \<noteq> b" using d by auto
  let ?h = "reparent h rl (Some a)"
  let ?h1 = "?h(a \<mapsto> n\<lparr>a_right := rt rl, a_parent := Some b\<rparr>,
    b \<mapsto> m\<lparr>a_parent := par, a_left := Some a\<rparr>)"
  let ?h2 = "?h1(a \<mapsto> nd (Some b) l rl)"
  have sub: "avl_at ?h (Some a) l" "avl_at ?h (Some a) rl" "avl_at ?h (Some b) rr"
    using t d by (simp_all add: avl_disjoint)
  have u1: "avl_update ?h1 (Some a) = Some ?h2"
    by (rule avl_update_at [where n = "n\<lparr>a_right := rt rl, a_parent := Some b\<rparr>"])
      (use d sz sub ne a(3) in auto)
  have u2: "avl_update ?h2 (Some b) = Some (?h2(b \<mapsto> nd par (Node l a rl) rr))"
    by (rule avl_update_at [where n = "m\<lparr>a_parent := par, a_left := Some a\<rparr>"])
      (use d sz sub ne b(3) in auto)
  have steps: "rot_left h (Some a) = do {
      h \<leftarrow> avl_update ?h1 (Some a); h \<leftarrow> avl_update h (Some b); Some (Some b, h) }"
  proof (cases rl)
    case Leaf
    with a b ne show ?thesis by (simp add: rot_left_def reparent_def fun_upd_twist Let_def)
  next
    case (Node x c y)
    with d have "c \<noteq> a" "c \<noteq> b" by auto
    with Node a b ne t(2) show ?thesis
      by (simp add: rot_left_def reparent_def nd_def fun_upd_twist Let_def)
  qed
  have "(do { h \<leftarrow> avl_update ?h1 (Some a); h \<leftarrow> avl_update h (Some b); Some (Some b, h) }) =
      Some (Some b, ?h2(b \<mapsto> nd par (Node l a rl) rr))"
    by (simp only: u1 u2 Option.bind.bind_lunit)
  also have "?h2(b \<mapsto> nd par (Node l a rl) rr) = ?h(a \<mapsto> nd (Some b) l rl, b \<mapsto> nd par (Node l a rl) rr)"
    using ne by (simp add: fun_upd_twist)
  finally show ?thesis unfolding steps .
qed

section \<open>The functional algorithm\<close>

definition bal_left :: "addr tree \<Rightarrow> addr \<Rightarrow> addr tree \<Rightarrow> addr tree" where
  "bal_left l a r = (case l of
     Leaf \<Rightarrow> Node l a r
   | Node ll b lr \<Rightarrow>
       if height ll < height lr
       then (case lr of Leaf \<Rightarrow> Node l a r | Node x c y \<Rightarrow> Node (Node ll b x) c (Node y a r))
       else Node ll b (Node lr a r))"

definition bal_right :: "addr tree \<Rightarrow> addr \<Rightarrow> addr tree \<Rightarrow> addr tree" where
  "bal_right l a r = (case r of
     Leaf \<Rightarrow> Node l a r
   | Node rl b rr \<Rightarrow>
       if height rr < height rl
       then (case rl of Leaf \<Rightarrow> Node l a r | Node x c y \<Rightarrow> Node (Node l a x) c (Node y b rr))
       else Node (Node l a rl) b rr)"

definition bal :: "addr tree \<Rightarrow> addr \<Rightarrow> addr tree \<Rightarrow> addr tree" where
  "bal l a r =
     (if height l = height r + 2 then bal_left l a r
      else if height l + 2 = height r then bal_right l a r
      else Node l a r)"

fun fix_ctx :: "frame list \<Rightarrow> addr tree \<Rightarrow> addr tree" where
  "fix_ctx [] t = t"
| "fix_ctx (InLeft a r # c) t = fix_ctx c (bal t a r)"
| "fix_ctx (InRight l a # c) t = fix_ctx c (bal l a t)"

fun avl :: "addr tree \<Rightarrow> bool" where
  "avl Leaf = True"
| "avl (Node l a r) =
     (height l \<le> height r + 1 \<and> height r \<le> height l + 1 \<and> avl l \<and> avl r)"

lemma inorder_bal_left: "inorder (bal_left l a r) = inorder l @ a # inorder r"
  by (auto simp: bal_left_def split: tree.splits)

lemma inorder_bal_right: "inorder (bal_right l a r) = inorder l @ a # inorder r"
  by (auto simp: bal_right_def split: tree.splits)

lemma inorder_bal [simp]: "inorder (bal l a r) = inorder l @ a # inorder r"
  by (simp add: bal_def inorder_bal_left inorder_bal_right)

lemma set_bal [simp]: "set_tree (bal l a r) = insert a (set_tree l \<union> set_tree r)"
  using arg_cong [OF inorder_bal [of l a r], of set] by (auto simp del: inorder_bal)

lemma size_bal [simp]: "size (bal l a r) = size l + size r + 1"
  using arg_cong [OF inorder_bal [of l a r], of length] by (simp del: inorder_bal)

lemma bal_Node: "\<exists>x b y. bal l a r = Node x b y"
  by (auto simp: bal_def bal_left_def bal_right_def split: tree.splits)

subsection \<open>The rebalancing step\<close>

lemma avl_fix_left_at:
  assumes a: "h a = Some (nd par l r)" and t: "avl_at h (Some a) l" "avl_at h (Some a) r"
    and d: "distinct (inorder l @ a # inorder r)" and sz: "size l + size r + 1 < 2 ^ 31"
    and hl: "height l \<ge> 2"
  shows "\<exists>h'. avl_fix_left h (Some a) = Some (rt (bal_left l a r), h') \<and>
           avl_at h' par (bal_left l a r) \<and> agree_off (set_tree (Node l a r)) h h'"
proof -
  from hl obtain ll b lr where l: "l = Node ll b lr" by (cases l) auto
  have b: "h b = Some (nd (Some a) ll lr)" and sub: "avl_at h (Some b) ll" "avl_at h (Some b) lr"
    using t(1) l by auto
  have small: "height ll < 2 ^ 31" "height lr < 2 ^ 31" "size ll < 2 ^ 31" "size lr < 2 ^ 31"
    using sz l height_less [of ll] height_less [of lr] by auto
  then have cmp: "(of_nat (height ll) :: u32) < of_nat (height lr) \<longleftrightarrow> height ll < height lr"
    by (intro of_nat_u32_less) auto
  show ?thesis
  proof (cases "height ll < height lr")
    case False
    have "avl_fix_left h (Some a) = rot_right h (Some a)"
      using a b sub l cmp False by (simp add: avl_fix_left_def nd_def)
    also have "\<dots> = Some (Some b, (reparent h lr (Some a))
           (a \<mapsto> nd (Some b) lr r, b \<mapsto> nd par ll (Node lr a r)))"
      using b sub t(2) d sz l by (intro rot_right_at [where n = "nd par l r" and m = "nd (Some a) ll lr"]) (auto simp: a)
    finally have run: "avl_fix_left h (Some a) = \<dots>" .
    have res: "bal_left l a r = Node ll b (Node lr a r)" using False l by (simp add: bal_left_def)
    show ?thesis unfolding res rt.simps
      by (intro exI conjI, rule run)
        (use l sub t(2) d in \<open>auto simp: frame_defs reparent_other avl_disjoint\<close>)
  next
    case True
    then obtain x c y where lr: "lr = Node x c y" by (cases lr) auto
    have c: "h c = Some (nd (Some b) x y)" and xy: "avl_at h (Some c) x" "avl_at h (Some c) y"
      using sub(2) lr by auto
    let ?h1 = "(reparent h x (Some b))(b \<mapsto> nd (Some c) ll x, c \<mapsto> nd (Some a) (Node ll b x) y)"
    let ?h2 = "?h1(a \<mapsto> (nd par l r)\<lparr>a_left := Some c\<rparr>)"
    let ?h3 = "(reparent ?h2 y (Some a))(a \<mapsto> nd (Some c) y r, c \<mapsto> nd par (Node ll b x) (Node y a r))"
    have "avl_fix_left h (Some a) = do {
        (t, h) \<leftarrow> rot_left h (Some b); h \<leftarrow> assign h (Some a) (a_left_update (\<lambda>_. t)); rot_right h (Some a) }"
      using a b sub l cmp True by (simp add: avl_fix_left_def case_prod_unfold)
    moreover have "rot_left h (Some b) = Some (Some c, ?h1)"
      using c sub(1) xy d sz l lr by (intro rot_left_at [where n = "nd (Some a) ll lr" and m = "nd (Some b) x y"]) (auto simp: b)
    moreover have "?h1 a = Some (nd par l r)"
      using a d l lr by (auto simp: reparent_other)
    ultimately have "avl_fix_left h (Some a) = rot_right ?h2 (Some a)"
      by (simp only: assign_Some Option.bind.bind_lunit prod.case)
    also have "\<dots> = Some (Some c, ?h3)"
      by (rule rot_right_at [where n = "(nd par l r)\<lparr>a_left := Some c\<rparr>" and m = "nd (Some a) (Node ll b x) y" and ll = "Node ll b x"])
        (use d l lr sz xy sub(1) t(2) in \<open>auto simp: avl_disjoint\<close>)
    finally have run: "avl_fix_left h (Some a) = \<dots>" .
    have res: "bal_left l a r = Node (Node ll b x) c (Node y a r)"
      using True l lr by (simp add: bal_left_def)
    show ?thesis unfolding res rt.simps
      by (intro exI conjI, rule run)
        (use l lr sub(1) xy t(2) d in \<open>auto simp: frame_defs reparent_other avl_disjoint\<close>)
  qed
qed

lemma avl_fix_right_at:
  assumes a: "h a = Some (nd par l r)" and t: "avl_at h (Some a) l" "avl_at h (Some a) r"
    and d: "distinct (inorder l @ a # inorder r)" and sz: "size l + size r + 1 < 2 ^ 31"
    and hr: "height r \<ge> 2"
  shows "\<exists>h'. avl_fix_right h (Some a) = Some (rt (bal_right l a r), h') \<and>
           avl_at h' par (bal_right l a r) \<and> agree_off (set_tree (Node l a r)) h h'"
proof -
  from hr obtain rl b rr where r: "r = Node rl b rr" by (cases r) auto
  have b: "h b = Some (nd (Some a) rl rr)" and sub: "avl_at h (Some b) rl" "avl_at h (Some b) rr"
    using t(2) r by auto
  have small: "height rl < 2 ^ 31" "height rr < 2 ^ 31" "size rl < 2 ^ 31" "size rr < 2 ^ 31"
    using sz r height_less [of rl] height_less [of rr] by auto
  then have cmp: "(of_nat (height rr) :: u32) < of_nat (height rl) \<longleftrightarrow> height rr < height rl"
    by (intro of_nat_u32_less) auto
  show ?thesis
  proof (cases "height rr < height rl")
    case False
    have "avl_fix_right h (Some a) = rot_left h (Some a)"
      using a b sub r cmp False by (simp add: avl_fix_right_def nd_def)
    also have "\<dots> = Some (Some b, (reparent h rl (Some a))
           (a \<mapsto> nd (Some b) l rl, b \<mapsto> nd par (Node l a rl) rr))"
      using b sub t(1) d sz r by (intro rot_left_at [where n = "nd par l r" and m = "nd (Some a) rl rr"]) (auto simp: a)
    finally have run: "avl_fix_right h (Some a) = \<dots>" .
    have res: "bal_right l a r = Node (Node l a rl) b rr" using False r by (simp add: bal_right_def)
    show ?thesis unfolding res rt.simps
      by (intro exI conjI, rule run)
        (use r sub t(1) d in \<open>auto simp: frame_defs reparent_other avl_disjoint\<close>)
  next
    case True
    then obtain x c y where rl: "rl = Node x c y" by (cases rl) auto
    have c: "h c = Some (nd (Some b) x y)" and xy: "avl_at h (Some c) x" "avl_at h (Some c) y"
      using sub(1) rl by auto
    let ?h1 = "(reparent h y (Some b))(b \<mapsto> nd (Some c) y rr, c \<mapsto> nd (Some a) x (Node y b rr))"
    let ?h2 = "?h1(a \<mapsto> (nd par l r)\<lparr>a_right := Some c\<rparr>)"
    let ?h3 = "(reparent ?h2 x (Some a))(a \<mapsto> nd (Some c) l x, c \<mapsto> nd par (Node l a x) (Node y b rr))"
    have "avl_fix_right h (Some a) = do {
        (t, h) \<leftarrow> rot_right h (Some b); h \<leftarrow> assign h (Some a) (a_right_update (\<lambda>_. t)); rot_left h (Some a) }"
      using a b sub r cmp True by (simp add: avl_fix_right_def case_prod_unfold)
    moreover have "rot_right h (Some b) = Some (Some c, ?h1)"
      using c sub(2) xy d sz r rl by (intro rot_right_at [where n = "nd (Some a) rl rr" and m = "nd (Some b) x y"]) (auto simp: b)
    moreover have "?h1 a = Some (nd par l r)"
      using a d r rl by (auto simp: reparent_other)
    ultimately have "avl_fix_right h (Some a) = rot_left ?h2 (Some a)"
      by (simp only: assign_Some Option.bind.bind_lunit prod.case)
    also have "\<dots> = Some (Some c, ?h3)"
      by (rule rot_left_at [where n = "(nd par l r)\<lparr>a_right := Some c\<rparr>" and m = "nd (Some a) x (Node y b rr)" and rr = "Node y b rr"])
        (use d r rl sz xy sub(2) t(1) in \<open>auto simp: avl_disjoint\<close>)
    finally have run: "avl_fix_right h (Some a) = \<dots>" .
    have res: "bal_right l a r = Node (Node l a x) c (Node y b rr)"
      using True r rl by (simp add: bal_right_def)
    show ?thesis unfolding res rt.simps
      by (intro exI conjI, rule run)
        (use r rl sub(2) xy t(1) d in \<open>auto simp: frame_defs reparent_other avl_disjoint\<close>)
  qed
qed

subsection \<open>Climbing to the root\<close>

fun from_of :: "frame list \<Rightarrow> slot" where
  "from_of [] = Local"
| "from_of (InLeft a r # c) = LeftOf (Some a)"
| "from_of (InRight l a # c) = RightOf (Some a)"

lemma par_of_NULL [simp]: "par_of c = NULL \<longleftrightarrow> c = []"
  by (cases c rule: par_of.cases) auto

lemma child_slot_ctx:
  assumes "ctx_at h (Some a) c" "a \<notin> set (ctx_nodes c)"
  shows "(if par_of c \<noteq> NULL then child_slot h (par_of c) (Some a) else Some Local) = Some (from_of c)"
  using assms by (cases c rule: par_of.cases) (auto simp: child_slot_def dest: rt_in)

lemma slot_set_ctx:
  assumes "ctx_at h q c" "distinct (ctx_nodes c)"
  shows "\<exists>h2. slot_set h (from_of c) v t = Some (if c = [] then t else v, h2) \<and> ctx_at h2 t c \<and>
           agree_off (set (ctx_nodes c)) h h2"
  using assms by (cases c rule: par_of.cases) (auto simp: slot_set_def)

lemma ctx_at_agree:
  "ctx_at h q c \<Longrightarrow> agree_off S h h' \<Longrightarrow> S \<inter> set (ctx_nodes c) = {} \<Longrightarrow> ctx_at h' q c"
  by (rule ctx_at_frame) (auto simp: frame_defs)

lemma avl_at_agree:
  "avl_at h q t \<Longrightarrow> agree_off S h h' \<Longrightarrow> S \<inter> set_tree t = {} \<Longrightarrow> avl_at h' q t"
  by (rule avl_at_frame) (auto simp: frame_defs)

text \<open>What \<^verbatim>\<open>avl_fix\<close> finds: a node with correct subtrees below an arbitrary path.\<close>

definition focus :: "aheap \<Rightarrow> frame list \<Rightarrow> addr tree \<Rightarrow> addr \<Rightarrow> addr tree \<Rightarrow> bool" where
  "focus h c l a r \<longleftrightarrow>
     (\<exists>ht ct. h a = Some \<lparr>a_parent = par_of c, a_left = rt l, a_right = rt r, a_height = ht, a_cnt = ct\<rparr>) \<and>
     avl_at h (Some a) l \<and> avl_at h (Some a) r \<and> ctx_at h (Some a) c \<and>
     distinct (inorder l @ a # inorder r @ ctx_nodes c) \<and>
     size l + size r + 1 + length (ctx_nodes c) < 2 ^ 31"

lemma rebalance_at:
  assumes a: "h a = Some (nd par l r)" and t: "avl_at h (Some a) l" "avl_at h (Some a) r"
    and d: "distinct (inorder l @ a # inorder r)" and sz: "size l + size r + 1 < 2 ^ 31"
  shows "\<exists>h'. (if height l = height r + 2 then avl_fix_left h (Some a)
              else if height l + 2 = height r then avl_fix_right h (Some a)
              else Some (Some a, h)) = Some (rt (bal l a r), h') \<and>
           avl_at h' par (bal l a r) \<and> agree_off (set_tree (Node l a r)) h h'"
  using avl_fix_left_at [OF a t d sz] avl_fix_right_at [OF a t d sz] a t
  by (auto simp: bal_def)

lemma avl_fix_step:
  assumes f: "focus h c l a r"
  obtains h' where
    "avl_fix h (Some a) = (if c = [] then Some (rt (bal l a r), h') else avl_fix h' (par_of c))"
    "avl_at h' (par_of c) (bal l a r)" "ctx_at h' (rt (bal l a r)) c"
    "agree_off (set_tree (Node l a r) \<union> set (ctx_nodes c)) h h'"
proof -
  from f obtain ht ct where
    n: "h a = Some \<lparr>a_parent = par_of c, a_left = rt l, a_right = rt r, a_height = ht, a_cnt = ct\<rparr>"
    by (auto simp: focus_def)
  have t: "avl_at h (Some a) l" "avl_at h (Some a) r" "ctx_at h (Some a) c"
    and d: "distinct (inorder l @ a # inorder r)" "distinct (ctx_nodes c)"
      "set_tree (Node l a r) \<inter> set (ctx_nodes c) = {}"
    and sz: "size l + size r + 1 < 2 ^ 31"
    using f by (auto simp: focus_def)
  have a_notin: "a \<notin> set_tree l" "a \<notin> set_tree r" "a \<notin> set (ctx_nodes c)" using d by auto
  let ?h1 = "h(a \<mapsto> nd (par_of c) l r)"
  have upd: "avl_update h (Some a) = Some ?h1"
    by (rule avl_update_at, rule n) (use t a_notin sz in auto)
  have t1: "avl_at ?h1 (Some a) l" "avl_at ?h1 (Some a) r" "ctx_at ?h1 (Some a) c"
    using t a_notin by simp_all
  have small: "height l < 2 ^ 31" "height r < 2 ^ 31"
    using sz height_less [of l] height_less [of r] by simp_all
  have cmp: "(of_nat (height l) :: u32) = of_nat (height r) + 2 \<longleftrightarrow> height l = height r + 2"
    "(of_nat (height l) :: u32) + 2 = of_nat (height r) \<longleftrightarrow> height l + 2 = height r"
    using small of_nat_u32_inject [of "height l" "height r + 2"] of_nat_u32_inject [of "height l + 2" "height r"]
    by (simp_all add: add.commute)
  from rebalance_at [of ?h1 a "par_of c" l r] t1 d sz obtain h2 where
    b: "(if height l = height r + 2 then avl_fix_left ?h1 (Some a)
         else if height l + 2 = height r then avl_fix_right ?h1 (Some a)
         else Some (Some a, ?h1)) = Some (rt (bal l a r), h2)"
      "avl_at h2 (par_of c) (bal l a r)" "agree_off (set_tree (Node l a r)) ?h1 h2" by auto
  have ctx2: "ctx_at h2 (Some a) c" using ctx_at_agree [OF t1(3) b(3)] d by blast
  from slot_set_ctx [OF ctx2 d(2), of "Some a" "rt (bal l a r)"] obtain h3 where
    s: "slot_set h2 (from_of c) (Some a) (rt (bal l a r)) =
          Some (if c = [] then rt (bal l a r) else Some a, h3)"
      "ctx_at h3 (rt (bal l a r)) c" "agree_off (set (ctx_nodes c)) h2 h3" by blast
  show thesis
  proof (cases "height l = height r + 2 \<or> height l + 2 = height r")
    case True
    have "avl_fix h (Some a) = (if c = [] then Some (rt (bal l a r), h3) else avl_fix h3 (par_of c))"
      using True b(1) s(1) child_slot_ctx [OF t(3) a_notin(3)] n t1
      by (subst avl_fix.simps) (auto simp: upd cmp split: if_splits)
    moreover have "avl_at h3 (par_of c) (bal l a r)"
      using avl_at_agree [OF b(2) s(3)] d by auto
    moreover have "agree_off (set_tree (Node l a r) \<union> set (ctx_nodes c)) h h3"
      using b(3) s(3) by (auto simp: frame_defs)
    ultimately show thesis using that s(2) by blast
  next
    case False
    then have res: "bal l a r = Node l a r" and h2: "h2 = ?h1" using b(1) by (auto simp: bal_def)
    have "avl_fix h (Some a) = (if c = [] then Some (rt (bal l a r), h2) else avl_fix h2 (par_of c))"
      using False child_slot_ctx [OF t(3) a_notin(3)] n t1
      by (subst avl_fix.simps) (auto simp: upd cmp res h2)
    moreover have "agree_off (set_tree (Node l a r) \<union> set (ctx_nodes c)) h h2"
      using b(3) by (auto simp: frame_defs)
    ultimately show thesis using that b(2) ctx2 res by auto
  qed
qed

lemma size_eq_length: "size t = length (inorder t)"
  by simp

lemma set_ctx_nodes_par: "set (ctx_nodes c) \<subseteq> S \<Longrightarrow> c = [] \<or> the (par_of c) \<in> S"
  by (cases c rule: par_of.cases) auto

lemma avl_fix_at:
  assumes "focus h c l a r"
  shows "\<exists>h'. avl_fix h (Some a) = Some (rt (fix_ctx c (bal l a r)), h') \<and>
           avl_at h' NULL (fix_ctx c (bal l a r)) \<and>
           agree_off (set_tree (Node l a r) \<union> set (ctx_nodes c)) h h'"
  using assms
proof (induction c arbitrary: h l a r rule: ctx_nodes.induct)
  case 1
  from avl_fix_step [OF 1] show ?case by (metis fix_ctx.simps(1) par_of.simps(1))
next
  case (2 p r' c)
  from avl_fix_step [OF 2(2)] obtain h1 where s:
    "avl_fix h (Some a) = avl_fix h1 (Some p)" "avl_at h1 (Some p) (bal l a r)"
    "ctx_at h1 (rt (bal l a r)) (InLeft p r' # c)"
    "agree_off (set_tree (Node l a r) \<union> set (ctx_nodes (InLeft p r' # c))) h h1" by auto
  have "focus h1 c (bal l a r) p r'"
    using 2(2) s(2,3) by (auto simp: focus_def)
  from 2(1) [OF this] obtain h' where
    "avl_fix h1 (Some p) = Some (rt (fix_ctx c (bal (bal l a r) p r')), h')"
    "avl_at h' NULL (fix_ctx c (bal (bal l a r) p r'))"
    "agree_off (set_tree (Node (bal l a r) p r') \<union> set (ctx_nodes c)) h1 h'" by blast
  with s(1,4) show ?case by (auto simp: frame_defs)
next
  case (3 l' p c)
  from avl_fix_step [OF 3(2)] obtain h1 where s:
    "avl_fix h (Some a) = avl_fix h1 (Some p)" "avl_at h1 (Some p) (bal l a r)"
    "ctx_at h1 (rt (bal l a r)) (InRight l' p # c)"
    "agree_off (set_tree (Node l a r) \<union> set (ctx_nodes (InRight l' p # c))) h h1" by auto
  have "focus h1 c l' p (bal l a r)"
    using 3(2) s(2,3) by (auto simp: focus_def)
  from 3(1) [OF this] obtain h' where
    "avl_fix h1 (Some p) = Some (rt (fix_ctx c (bal l' p (bal l a r))), h')"
    "avl_at h' NULL (fix_ctx c (bal l' p (bal l a r)))"
    "agree_off (set_tree (Node l' p (bal l a r)) \<union> set (ctx_nodes c)) h1 h'" by blast
  with s(1,4) show ?case by (auto simp: frame_defs)
qed

subsection \<open>Order and balance\<close>

fun ctx_inorder :: "frame list \<Rightarrow> addr list \<Rightarrow> addr list" where
  "ctx_inorder [] xs = xs"
| "ctx_inorder (InLeft a r # c) xs = ctx_inorder c (xs @ a # inorder r)"
| "ctx_inorder (InRight l a # c) xs = ctx_inorder c (inorder l @ a # xs)"

lemma inorder_plug: "inorder (plug c t) = ctx_inorder c (inorder t)"
  by (induction c t rule: plug.induct) auto

lemma inorder_fix_ctx: "inorder (fix_ctx c t) = ctx_inorder c (inorder t)"
  by (induction c t rule: fix_ctx.induct) auto

lemma set_ctx_inorder: "set (ctx_inorder c xs) = set (ctx_nodes c) \<union> set xs"
  by (induction c xs rule: ctx_inorder.induct) auto

lemma length_ctx_inorder: "length (ctx_inorder c xs) = length (ctx_nodes c) + length xs"
  by (induction c xs rule: ctx_inorder.induct) auto

lemma distinct_ctx_inorder: "distinct (ctx_inorder c xs) = distinct (ctx_nodes c @ xs)"
  by (induction c xs rule: ctx_inorder.induct) auto

lemma avl_at_plug: "avl_at h NULL (plug c t) \<Longrightarrow> avl_at h (par_of c) t \<and> ctx_at h (rt t) c"
  by (induction c t rule: plug.induct) (auto simp: nd_def)

text \<open>Every node of a tree is at the end of a path.\<close>

lemma plug_append: "plug (c1 @ c2) t = plug c2 (plug c1 t)"
  by (induction c1 arbitrary: t rule: ctx_nodes.induct) auto

lemma find_node:
  assumes "a \<in> set_tree t"
  shows "\<exists>c l r. t = plug c (Node l a r)"
  using assms
proof (induction t)
  case (Node l x r)
  then consider "a = x" | "a \<in> set_tree l" | "a \<in> set_tree r" by auto
  then show ?case
  proof cases
    case 1 then show ?thesis by (intro exI [of _ "[]"]) auto
  next
    case 2
    with Node.IH(1) obtain c l' r' where "l = plug c (Node l' a r')" by blast
    then show ?thesis by (intro exI [of _ "c @ [InLeft x r]"]) (auto simp: plug_append)
  next
    case 3
    with Node.IH(2) obtain c l' r' where "r = plug c (Node l' a r')" by blast
    then show ?thesis by (intro exI [of _ "c @ [InRight l x]"]) (auto simp: plug_append)
  qed
qed simp

lemma avl_plug: "avl (plug c t) \<Longrightarrow> avl t"
proof (induction c t rule: plug.induct)
  case (2 a r c t)
  then have "avl (Node t a r)" by (simp only: plug.simps)
  then show ?case by simp
next
  case (3 l a c t)
  then have "avl (Node l a t)" by (simp only: plug.simps)
  then show ?case by simp
qed simp

text \<open>Rebalancing restores the invariant when one side has grown or shrunk by one.\<close>

lemma bal_left_avl:
  assumes "avl l" "avl r" "height l = height r + 2"
  shows "avl (bal_left l a r) \<and> height (bal_left l a r) \<in> {height l, Suc (height l)}"
proof -
  from assms(3) obtain ll b lr where l: "l = Node ll b lr" by (cases l) auto
  then have h: "max (height ll) (height lr) = Suc (height r)" "avl ll" "avl lr"
    "height ll \<le> height lr + 1" "height lr \<le> height ll + 1"
    using assms by auto
  show ?thesis
  proof (cases "height ll < height lr")
    case False
    then have "height ll = Suc (height r)" using h by linarith
    then show ?thesis using False l h assms(2) by (auto simp: bal_left_def)
  next
    case True
    then obtain x c y where lr: "lr = Node x c y" by (cases lr) auto
    have "height ll = height r" "max (height x) (height y) = height r" "avl x" "avl y"
      "height x \<le> height y + 1" "height y \<le> height x + 1"
      using True h lr by auto
    then show ?thesis using True l h lr assms(2) by (auto simp: bal_left_def)
  qed
qed

lemma bal_right_avl:
  assumes "avl l" "avl r" "height r = height l + 2"
  shows "avl (bal_right l a r) \<and> height (bal_right l a r) \<in> {height r, Suc (height r)}"
proof -
  from assms(3) obtain rl b rr where r: "r = Node rl b rr" by (cases r) auto
  then have h: "max (height rl) (height rr) = Suc (height l)" "avl rl" "avl rr"
    "height rl \<le> height rr + 1" "height rr \<le> height rl + 1"
    using assms by auto
  show ?thesis
  proof (cases "height rr < height rl")
    case False
    then have "height rr = Suc (height l)" using h by linarith
    then show ?thesis using False r h assms(1) by (auto simp: bal_right_def)
  next
    case True
    then obtain x c y where rl: "rl = Node x c y" by (cases rl) auto
    have "height rr = height l" "max (height x) (height y) = height l" "avl x" "avl y"
      "height x \<le> height y + 1" "height y \<le> height x + 1"
      using True h rl by auto
    then show ?thesis using True r h rl assms(1) by (auto simp: bal_right_def)
  qed
qed

lemma bal_avl:
  assumes "avl l" "avl r" "height l \<le> height r + 2" "height r \<le> height l + 2"
  shows "avl (bal l a r)"
    and "height (bal l a r) \<le> Suc (max (height l) (height r))"
    and "max (height l) (height r) \<le> height (bal l a r)"
proof -
  consider "height l = height r + 2" | "height r = height l + 2"
    | "height l \<le> height r + 1" "height r \<le> height l + 1" using assms(3,4) by linarith
  then have "avl (bal l a r) \<and> height (bal l a r) \<le> Suc (max (height l) (height r)) \<and>
      max (height l) (height r) \<le> height (bal l a r)"
  proof cases
    case 1
    then have "bal l a r = bal_left l a r" by (simp add: bal_def)
    then show ?thesis using bal_left_avl [OF assms(1,2) 1, of a] 1 by auto
  next
    case 2
    then have "bal l a r = bal_right l a r" by (simp add: bal_def)
    then show ?thesis using bal_right_avl [OF assms(1,2) 2, of a] 2 by auto
  next
    case 3
    then have "bal l a r = Node l a r" by (simp add: bal_def)
    then show ?thesis using 3 assms(1,2) by auto
  qed
  then show "avl (bal l a r)" "height (bal l a r) \<le> Suc (max (height l) (height r))"
    "max (height l) (height r) \<le> height (bal l a r)" by blast+
qed

lemma bal_id: "avl (Node l a r) \<Longrightarrow> bal l a r = Node l a r"
  by (simp add: bal_def)

text \<open>Two heights that differ by at most one: a subtree after one insertion or deletion.\<close>

definition near :: "nat \<Rightarrow> nat \<Rightarrow> bool" where
  "near m n \<longleftrightarrow> m \<le> Suc n \<and> n \<le> Suc m"

lemma bal_near:
  assumes "avl (Node l a r)" "avl l'" "avl r'"
    and "l' = l \<and> near (height r') (height r) \<or> r' = r \<and> near (height l') (height l)"
  shows "avl (bal l' a r')" "near (height (bal l' a r')) (height (Node l a r))"
proof -
  have h: "height l' \<le> height r' + 2" "height r' \<le> height l' + 2"
    using assms(1,4) by (auto simp: near_def)
  show "avl (bal l' a r')" by (rule bal_avl(1) [OF assms(2,3) h])
  have eq: "bal l' a r' = Node l' a r'" if "height l' \<le> height r' + 1" "height r' \<le> height l' + 1"
    using that by (simp add: bal_def)
  note b = bal_avl(2,3) [OF assms(2,3) h, of a]
  show "near (height (bal l' a r')) (height (Node l a r))"
  proof (cases "height l' \<le> height r' + 1 \<and> height r' \<le> height l' + 1")
    case True
    then show ?thesis using eq assms(1,4) by (auto simp: near_def)
  next
    case False
    then show ?thesis using b assms(1,4) by (auto simp: near_def)
  qed
qed

lemma fix_ctx_avl:
  assumes "avl (plug c t)" "avl t'" "near (height t') (height t)"
  shows "avl (fix_ctx c t')"
  using assms
proof (induction c arbitrary: t t' rule: ctx_nodes.induct)
  case (2 a r c)
  have avl: "avl (Node t a r)" by (rule avl_plug [where c = c]) (use 2(2) in simp)
  show ?case
    using 2(1) [OF _ bal_near(1) [OF avl 2(3)] bal_near(2) [OF avl 2(3)]] 2(2,4) avl by simp
next
  case (3 l a c)
  have avl: "avl (Node l a t)" by (rule avl_plug [where c = c]) (use 3(2) in simp)
  show ?case
    using 3(1) [OF _ bal_near(1) [OF avl _ 3(3)] bal_near(2) [OF avl _ 3(3)]] 3(2,4) avl by simp
qed simp

subsection \<open>Deletion\<close>

text \<open>A path whose stored heights and counts are right for a subtree of height \<open>hh\<close> and
  size \<open>ss\<close>.\<close>

fun ctx_full :: "aheap \<Rightarrow> ptr \<Rightarrow> nat \<Rightarrow> nat \<Rightarrow> frame list \<Rightarrow> bool" where
  "ctx_full h q hh ss [] = True"
| "ctx_full h q hh ss (InLeft a r # c) =
     (h a = Some \<lparr>a_parent = par_of c, a_left = q, a_right = rt r,
        a_height = of_nat (1 + max hh (height r)), a_cnt = of_nat (1 + ss + size r)\<rparr> \<and>
      avl_at h (Some a) r \<and> ctx_full h (Some a) (1 + max hh (height r)) (1 + ss + size r) c)"
| "ctx_full h q hh ss (InRight l a # c) =
     (h a = Some \<lparr>a_parent = par_of c, a_left = rt l, a_right = q,
        a_height = of_nat (1 + max (height l) hh), a_cnt = of_nat (1 + size l + ss)\<rparr> \<and>
      avl_at h (Some a) l \<and> ctx_full h (Some a) (1 + max (height l) hh) (1 + size l + ss) c)"

lemma avl_at_plug_iff:
  "avl_at h NULL (plug c t) \<longleftrightarrow> avl_at h (par_of c) t \<and> ctx_full h (rt t) (height t) (size t) c"
proof (induction c t rule: plug.induct)
  case (2 a r c t)
  then show ?case by (auto simp: nd_def add.commute add.left_commute)
next
  case (3 l a c t)
  then show ?case by (auto simp: nd_def)
qed simp

lemma ctx_full_at: "ctx_full h q hh ss c \<Longrightarrow> ctx_at h q c"
  by (induction h q hh ss c rule: ctx_full.induct) auto

lemma ctx_full_frame:
  "ctx_full h q hh ss c \<Longrightarrow> \<forall>a \<in> set (ctx_nodes c). h' a = h a \<Longrightarrow> ctx_full h' q hh ss c"
proof (induction h q hh ss c rule: ctx_full.induct)
  case (2 h q hh ss a r c)
  then show ?case using avl_at_frame [of h "Some a" r h'] by auto
next
  case (3 h q hh ss l a c)
  then show ?case using avl_at_frame [of h "Some a" l h'] by auto
qed simp

lemma ctx_full_agree:
  "ctx_full h q hh ss c \<Longrightarrow> agree_off S h h' \<Longrightarrow> S \<inter> set (ctx_nodes c) = {} \<Longrightarrow> ctx_full h' q hh ss c"
  by (rule ctx_full_frame) (auto simp: frame_defs)

lemma ctx_full_upd [simp]:
  "a \<notin> set (ctx_nodes c) \<Longrightarrow> ctx_full h q hh ss c \<Longrightarrow> ctx_full (h(a := v)) q hh ss c"
  by (erule ctx_full_frame) auto

lemma slot_set_full:
  assumes "ctx_full h q hh ss c" "distinct (ctx_nodes c)"
  shows "\<exists>h2. slot_set h (from_of c) v t = Some (if c = [] then t else v, h2) \<and> ctx_full h2 t hh ss c \<and>
           agree_off (set (ctx_nodes c)) h h2"
  using assms by (cases c rule: par_of.cases) (auto simp: slot_set_def)

lemma inorder_plug_nodes: "distinct (inorder (plug c t)) = distinct (ctx_nodes c @ inorder t)"
  by (simp add: inorder_plug distinct_ctx_inorder)

lemma size_plug: "size (plug c t) = length (ctx_nodes c) + size t"
  using arg_cong [OF inorder_plug, of length c t] by (simp add: length_ctx_inorder)

lemma set_plug: "set_tree (plug c t) = set (ctx_nodes c) \<union> set_tree t"
  using arg_cong [OF inorder_plug, of set c t] by (simp add: set_ctx_inorder)

lemma set_fix_ctx: "set_tree (fix_ctx c t) = set (ctx_nodes c) \<union> set_tree t"
  using arg_cong [OF inorder_fix_ctx, of set c t] by (simp add: set_ctx_inorder)

lemma reparent_upd: "a \<notin> set_tree t \<Longrightarrow> reparent (h(a := v)) t q = (reparent h t q)(a := v)"
  by (cases t) (auto simp: reparent_def fun_upd_twist)

text \<open>The tree without a node that has at most one child.\<close>

definition only_child :: "addr tree \<Rightarrow> addr tree \<Rightarrow> addr tree" where
  "only_child l r = (if l = Leaf then r else l)"

lemma only_child_simps [simp]: "only_child Leaf r = r" "only_child l Leaf = l"
  by (simp_all add: only_child_def)

lemma rt_eq_None [simp]: "rt t = None \<longleftrightarrow> t = Leaf"
  by (cases t) auto

lemma only_child_at:
  assumes "l = Leaf \<or> r = Leaf"
  shows "inorder (only_child l r) = inorder l @ inorder r"
    "set_tree (only_child l r) = set_tree l \<union> set_tree r"
    "size (only_child l r) = size l + size r"
    "rt (only_child l r) = (if rt l \<noteq> NULL then rt l else rt r)"
  using assms by auto

text \<open>Where \<open>avl_fix\<close> starts after the subtree at a hole has been replaced: at its parent.\<close>

lemma focus_above:
  assumes "ctx_at h (rt t) c" "avl_at h (par_of c) t" "size (plug c t) < 2 ^ 31" "c \<noteq> []"
    "distinct (inorder t @ ctx_nodes c)"
  obtains fl fa fr c' where "par_of c = Some fa" "focus h c' fl fa fr" "fix_ctx c t = fix_ctx c' (bal fl fa fr)"
    "set (ctx_nodes c) \<union> set_tree t = set_tree (Node fl fa fr) \<union> set (ctx_nodes c')"
proof (cases c rule: par_of.cases)
  case 1
  then show thesis using assms(4) by simp
next
  case (2 p r' c')
  show thesis
    by (rule that [of p c' t r']) (use assms 2 in \<open>auto simp: focus_def size_plug\<close>)
next
  case (3 l' p c')
  show thesis
    by (rule that [of p c' l' t]) (use assms 3 in \<open>auto simp: focus_def size_plug\<close>)
qed

lemma avl_del_easy_at:
  assumes t: "avl_at h NULL (plug c (Node l a r))" and d: "distinct (inorder (plug c (Node l a r)))"
    and sz: "size (plug c (Node l a r)) < 2 ^ 31" and e: "l = Leaf \<or> r = Leaf"
  obtains h' where
    "avl_del_easy h (Some a) = Some (rt (fix_ctx c (only_child l r)), h')"
    "avl_at h' NULL (fix_ctx c (only_child l r))"
    "agree_off (set (ctx_nodes c) \<union> set_tree (only_child l r)) h h'"
proof -
  let ?o = "only_child l r"
  note o = only_child_at [OF e]
  have at: "h a = Some (nd (par_of c) l r)" "avl_at h (Some a) l" "avl_at h (Some a) r"
    "ctx_at h (Some a) c"
    using t by (auto simp: avl_at_plug_iff intro: ctx_full_at)
  have dj: "distinct (ctx_nodes c)" "distinct (inorder ?o)" "a \<notin> set (ctx_nodes c)"
    "set_tree ?o \<inter> set (ctx_nodes c) = {}" "a \<notin> set_tree ?o"
    using d o by (auto simp: inorder_plug_nodes)
  have oat: "avl_at h (Some a) ?o" using at(2,3) e by auto
  let ?h1 = "reparent h ?o (par_of c)"
  have run: "avl_del_easy h (Some a) =
      (if c = [] then Some (rt ?o, ?h1)
       else do { from \<leftarrow> child_slot ?h1 (par_of c) (Some a);
                 (_, h) \<leftarrow> slot_set ?h1 from (Some a) (rt ?o); avl_fix h (par_of c) })"
    using at(1) e reparent_assign [OF oat, of "par_of c"] o(4) by (auto simp: avl_del_easy_def Let_def)
  have oat1: "avl_at ?h1 (par_of c) ?o" by (rule avl_at_reparent [OF oat dj(2)])
  have ctx1: "ctx_at ?h1 (Some a) c" using at(4) dj(4) by (simp add: ctx_at_reparent)
  have ag1: "agree_off (set_tree ?o) h ?h1" by (rule agree_off_reparent)
  show thesis
  proof (cases "c = []")
    case True
    with run oat1 ag1 that [of ?h1] show thesis by simp
  next
    case False
    from slot_set_ctx [OF ctx1 dj(1), of "Some a" "rt ?o"] False obtain h2 where
      s: "slot_set ?h1 (from_of c) (Some a) (rt ?o) = Some (Some a, h2)" "ctx_at h2 (rt ?o) c"
        "agree_off (set (ctx_nodes c)) ?h1 h2" by auto
    have run2: "avl_del_easy h (Some a) = avl_fix h2 (par_of c)"
      using run s(1) child_slot_ctx [OF ctx1 dj(3)] False by simp
    have oat2: "avl_at h2 (par_of c) ?o" using avl_at_agree [OF oat1 s(3)] dj(4) by blast
    have fsz: "size (plug c ?o) < 2 ^ 31" and fd: "distinct (inorder ?o @ ctx_nodes c)"
      using sz o dj by (auto simp: size_plug)
    from focus_above [OF s(2) oat2 fsz False fd] obtain fl fa fr c' where
      f: "par_of c = Some fa" "focus h2 c' fl fa fr" "fix_ctx c ?o = fix_ctx c' (bal fl fa fr)"
        "set (ctx_nodes c) \<union> set_tree ?o = set_tree (Node fl fa fr) \<union> set (ctx_nodes c')" .
    from avl_fix_at [OF f(2)] obtain h3 where
      g: "avl_fix h2 (Some fa) = Some (rt (fix_ctx c' (bal fl fa fr)), h3)"
        "avl_at h3 NULL (fix_ctx c' (bal fl fa fr))"
        "agree_off (set_tree (Node fl fa fr) \<union> set (ctx_nodes c')) h2 h3" by blast
    have "agree_off (set (ctx_nodes c) \<union> set_tree ?o) h h3"
      using ag1 s(3) g(3) unfolding f(4) [symmetric] by (auto simp: frame_defs)
    then show thesis using that [of h3] g run2 f by simp
  qed
qed

lemma avl_leftmost_at:
  assumes "avl_at h p t" "t \<noteq> Leaf"
  shows "\<exists>c v r rest. avl_leftmost h (rt t) = Some (Some v) \<and> t = plug c (Node Leaf v r) \<and>
           (\<forall>xs. ctx_inorder c xs = xs @ rest)"
  using assms
proof (induction t arbitrary: p)
  case (Node l a r)
  show ?case
  proof (cases "l = Leaf")
    case True
    then have "avl_leftmost h (Some a) = Some (Some a)"
      using Node.prems by (subst avl_leftmost.simps) simp
    then show ?thesis using True
      by (intro exI [of _ "[]"] exI [of _ a] exI [of _ r] exI [of _ "[]"]) simp
  next
    case False
    with Node.IH(1) [of "Some a"] Node.prems obtain c v r' rest where
      v: "avl_leftmost h (rt l) = Some (Some v)" "l = plug c (Node Leaf v r')"
        "\<forall>xs. ctx_inorder c xs = xs @ rest" by auto
    have "avl_leftmost h (Some a) = Some (Some v)"
      using Node.prems False v(1) by (subst avl_leftmost.simps) simp
    moreover have "ctx_inorder (c @ [InLeft a r]) xs = xs @ rest @ a # inorder r" for xs
    proof -
      have "ctx_inorder (c @ [InLeft a r]) xs = ctx_inorder [InLeft a r] (ctx_inorder c xs)"
        by (induction c xs rule: ctx_inorder.induct) auto
      with v(3) show ?thesis by simp
    qed
    ultimately show ?thesis using v(2)
      by (intro exI [of _ "c @ [InLeft a r]"] exI [of _ v] exI [of _ r'] exI [of _ "rest @ a # inorder r"])
        (simp add: plug_append)
  qed
qed simp

lemma rt_plug_cong: "c \<noteq> [] \<Longrightarrow> rt (plug c t) = rt (plug c t')"
proof (induction c arbitrary: t t' rule: ctx_nodes.induct)
  case (2 a r c) then show ?case by (cases "c = []") auto
next
  case (3 l a c) then show ?case by (cases "c = []") auto
qed simp

lemma avl_plug_cong:
  "avl (plug c t) \<Longrightarrow> height t' = height t \<Longrightarrow> avl t' \<Longrightarrow> avl (plug c t')"
proof (induction c arbitrary: t t' rule: ctx_nodes.induct)
  case (2 a r c)
  have "avl (Node t a r)" by (rule avl_plug [where c = c]) (use 2(2) in simp)
  then show ?case using 2(1) [of "Node t a r" "Node t' a r"] 2(2-) by simp
next
  case (3 l a c)
  have "avl (Node l a t)" by (rule avl_plug [where c = c]) (use 3(2) in simp)
  then show ?case using 3(1) [of "Node l a t" "Node l a t'"] 3(2-) by simp
qed simp

text \<open>The last part of \<^verbatim>\<open>avl_del\<close>: the victim takes the place of the node.\<close>

definition avl_take_place :: "aheap \<Rightarrow> ptr \<Rightarrow> ptr \<Rightarrow> ptr \<Rightarrow> (ptr \<times> aheap) option" where
  "avl_take_place h root node victim = do {
     n \<leftarrow> deref h node;
     h \<leftarrow> assign h victim (\<lambda>_. n);
     v \<leftarrow> deref h victim;
     h \<leftarrow> (if a_left v \<noteq> NULL then assign h (a_left v) (a_parent_update (\<lambda>_. victim)) else Some h);
     v \<leftarrow> deref h victim;
     h \<leftarrow> (if a_right v \<noteq> NULL then assign h (a_right v) (a_parent_update (\<lambda>_. victim)) else Some h);
     n \<leftarrow> deref h node;
     from \<leftarrow> (if a_parent n \<noteq> NULL then child_slot h (a_parent n) node else Some Local);
     slot_set h from root victim
   }"

lemma avl_take_place_at:
  assumes t: "avl_at h NULL (plug c (Node l a r))" and d: "distinct (inorder (plug c (Node l a r)))"
    and v: "h v = Some n" "v \<notin> set_tree (plug c (Node l a r))"
  obtains h' where
    "avl_take_place h (rt (plug c (Node l a r))) (Some a) (Some v) = Some (rt (plug c (Node l v r)), h')"
    "avl_at h' NULL (plug c (Node l v r))"
    "agree_off (insert v (set_tree (plug c (Node l a r)))) h h'" "h' a = h a"
proof -
  have at: "h a = Some (nd (par_of c) l r)" "avl_at h (Some a) l" "avl_at h (Some a) r"
    "ctx_full h (Some a) (height (Node l a r)) (size (Node l a r)) c"
    using t by (auto simp: avl_at_plug_iff)
  have dj: "distinct (ctx_nodes c)" "distinct (inorder l)" "distinct (inorder r)"
    "set_tree l \<inter> set_tree r = {}" "set_tree l \<inter> set (ctx_nodes c) = {}"
    "set_tree r \<inter> set (ctx_nodes c) = {}" "a \<notin> set (ctx_nodes c)" "a \<notin> set_tree l" "a \<notin> set_tree r"
    and vn: "v \<notin> set (ctx_nodes c)" "v \<notin> set_tree l" "v \<notin> set_tree r" "v \<noteq> a"
    using d v(2) by (auto simp: inorder_plug_nodes set_plug)
  let ?h1 = "h(v \<mapsto> nd (par_of c) l r)"
  let ?h2 = "reparent ?h1 l (Some v)"
  let ?h3 = "reparent ?h2 r (Some v)"
  have l1: "avl_at ?h1 (Some a) l" and r2: "avl_at ?h2 (Some a) r"
    using at vn dj by (simp_all add: avl_at_reparent_other)
  have lr3: "avl_at ?h3 (Some v) l" "avl_at ?h3 (Some v) r"
    using avl_at_reparent [OF l1 dj(2)] avl_at_reparent [OF r2 dj(3)] dj(4)
    by (simp_all add: avl_at_reparent_other Int_commute)
  have h23: "?h2 v = Some (nd (par_of c) l r)" "?h3 v = Some (nd (par_of c) l r)"
    "?h3 a = Some (nd (par_of c) l r)"
    using vn dj at(1) by (simp_all add: reparent_other)
  have ctx3: "ctx_full ?h3 (Some a) (height (Node l a r)) (size (Node l a r)) c"
  proof (rule ctx_full_frame [OF at(4)], rule ballI)
    fix x assume "x \<in> set (ctx_nodes c)"
    then have "x \<notin> set_tree l" "x \<notin> set_tree r" "x \<noteq> v" using dj vn by auto
    then show "?h3 x = h x" by (simp add: reparent_other)
  qed
  from slot_set_full [OF ctx3 dj(1), of "rt (plug c (Node l a r))" "Some v"] obtain h4 where
    s: "slot_set ?h3 (from_of c) (rt (plug c (Node l a r))) (Some v) =
          Some (if c = [] then Some v else rt (plug c (Node l a r)), h4)"
      "ctx_full h4 (Some v) (height (Node l a r)) (size (Node l a r)) c"
      "agree_off (set (ctx_nodes c)) ?h3 h4" by blast
  have res: "(if c = [] then Some v else rt (plug c (Node l a r))) = rt (plug c (Node l v r))"
    by (simp add: rt_plug_cong [of c "Node l a r" "Node l v r"])
  have "avl_take_place h (rt (plug c (Node l a r))) (Some a) (Some v) = Some (rt (plug c (Node l v r)), h4)"
    using reparent_assign [OF l1, of "Some v"] reparent_assign [OF r2, of "Some v"] at(1) v(1) h23
      child_slot_ctx [OF ctx_full_at [OF ctx3] dj(7)] s(1) res vn(4)
    by (simp add: avl_take_place_def del: not_None_eq split del: if_split cong: if_cong)
  moreover have "avl_at h4 NULL (plug c (Node l v r))"
  proof -
    have "h4 v = ?h3 v" using agree_offD [OF s(3)] vn(1) by blast
    then have "avl_at h4 (par_of c) (Node l v r)"
      using avl_at_agree [OF lr3(1) s(3)] avl_at_agree [OF lr3(2) s(3)] dj h23(2) by (auto simp: Int_commute)
    with s(2) show ?thesis by (simp add: avl_at_plug_iff)
  qed
  moreover have "agree_off (insert v (set_tree (plug c (Node l a r)))) h h4"
    using s(3) by (auto simp: frame_defs reparent_other set_plug)
  moreover have "h4 a = h a" using agree_offD [OF s(3) dj(7)] h23(3) at(1) by simp
  ultimately show thesis using that by blast
qed

text \<open>The whole deletion.  The resulting tree is the rebalanced one; only its inorder
  sequence and its invariant are needed by the callers.\<close>

definition avl_tree :: "aheap \<Rightarrow> ptr \<Rightarrow> addr tree \<Rightarrow> bool" where
  "avl_tree h root t \<longleftrightarrow> root = rt t \<and> avl_at h NULL t \<and> avl t \<and> distinct (inorder t) \<and> size t < 2 ^ 31"

lemma avl_treeD:
  assumes "avl_tree h root t"
  shows "root = rt t" "avl_at h NULL t" "avl t" "distinct (inorder t)" "size t < 2 ^ 31"
  using assms by (simp_all add: avl_tree_def)

lemma avl_only_child:
  assumes "avl (plug c (Node l a r))" "l = Leaf \<or> r = Leaf"
  shows "avl (fix_ctx c (only_child l r))"
proof -
  have "avl (Node l a r)" by (rule avl_plug [OF assms(1)])
  then have "avl (only_child l r)" "near (height (only_child l r)) (height (Node l a r))"
    using assms(2) by (auto simp: near_def)
  then show ?thesis by (rule fix_ctx_avl [OF assms(1)])
qed

lemma avl_del_easy_tree:
  assumes t: "avl_tree h root t" and n: "t = plug c (Node l a r)" and e: "l = Leaf \<or> r = Leaf"
  obtains root' h' t' where
    "avl_del_easy h (Some a) = Some (root', h')" "avl_tree h' root' t'"
    "inorder t' = ctx_inorder c (inorder l @ inorder r)"
    "agree_off (set_tree t - {a}) h h'"
proof -
  note T = avl_treeD [OF t, unfolded n]
  from avl_del_easy_at [OF T(2,4,5) e] obtain h' where
    r: "avl_del_easy h (Some a) = Some (rt (fix_ctx c (only_child l r)), h')"
      "avl_at h' NULL (fix_ctx c (only_child l r))"
      "agree_off (set (ctx_nodes c) \<union> set_tree (only_child l r)) h h'" .
  note o = only_child_at [OF e]
  have i: "inorder (fix_ctx c (only_child l r)) = ctx_inorder c (inorder l @ inorder r)"
    by (simp add: inorder_fix_ctx o(1))
  have d: "distinct (inorder (fix_ctx c (only_child l r)))"
    using T(4) by (auto simp: i inorder_plug_nodes distinct_ctx_inorder)
  have "size (fix_ctx c (only_child l r)) = length (ctx_nodes c) + (size l + size r)"
    using arg_cong [OF i, of length] by (simp add: length_ctx_inorder)
  then have sz: "size (fix_ctx c (only_child l r)) < 2 ^ 31"
    using T(5) by (simp add: size_plug)
  have ag: "agree_off (set_tree t - {a}) h h'"
    using T(4) by (intro agree_off_mono [OF r(3)]) (auto simp: n set_plug inorder_plug_nodes o(2))
  have "avl_tree h' (rt (fix_ctx c (only_child l r))) (fix_ctx c (only_child l r))"
    unfolding avl_tree_def using r(2) avl_only_child [OF T(3) e] d sz by blast
  then show thesis by (rule that [OF r(1) _ i ag])
qed

lemma remove1_ctx_inorder:
  "distinct (ctx_inorder c xs) \<Longrightarrow> a \<in> set xs \<Longrightarrow> remove1 a (ctx_inorder c xs) = ctx_inorder c (remove1 a xs)"
  by (induction c xs rule: ctx_inorder.induct)
    (auto simp: remove1_append distinct_ctx_inorder)

lemma map_subst_id [simp]: "a \<notin> set xs \<Longrightarrow> map (\<lambda>x. if x = a then v else x) xs = xs"
  by (rule map_idI) auto

lemma ctx_inorder_map:
  "a \<notin> set (ctx_nodes c) \<Longrightarrow> map (\<lambda>x. if x = a then v else x) (ctx_inorder c xs) =
     ctx_inorder c (map (\<lambda>x. if x = a then v else x) xs)"
  by (induction c xs rule: ctx_inorder.induct) auto

lemma avl_del_unfold:
  "avl_del h node = do {
     n \<leftarrow> deref h node;
     if a_left n = NULL \<or> a_right n = NULL then avl_del_easy h node
     else do {
       victim \<leftarrow> avl_leftmost h (a_right n);
       (root, h) \<leftarrow> avl_del_easy h victim;
       avl_take_place h root node victim
     }
   }"
  unfolding avl_del_def avl_take_place_def by (rule refl)

text \<open>The node \<open>a\<close> below \<open>c\<close> has two children: after its successor \<open>v\<close> has been unlinked, \<open>v\<close> takes its
  place.\<close>

lemma avl_take_place_tree:
  assumes t1: "avl_tree h root t1" and a: "a \<in> set_tree t1" and v: "h v = Some w" "v \<notin> set_tree t1"
  obtains h2 root2 t2 where "avl_take_place h root (Some a) (Some v) = Some (root2, h2)" "avl_tree h2 root2 t2"
    "inorder t2 = map (\<lambda>x. if x = a then v else x) (inorder t1)" "agree_off (insert v (set_tree t1)) h h2" "h2 a = h a"
proof -
  note T1 = avl_treeD [OF t1]
  from find_node [OF a] obtain c1 l1 r1 where n1: "t1 = plug c1 (Node l1 a r1)" by blast
  from avl_take_place_at [OF T1(2,4) [unfolded n1] v(1) v(2) [unfolded n1]] obtain h2 where
    p: "avl_take_place h (rt (plug c1 (Node l1 a r1))) (Some a) (Some v) =
          Some (rt (plug c1 (Node l1 v r1)), h2)"
      "avl_at h2 NULL (plug c1 (Node l1 v r1))"
      "agree_off (insert v (set_tree t1)) h h2" "h2 a = h a" unfolding n1 .
  let ?t2 = "plug c1 (Node l1 v r1)"
  have "a \<notin> set (ctx_nodes c1)" "a \<notin> set_tree l1" "a \<notin> set_tree r1"
    using T1(4) by (auto simp: n1 inorder_plug_nodes)
  then have i: "inorder ?t2 = map (\<lambda>x. if x = a then v else x) (inorder t1)"
    by (simp add: n1 inorder_plug ctx_inorder_map)
  have "avl ?t2"
    by (rule avl_plug_cong [of _ "Node l1 a r1"]) (use T1(3) avl_plug [of c1 "Node l1 a r1"] n1 in auto)
  moreover have "distinct (inorder ?t2)"
    unfolding i using T1(4) v(2) by (auto simp: distinct_map inj_on_def)
  moreover have "size ?t2 < 2 ^ 31" using T1(5) by (simp add: n1 size_plug)
  ultimately have "avl_tree h2 (rt ?t2) ?t2" using p(2) by (simp add: avl_tree_def)
  then show thesis using that p(1,3,4) i T1(1) n1 by blast
qed

lemma ctx_inorder_append: "ctx_inorder (c @ d) xs = ctx_inorder d (ctx_inorder c xs)"
  by (induction c xs rule: ctx_inorder.induct) auto

lemma avl_del_two_children:
  assumes t: "avl_tree h root t" and n: "t = plug c (Node l a r)" and lr: "l \<noteq> Leaf" "r \<noteq> Leaf"
  obtains root' h' t' where
    "avl_del h (Some a) = Some (root', h')" "avl_tree h' root' t'"
    "inorder t' = ctx_inorder c (inorder l @ inorder r)" "agree_off (set_tree t) h h'" "h' a \<noteq> None"
proof -
  note T = avl_treeD [OF t]
  have at: "h a = Some (nd (par_of c) l r)" "avl_at h (Some a) r"
    using T(2) by (auto simp: n avl_at_plug_iff)
  from avl_leftmost_at [OF at(2) lr(2)] obtain c2 v r2 rest where
    v: "avl_leftmost h (rt r) = Some (Some v)" "r = plug c2 (Node Leaf v r2)"
      "\<forall>xs. ctx_inorder c2 xs = xs @ rest" by blast
  have n2: "t = plug (c2 @ InRight l a # c) (Node Leaf v r2)" by (simp add: n v(2) plug_append)
  from avl_del_easy_tree [OF t n2] obtain root1 h1 t1 where
    e: "avl_del_easy h (Some v) = Some (root1, h1)" "avl_tree h1 root1 t1"
      "inorder t1 = ctx_inorder c (inorder l @ a # inorder r2 @ rest)"
      "agree_off (set_tree t - {v}) h h1" by (auto simp: ctx_inorder_append v(3))
  have r: "inorder r = v # inorder r2 @ rest" by (simp add: v(2) inorder_plug v(3))
  have sets: "set_tree t1 = set (ctx_nodes c) \<union> set_tree l \<union> insert a (set_tree r2 \<union> set rest)"
      "set_tree t = insert v (set_tree t1)"
    using arg_cong [OF e(3), of set] r
    by (auto simp: n set_ctx_inorder inorder_plug simp flip: set_inorder)
  have out: "v \<notin> set_tree t1" "a \<notin> set_tree l" "a \<notin> set_tree r2" "a \<notin> set rest" "a \<notin> set (ctx_nodes c)"
    using T(4) r unfolding sets(1) by (auto simp: n inorder_plug_nodes simp flip: set_inorder)
  have "v \<in> set_tree t \<and> avl_at h NULL t" using sets(2) T(2) by simp
  then obtain w where w: "h v = Some w" by (auto simp: n2 avl_at_plug_iff)
  then have w1: "h1 v = Some w" using agree_offD [OF e(4), of v] by simp
  have a1: "a \<in> set_tree t1" by (simp add: sets(1))
  from avl_take_place_tree [OF e(2) a1 w1 out(1)] obtain h2 root2 t2 where
    p: "avl_take_place h1 root1 (Some a) (Some v) = Some (root2, h2)" "avl_tree h2 root2 t2"
      "inorder t2 = map (\<lambda>x. if x = a then v else x) (inorder t1)" "agree_off (insert v (set_tree t1)) h1 h2" "h2 a = h1 a" .
  have "avl_del h (Some a) = Some (root2, h2)"
    using at(1) lr v(1) e(1) p(1) by (simp add: avl_del_unfold)
  moreover have "inorder t2 = ctx_inorder c (inorder l @ inorder r)"
    unfolding p(3) e(3) using out r by (simp add: ctx_inorder_map)
  moreover have "agree_off (set_tree t) h h2" using e(4) p(4) sets(2) by (auto simp: frame_defs)
  moreover have "h2 a \<noteq> None"
    using avl_treeD(2) [OF e(2)] a1 p(5) find_node [OF a1] by (auto simp: avl_at_plug_iff)
  ultimately show thesis using that p(2) by blast
qed

lemma avl_del_tree:
  assumes t: "avl_tree h root t" and a: "a \<in> set_tree t"
  obtains root' h' t' where
    "avl_del h (Some a) = Some (root', h')" "avl_tree h' root' t'"
    "inorder t' = remove1 a (inorder t)" "agree_off (set_tree t) h h'" "h' a \<noteq> None"
proof -
  note T = avl_treeD [OF t]
  from find_node [OF a] obtain c l r where n: "t = plug c (Node l a r)" by blast
  have at: "h a = Some (nd (par_of c) l r)" using T(2) by (auto simp: n avl_at_plug_iff)
  have "a \<notin> set_tree l" "a \<notin> set_tree r" "a \<notin> set (ctx_nodes c)"
    using T(4) by (auto simp: n inorder_plug_nodes)
  then have rm: "remove1 a (inorder t) = ctx_inorder c (inorder l @ inorder r)"
    using T(4) by (simp add: n inorder_plug remove1_ctx_inorder remove1_append)
  show thesis
  proof (cases "l = Leaf \<or> r = Leaf")
    case True
    from avl_del_easy_tree [OF t n True] obtain root' h' t' where
      e: "avl_del_easy h (Some a) = Some (root', h')" "avl_tree h' root' t'"
        "inorder t' = ctx_inorder c (inorder l @ inorder r)" "agree_off (set_tree t - {a}) h h'" .
    have "avl_del h (Some a) = avl_del_easy h (Some a)" using True at by (auto simp: avl_del_unfold)
    moreover have "h' a \<noteq> None" using agree_offD [OF e(4), of a] at by simp
    moreover have "agree_off (set_tree t) h h'" by (rule agree_off_mono [OF e(4)]) blast
    ultimately show thesis using that e rm by simp
  next
    case False
    then have "l \<noteq> Leaf" "r \<noteq> Leaf" by simp_all
    from avl_del_two_children [OF t n this] show thesis using that unfolding rm by blast
  qed
qed

subsection \<open>Insertion of a leaf\<close>

text \<open>A new node hung below an empty child pointer of a balanced tree.\<close>

lemma avl_fix_leaf_tree:
  assumes t: "avl_tree h root (plug c Leaf)" and a: "a \<notin> set_tree (plug c Leaf)"
    and sz: "size (plug c Leaf) + 1 < 2 ^ 31"
    and n: "h1 a = Some \<lparr>a_parent = par_of c, a_left = NULL, a_right = NULL, a_height = ht, a_cnt = ct\<rparr>"
    and c: "ctx_at h1 (Some a) c"
  obtains root' h' t' where
    "avl_fix h1 (Some a) = Some (root', h')" "avl_tree h' root' t'"
    "inorder t' = ctx_inorder c [a]" "agree_off (insert a (set_tree (plug c Leaf))) h1 h'"
proof -
  note T = avl_treeD [OF t]
  have f: "focus h1 c Leaf a Leaf"
    using n c T(4) a sz by (auto simp: focus_def inorder_plug_nodes set_plug size_plug)
  from avl_fix_at [OF f] obtain h' where
    r: "avl_fix h1 (Some a) = Some (rt (fix_ctx c (Node Leaf a Leaf)), h')"
      "avl_at h' NULL (fix_ctx c (Node Leaf a Leaf))"
      "agree_off (set_tree (Node Leaf a Leaf) \<union> set (ctx_nodes c)) h1 h'"
    by (auto simp: bal_def)
  let ?t = "fix_ctx c (Node Leaf a Leaf)"
  have i: "inorder ?t = ctx_inorder c [a]" by (simp add: inorder_fix_ctx)
  have "distinct (inorder ?t)" using T(4) a
    by (auto simp: i inorder_plug_nodes distinct_ctx_inorder set_plug)
  moreover have "size ?t < 2 ^ 31"
    using arg_cong [OF i, of length] sz by (simp add: length_ctx_inorder size_plug)
  moreover have "avl ?t" by (rule fix_ctx_avl [OF T(3)]) (simp_all add: near_def)
  ultimately have "avl_tree h' (rt ?t) ?t" using r(2) by (simp add: avl_tree_def)
  moreover have "agree_off (insert a (set_tree (plug c Leaf))) h1 h'"
    using r(3) by (simp add: set_plug)
  ultimately show thesis using that r(1) i by blast
qed

subsection \<open>Stepping by rank\<close>

fun ctx_pre :: "frame list \<Rightarrow> addr list" where
  "ctx_pre [] = []"
| "ctx_pre (InLeft a r # c) = ctx_pre c"
| "ctx_pre (InRight l a # c) = ctx_pre c @ inorder l @ [a]"

fun ctx_post :: "frame list \<Rightarrow> addr list" where
  "ctx_post [] = []"
| "ctx_post (InLeft a r # c) = a # inorder r @ ctx_post c"
| "ctx_post (InRight l a # c) = ctx_post c"

lemma ctx_inorder_split: "ctx_inorder c xs = ctx_pre c @ xs @ ctx_post c"
  by (induction c xs rule: ctx_inorder.induct) auto

text \<open>The element at a possibly out-of-range index.\<close>

definition nth_ptr :: "addr list \<Rightarrow> int \<Rightarrow> ptr" where
  "nth_ptr xs i = (if 0 \<le> i \<and> i < int (length xs) then Some (xs ! nat i) else NULL)"

lemma nth_ptr_append:
  "nth_ptr (xs @ ys @ zs) i =
     (if int (length xs) \<le> i \<and> i < int (length xs + length ys) then Some (ys ! nat (i - int (length xs)))
      else nth_ptr (xs @ ys @ zs) i)"
  by (auto simp: nth_ptr_def nth_append nat_diff_distrib')

lemma uint_of_nat_u32: "n < 2 ^ 32 \<Longrightarrow> uint (of_nat n :: u32) = int n"
  using unat_of_nat_u32 [of n] by (metis uint_nat)

lemma uint_cnt [simp]: "size (t :: addr tree) < 2 ^ 31 \<Longrightarrow> uint (of_nat (size t) :: u32) = int (size t)"
  by (rule uint_of_nat_u32) simp

lemma uint_cnt_Suc [simp]:
  "size (t :: addr tree) < 2 ^ 31 \<Longrightarrow> uint (of_nat (size t) + 1 :: u32) = int (size t) + 1"
  using uint_of_nat_u32 [of "size t + 1"] by (simp add: add.commute)

lemma i64_chk_small [simp]: "\<bar>x\<bar> < 2 ^ 60 \<Longrightarrow> i64_chk x = Some x"
  by (rule i64_chk_in) (auto simp: i64_ok_def)

lemma uint_u32_less: "uint (w :: u32) < 2 ^ 32"
  using unsigned_less [where ?'a = int, of w] by simp

lemma i64_chk_u32:
  assumes "\<bar>p\<bar> < 2 ^ 50"
  shows "i64_chk (p + uint (w :: u32)) = Some (p + uint w)" "i64_chk (p - uint w) = Some (p - uint w)"
proof -
  obtain u where u: "u = uint w" "0 \<le> u" "u < 2 ^ 32" using uint_u32_less [of w] by simp
  then have "i64_ok (p + uint w)" "i64_ok (p - uint w)"
    using assms unfolding i64_ok_def u(1) [symmetric] by (simp; presburger)+
  then show "i64_chk (p + uint w) = Some (p + uint w)" "i64_chk (p - uint w) = Some (p - uint w)"
    by simp_all
qed

text \<open>One round of the loop, with the counts of the two subtrees.\<close>

lemma avl_offset_loop_step:
  assumes n: "h x = Some n" and c: "avl_cnt h (a_left n) = Some cl" "avl_cnt h (a_right n) = Some cr"
    and p: "\<bar>p\<bar> < 2 ^ 50"
  shows "avl_offset_loop h (Some x) off p =
    (if off = p then Some (Some x)
     else if p < off \<and> off \<le> p + uint cr then do {
       m \<leftarrow> deref h (a_right n); c \<leftarrow> avl_cnt h (a_left m);
       pos \<leftarrow> i64_chk (p + uint (c + 1)); avl_offset_loop h (a_right n) off pos }
     else if off < p \<and> p - uint cl \<le> off then do {
       m \<leftarrow> deref h (a_left n); c \<leftarrow> avl_cnt h (a_right m);
       pos \<leftarrow> i64_chk (p - uint (c + 1)); avl_offset_loop h (a_left n) off pos }
     else if a_parent n = NULL then Some NULL
     else do {
       q \<leftarrow> deref h (a_parent n);
       pos \<leftarrow> (if a_right q = Some x then Some (p - uint (cl + 1)) else Some (p + uint (cr + 1)));
       avl_offset_loop h (a_parent n) off pos })"
proof -
  note chk = i64_chk_u32 [OF p]
  consider "off = p" | "p < off" "off \<le> p + uint cr" | "p < off" "\<not> off \<le> p + uint cr"
    | "off < p" "p - uint cl \<le> off" | "off < p" "\<not> p - uint cl \<le> off" by linarith
  then show ?thesis
    by cases (subst avl_offset_loop.simps, simp add: n c chk cong: if_cong)+
qed

text \<open>Downwards, when the target is in the subtree.\<close>

text \<open>Where the wanted element is in the subtree the loop turns to.\<close>

lemma nth_right_subtree:
  assumes "(p :: int) < off"
  shows "inorder r ! nat (int (size rl) + off - (p + (int (size rl) + 1))) =
    inorder (Node l x r) ! nat (int (size l) + off - p)"
proof -
  from assms obtain j where "off = p + 1 + int j" using zless_iff_Suc_zadd by auto
  then have "nat (int (size rl) + off - (p + (int (size rl) + 1))) = j" "nat (int (size l) + off - p) = Suc (size l + j)"
    by auto
  then show ?thesis by (simp add: nth_append)
qed

lemma nth_left_subtree:
  assumes "off < (p :: int)" "- int (size (Node ll y lr)) \<le> off - p"
  shows "inorder (Node ll y lr) ! nat (int (size ll) + off - (p - (int (size lr) + 1))) =
    inorder (Node (Node ll y lr) x r) ! nat (int (size (Node ll y lr)) + off - p)"
proof -
  let ?l = "Node ll y lr"
  have e: "int (size ll) + off - (p - (int (size lr) + 1)) = int (size ?l) + off - p" by simp
  have "nat (int (size ?l) + off - p) < size ?l" using assms by auto
  then show ?thesis unfolding e by (simp only: inorder.simps(2) [of ?l] nth_append length_inorder if_True)
qed

lemma avl_offset_down:
  assumes "avl_at h q (Node l x r)" "size (Node l x r) < 2 ^ 31" "\<bar>off\<bar> < 2 ^ 40"
    and "- int (size l) \<le> off - p" "off - p \<le> int (size r)"
  shows "avl_offset_loop h (Some x) off p =
           Some (Some (inorder (Node l x r) ! nat (int (size l) + off - p)))"
  using assms
proof (induction "Node l x r" arbitrary: q l x r p rule: measure_induct_rule [of size])
  case (less l x r)
  have n: "h x = Some (nd q l r)" "avl_at h (Some x) l" "avl_at h (Some x) r"
    and sz: "size l < 2 ^ 31" "size r < 2 ^ 31"
    using less.prems by simp_all
  have c: "avl_cnt h (a_left (nd q l r)) = Some (of_nat (size l))"
    "avl_cnt h (a_right (nd q l r)) = Some (of_nat (size r))"
    using n by simp_all
  have p: "\<bar>p\<bar> < 2 ^ 50" using less.prems(3-5) sz by simp
  note step = avl_offset_loop_step [OF n(1) c p, of off, unfolded uint_cnt [OF sz(1)] uint_cnt [OF sz(2)]]
  consider "off = p" | "p < off" | "off < p" by linarith
  then show ?case
  proof cases
    case 1
    then show ?thesis using step by (simp add: nth_append)
  next
    case 2
    with less.prems(5) obtain rl y rr where r: "r = Node rl y rr" by (cases r) auto
    let ?p = "p + (int (size rl) + 1)"
    have y: "h y = Some (nd (Some x) rl rr)" "avl_cnt h (rt rl) = Some (of_nat (size rl))" "size rl < 2 ^ 31"
      using n(3) sz(2) r by auto
    have "i64_chk ?p = Some ?p" using p y(3) by (intro i64_chk_small) simp
    then have "avl_offset_loop h (Some x) off p = avl_offset_loop h (Some y) off ?p"
      using 2 less.prems(5) y by (simp add: step r)
    also have "\<dots> = Some (Some (inorder (Node rl y rr) ! nat (int (size rl) + off - ?p)))"
      by (rule less.hyps [where q = "Some x"]) (use 2 r less.prems n sz in auto)
    also have "inorder (Node rl y rr) ! nat (int (size rl) + off - ?p) =
        inorder (Node l x r) ! nat (int (size l) + off - p)"
      unfolding r by (rule nth_right_subtree [OF 2])
    finally show ?thesis .
  next
    case 3
    with less.prems(4) obtain ll y lr where l: "l = Node ll y lr" by (cases l) auto
    let ?p = "p - (int (size lr) + 1)"
    have y: "h y = Some (nd (Some x) ll lr)" "avl_cnt h (rt lr) = Some (of_nat (size lr))" "size lr < 2 ^ 31"
      using n(2) sz(1) l by auto
    have "i64_chk ?p = Some ?p" using p y(3) by (intro i64_chk_small) simp
    then have "avl_offset_loop h (Some x) off p = avl_offset_loop h (Some y) off ?p"
      using 3 less.prems(4) y by (simp add: step l)
    also have "\<dots> = Some (Some (inorder (Node ll y lr) ! nat (int (size ll) + off - ?p)))"
      by (rule less.hyps [where q = "Some x"]) (use 3 l less.prems n sz in auto)
    also have "inorder (Node ll y lr) ! nat (int (size ll) + off - ?p) =
        inorder (Node l x r) ! nat (int (size l) + off - p)"
      unfolding l by (rule nth_left_subtree) (use 3 less.prems(4) l in simp_all)
    finally show ?thesis .
  qed
qed

text \<open>Upwards, until the target is in the subtree or the root is reached.  \<open>k\<close> is the
  rank of the start node, so that \<open>k + p\<close> is the rank of the current one.\<close>

lemma nth_ptr_mid:
  assumes "int (length xs) \<le> i" "i < int (length xs + length ys)"
  shows "nth_ptr (xs @ ys @ zs) i = Some (ys ! nat (i - int (length xs)))"
proof -
  from assms(1) obtain j where "i = int (length xs) + int j" using zle_iff_zadd by auto
  then show ?thesis using assms(2) by (auto simp: nth_ptr_def nth_append nat_add_distrib)
qed

lemma nth_ptr_out: "i < 0 \<or> int (length xs) \<le> i \<Longrightarrow> nth_ptr xs i = NULL"
  by (auto simp: nth_ptr_def)

lemma avl_offset_here:
  assumes "avl_at h q (Node l x r)" "length pre + size (Node l x r) < 2 ^ 31"
    and "int (length pre + size l) = k + p" "0 \<le> k" "k < 2 ^ 31"
    and r: "- int (size l) \<le> off - p \<and> off - p \<le> int (size r)"
  shows "avl_offset_loop h (Some x) off p = Some (nth_ptr (pre @ inorder (Node l x r) @ post) (k + off))"
proof -
  have off: "\<bar>off\<bar> < 2 ^ 40" using assms(2-) by (simp; presburger)
  have "avl_offset_loop h (Some x) off p =
      Some (Some (inorder (Node l x r) ! nat (int (size l) + off - p)))"
    by (rule avl_offset_down [OF assms(1) _ off]) (use assms(2) r in auto)
  also have "Some (inorder (Node l x r) ! nat (int (size l) + off - p)) =
      Some (inorder (Node l x r) ! nat (k + off - int (length pre)))"
  proof -
    have "int (size l) + off - p = k + off - int (length pre)" using assms(3) by simp
    then show ?thesis by (simp only:)
  qed
  also have "\<dots> = nth_ptr (pre @ inorder (Node l x r) @ post) (k + off)"
    by (rule nth_ptr_mid [symmetric]) (use assms(3) r in auto)
  finally show ?thesis .
qed

lemma avl_offset_up_root:
  assumes "avl_at h NULL (Node l x r)" "size (Node l x r) < 2 ^ 31" "int (size l) = k + p" "0 \<le> k" "k < 2 ^ 31"
  shows "avl_offset_loop h (Some x) off p = Some (nth_ptr (inorder (Node l x r)) (k + off))"
proof (cases "- int (size l) \<le> off - p \<and> off - p \<le> int (size r)")
  case True
  then show ?thesis using avl_offset_here [OF assms(1), of "[]" k p off "[]"] assms(2-) by simp
next
  case False
  have n: "h x = Some (nd NULL l r)" "avl_at h (Some x) l" "avl_at h (Some x) r"
    and sz: "size l < 2 ^ 31" "size r < 2 ^ 31" using assms by simp_all
  have c: "avl_cnt h (a_left (nd NULL l r)) = Some (of_nat (size l))"
    "avl_cnt h (a_right (nd NULL l r)) = Some (of_nat (size r))" using n(2,3) by simp_all
  have p: "\<bar>p\<bar> < 2 ^ 50" using assms(3-) sz by (simp; presburger)
  have "avl_offset_loop h (Some x) off p = Some NULL"
    by (subst avl_offset_loop_step [OF n(1) c p]) (use False sz in auto)
  moreover have "nth_ptr (inorder (Node l x r)) (k + off) = NULL"
    by (rule nth_ptr_out) (use False assms(3) in auto)
  ultimately show ?thesis by simp
qed

text \<open>One step up, from a left and from a right child; \<open>up\<close> is what the loop does from the parent.\<close>

lemma avl_offset_up_left:
  assumes at: "avl_at h (Some a) (Node l x r)" and a: "h a = Some (nd q (Node l x r) r')" "rt r' \<noteq> Some x"
    and sz: "size (Node l x r) < 2 ^ 31" "length (ctx_pre c) + size (Node l x r) < 2 ^ 31"
    and k: "int (length (ctx_pre c) + size l) = k + p" "0 \<le> k" "k < 2 ^ 31"
    and up: "\<not> (- int (size l) \<le> off - p \<and> off - p \<le> int (size r)) \<Longrightarrow>
      avl_offset_loop h (Some a) off (p + (int (size r) + 1)) =
      Some (nth_ptr (ctx_inorder c (inorder (Node (Node l x r) a r'))) (k + off))"
  shows "avl_offset_loop h (Some x) off p = Some (nth_ptr (ctx_inorder c (inorder (Node (Node l x r) a r'))) (k + off))"
proof (cases "- int (size l) \<le> off - p \<and> off - p \<le> int (size r)")
  case True
  have "avl_offset_loop h (Some x) off p =
      Some (nth_ptr (ctx_pre c @ inorder (Node l x r) @ a # inorder r' @ ctx_post c) (k + off))"
    by (rule avl_offset_here [OF at _ _ _ _ True]) (use sz k in auto)
  then show ?thesis by (simp add: ctx_inorder_split)
next
  case False
  have n: "h x = Some (nd (Some a) l r)" "avl_at h (Some x) l" "avl_at h (Some x) r" using at by simp_all
  have c: "avl_cnt h (a_left (nd (Some a) l r)) = Some (of_nat (size l))"
    "avl_cnt h (a_right (nd (Some a) l r)) = Some (of_nat (size r))" using n(2,3) by simp_all
  have p: "\<bar>p\<bar> < 2 ^ 50" using k sz by (simp; presburger)
  have "avl_offset_loop h (Some x) off p = avl_offset_loop h (Some a) off (p + (int (size r) + 1))"
    by (subst avl_offset_loop_step [OF n(1) c p]) (use False sz a in auto)
  then show ?thesis using up [OF False] by simp
qed

lemma avl_offset_up_right:
  assumes at: "avl_at h (Some a) (Node l x r)" and a: "h a = Some (nd q l' (Node l x r))"
    and sz: "size (Node l x r) < 2 ^ 31" "length (ctx_pre c) + size l' + 1 + size (Node l x r) < 2 ^ 31"
    and k: "int (length (ctx_pre c) + size l' + 1 + size l) = k + p" "0 \<le> k" "k < 2 ^ 31"
    and up: "\<not> (- int (size l) \<le> off - p \<and> off - p \<le> int (size r)) \<Longrightarrow>
      avl_offset_loop h (Some a) off (p - (int (size l) + 1)) =
      Some (nth_ptr (ctx_inorder c (inorder (Node l' a (Node l x r)))) (k + off))"
  shows "avl_offset_loop h (Some x) off p = Some (nth_ptr (ctx_inorder c (inorder (Node l' a (Node l x r)))) (k + off))"
proof (cases "- int (size l) \<le> off - p \<and> off - p \<le> int (size r)")
  case True
  have "avl_offset_loop h (Some x) off p =
      Some (nth_ptr ((ctx_pre c @ inorder l' @ [a]) @ inorder (Node l x r) @ ctx_post c) (k + off))"
    by (rule avl_offset_here [OF at _ _ _ _ True]) (use sz k in auto)
  then show ?thesis by (simp add: ctx_inorder_split)
next
  case False
  have n: "h x = Some (nd (Some a) l r)" "avl_at h (Some x) l" "avl_at h (Some x) r" using at by simp_all
  have c: "avl_cnt h (a_left (nd (Some a) l r)) = Some (of_nat (size l))"
    "avl_cnt h (a_right (nd (Some a) l r)) = Some (of_nat (size r))" using n(2,3) by simp_all
  have p: "\<bar>p\<bar> < 2 ^ 50" using k sz by (simp; presburger)
  have "avl_offset_loop h (Some x) off p = avl_offset_loop h (Some a) off (p - (int (size l) + 1))"
    by (subst avl_offset_loop_step [OF n(1) c p]) (use False sz a in auto)
  then show ?thesis using up [OF False] by simp
qed

lemma avl_offset_up:
  assumes "avl_at h (par_of c) (Node l x r)"
    and "ctx_full h (Some x) (height (Node l x r)) (size (Node l x r)) c"
    and "distinct (inorder (Node l x r) @ ctx_nodes c)"
    and "size (Node l x r) + length (ctx_nodes c) < 2 ^ 31"
    and "int (length (ctx_pre c) + size l) = k + p" "0 \<le> k" "k < 2 ^ 31"
  shows "avl_offset_loop h (Some x) off p = Some (nth_ptr (ctx_inorder c (inorder (Node l x r))) (k + off))"
  using assms
proof (induction c arbitrary: l x r p rule: ctx_nodes.induct)
  case (1 l x r p)
  then show ?case using avl_offset_up_root [of h l x r k p off] by simp
next
  case (2 a r' c l x r p)
  have a: "h a = Some (nd (par_of c) (Node l x r) r')" "rt r' \<noteq> Some x"
    using 2(3,4) by (auto simp: nd_def dest: rt_in)
  have len: "length (ctx_pre c) \<le> length (ctx_nodes c)"
    using ctx_inorder_split [of c "[]"] length_ctx_inorder [of c "[]"] by simp
  have up: "avl_offset_loop h (Some a) off (p + (int (size r) + 1)) =
      Some (nth_ptr (ctx_inorder c (inorder (Node (Node l x r) a r'))) (k + off))"
    by (rule 2(1)) (use 2(2-) a in \<open>auto simp: nd_def\<close>)
  have at: "avl_at h (Some a) (Node l x r)" using 2(2) by simp
  show ?case using avl_offset_up_left [OF at a _ _ _ 2(7,8) up] 2(5,6) len by simp
next
  case (3 l' a c l x r p)
  have a: "h a = Some (nd (par_of c) l' (Node l x r))" using 3(3) by (auto simp: nd_def)
  have len: "length (ctx_pre c) \<le> length (ctx_nodes c)"
    using ctx_inorder_split [of c "[]"] length_ctx_inorder [of c "[]"] by simp
  have up: "avl_offset_loop h (Some a) off (p - (int (size l) + 1)) =
      Some (nth_ptr (ctx_inorder c (inorder (Node l' a (Node l x r)))) (k + off))"
    by (rule 3(1)) (use 3(2-) a in \<open>auto simp: nd_def\<close>)
  have at: "avl_at h (Some a) (Node l x r)" using 3(2) by simp
  show ?case using avl_offset_up_right [OF at a _ _ _ 3(7,8) up] 3(5,6) len by simp
qed

text \<open>Ranks in a tree.\<close>

lemma avl_offset_tree:
  assumes t: "avl_tree h root t" and k: "k < size t" "inorder t ! k = a"
  shows "avl_offset h (Some a) off = Some (nth_ptr (inorder t) (int k + sint off))"
proof -
  note T = avl_treeD [OF t]
  have "a \<in> set_tree t" using k by (metis length_inorder nth_mem set_inorder)
  then obtain c l r where n: "t = plug c (Node l a r)" using find_node by blast
  have i: "inorder t = (ctx_pre c @ inorder l) @ a # (inorder r @ ctx_post c)"
    by (simp add: n inorder_plug ctx_inorder_split)
  then have "inorder t ! length (ctx_pre c @ inorder l) = a" by (metis nth_append_length)
  moreover have "length (ctx_pre c @ inorder l) < size t"
    using arg_cong [OF i, of length] by simp
  ultimately have "k = length (ctx_pre c @ inorder l)"
    using k T(4) by (metis length_inorder nth_eq_iff_index_eq)
  then have "int (length (ctx_pre c) + size l) = int k + 0" by simp
  then have "avl_offset_loop h (Some a) (sint off) 0 =
      Some (nth_ptr (ctx_inorder c (inorder (Node l a r))) (int k + sint off))"
    using T k by (intro avl_offset_up) (auto simp: n avl_at_plug_iff inorder_plug_nodes size_plug)
  then show ?thesis by (simp add: avl_offset_def n inorder_plug)
qed

section \<open>Properties\<close>

text \<open>A tree of three nodes, for the witnesses, and the same with node 4 hung below node 3.\<close>

definition ex_aheap :: aheap where
  "ex_aheap = [
     1 \<mapsto> \<lparr>a_parent = Some 2, a_left = NULL, a_right = NULL, a_height = 1, a_cnt = 1\<rparr>,
     2 \<mapsto> \<lparr>a_parent = NULL, a_left = Some 1, a_right = Some 3, a_height = 2, a_cnt = 3\<rparr>,
     3 \<mapsto> \<lparr>a_parent = Some 2, a_left = NULL, a_right = NULL, a_height = 1, a_cnt = 1\<rparr>]"

definition ex_aheap4 :: aheap where
  "ex_aheap4 = ex_aheap(
     3 \<mapsto> \<lparr>a_parent = Some 2, a_left = NULL, a_right = Some 4, a_height = 1, a_cnt = 1\<rparr>,
     4 \<mapsto> \<lparr>a_parent = Some 3, a_left = NULL, a_right = NULL, a_height = 1, a_cnt = 1\<rparr>)"

abbreviation ex_tree :: "addr tree" where
  "ex_tree \<equiv> Node (Node Leaf 1 Leaf) 2 (Node Leaf 3 Leaf)"

lemma ex_avl_tree: "avl_tree ex_aheap (Some 2) ex_tree"
  by (simp add: avl_tree_def ex_aheap_def nd_def)

text \<open>C16: deletion of any node of a balanced tree, with zero, one or two children.  \<open>avl_del\<close>
  is memory safe and terminates; afterwards the store holds a balanced tree again, with every
  height, subtree count and parent pointer right, whose nodes in order are the old ones
  without the deleted node, and nothing outside the tree has changed.\<close>

theorem avl_del_correct:
  assumes "avl_tree h root t" "a \<in> set_tree t"
  shows "\<exists>root' h' t'. avl_del h (Some a) = Some (root', h') \<and> avl_tree h' root' t' \<and>
           inorder t' = remove1 a (inorder t) \<and> agree_off (set_tree t) h h'"
  by (rule avl_del_tree [OF assms]) blast

theorem avl_del_correct_witness:
  "\<exists>root' h' t'. avl_del ex_aheap (Some 2) = Some (root', h') \<and> avl_tree h' root' t' \<and>
     inorder t' = remove1 2 (inorder ex_tree) \<and> agree_off (set_tree ex_tree) ex_aheap h'"
  by (rule avl_del_correct [OF ex_avl_tree]) simp

text \<open>C17: insertion.  When a new leaf \<open>a\<close> has been linked below an empty child pointer of a
  balanced tree (the path \<open>c\<close>), \<open>avl_fix\<close> climbs to the root, restores balance, heights and
  counts everywhere and returns the new root; the order of the nodes is kept.\<close>

theorem avl_fix_correct:
  assumes "avl_tree h root (plug c Leaf)" "a \<notin> set_tree (plug c Leaf)" "size (plug c Leaf) + 1 < 2 ^ 31"
    and "h1 a = Some \<lparr>a_parent = par_of c, a_left = NULL, a_right = NULL, a_height = ht, a_cnt = ct\<rparr>"
    and "ctx_at h1 (Some a) c"
  shows "\<exists>root' h' t'. avl_fix h1 (Some a) = Some (root', h') \<and> avl_tree h' root' t' \<and>
           inorder t' = ctx_pre c @ a # ctx_post c \<and>
           agree_off (insert a (set_tree (plug c Leaf))) h1 h'"
  by (rule avl_fix_leaf_tree [OF assms]) (auto simp: ctx_inorder_split)

theorem avl_fix_correct_witness:
  "\<exists>root' h' t'. avl_fix ex_aheap4 (Some 4) = Some (root', h') \<and> avl_tree h' root' t' \<and>
     inorder t' = [1, 2, 3, 4] \<and> agree_off {1, 2, 3, 4} ex_aheap4 h'"
proof -
  let ?c = "[InRight Leaf 3, InRight (Node Leaf 1 Leaf) 2]"
  have "avl_tree ex_aheap (Some 2) (plug ?c Leaf)" using ex_avl_tree by simp
  from avl_fix_correct [OF this, of 4 ex_aheap4 1 1] show ?thesis
    by (simp add: ex_aheap4_def ex_aheap_def nd_def insert_commute)
qed

text \<open>C18: order statistics.  From the node of rank \<open>k\<close>, \<open>avl_offset\<close> reaches the node of rank
  \<open>k + offset\<close>, or returns null exactly when there is none, for every signed 64-bit offset; the
  counts never overflow, and the tree is only read.\<close>

theorem avl_offset_correct:
  assumes "avl_tree h root t" "k < size t"
  shows "avl_offset h (Some (inorder t ! k)) off =
           Some (if 0 \<le> int k + sint off \<and> int k + sint off < int (size t)
                 then Some (inorder t ! nat (int k + sint off)) else NULL)"
  using avl_offset_tree [OF assms refl] by (simp add: nth_ptr_def)

theorem avl_offset_correct_witness:
  "avl_offset ex_aheap (Some 1) 2 = Some (Some 3) \<and> avl_offset ex_aheap (Some 1) (- 1) = Some NULL"
  using avl_offset_correct [OF ex_avl_tree, of 0 2] avl_offset_correct [OF ex_avl_tree, of 0 "- 1"]
  by simp_all

end
