(* ===== verification/HashTable.thy ===== *)
theory HashTable
  imports Prelude "HOL-Library.Multiset"
begin

text \<open>
  \<^verbatim>\<open>lib/server/HashTable.cpp\<close>: intrusive chained hash tables with
  progressive rehashing, over an explicit store of \<^verbatim>\<open>HNode\<close>s.  A chain is
  followed through \<^verbatim>\<open>next\<close> pointers; the incoming pointer \<^verbatim>\<open>HNode **from\<close> is
  either a slot of the table or the \<^verbatim>\<open>next\<close> field of a node.  The second half
  relates the store to the list of chains it holds (\<open>htab_rep\<close>, \<open>hmap_rep\<close>), shows
  that every operation is safe, terminates and changes those lists as intended,
  and abstracts the map to the set of nodes in it (\<open>hmap_set\<close>), which is the
  contract \<open>hash_index\<close> its clients use.
\<close>

section \<open>Data\<close>

record hnode =
  hnext :: ptr
  hcode :: u64

record htab =
  tab :: "ptr list option"
  hmask :: size_t
  hsize :: size_t

record hmap =
  newer :: htab
  older :: htab
  migrate_pos :: size_t

type_synonym hheap = "addr \<rightharpoonup> hnode"

definition empty_htab :: htab where
  "empty_htab = \<lparr>tab = NULL, hmask = 0, hsize = 0\<rparr>"

definition empty_hmap :: hmap where
  "empty_hmap = \<lparr>newer = empty_htab, older = empty_htab, migrate_pos = 0\<rparr>"

datatype href = Slot nat | NextOf addr

definition K_MAX_LOAD_FACTOR :: size_t where "K_MAX_LOAD_FACTOR = 8"
definition K_REHASHING_WORK :: size_t where "K_REHASHING_WORK = 128"

section \<open>Operations\<close>

definition str_hash :: "bytes \<Rightarrow> u64" where
  "str_hash data =
     ucast (foldl (\<lambda>h b. (h + ucast b) * 0x01000193) (0x811C9DC5 :: u32) data)"

definition hnode_same :: "addr \<Rightarrow> addr \<Rightarrow> bool option" where
  "hnode_same key node = Some (node = key)"

definition h_init :: "size_t \<Rightarrow> htab option" where
  "h_init n = do {
     c_assert (n > 0 \<and> (n - 1) AND n = 0);
     Some \<lparr>tab = Some (replicate (unat n) NULL), hmask = n - 1, hsize = 0\<rparr>
   }"

definition h_insert :: "hheap \<Rightarrow> htab \<Rightarrow> addr \<Rightarrow> (hheap \<times> htab) option" where
  "h_insert h t node = do {
     n \<leftarrow> h node;
     tb \<leftarrow> tab t;
     let pos = unat (hcode n AND hmask t);
     next \<leftarrow> arr_get tb pos;
     h \<leftarrow> assign h (Some node) (hnext_update (\<lambda>_. next));
     tb \<leftarrow> arr_set tb pos (Some node);
     Some (h, t\<lparr>tab := Some tb, hsize := hsize t + 1\<rparr>)
   }"

text \<open>Reading and writing through an incoming pointer.\<close>

definition href_get :: "hheap \<Rightarrow> htab \<Rightarrow> href \<Rightarrow> ptr option" where
  "href_get h t from = (case from of
     Slot i \<Rightarrow> do { tb \<leftarrow> tab t; arr_get tb i }
   | NextOf a \<Rightarrow> map_option hnext (h a))"

definition href_set :: "hheap \<Rightarrow> htab \<Rightarrow> href \<Rightarrow> ptr \<Rightarrow> (hheap \<times> htab) option" where
  "href_set h t from p = (case from of
     Slot i \<Rightarrow> do { tb \<leftarrow> tab t; tb \<leftarrow> arr_set tb i p; Some (h, t\<lparr>tab := Some tb\<rparr>) }
   | NextOf a \<Rightarrow> do { h \<leftarrow> assign h (Some a) (hnext_update (\<lambda>_. p)); Some (h, t) })"

partial_function (option) h_lookup_loop ::
  "hheap \<Rightarrow> htab \<Rightarrow> u64 \<Rightarrow> (addr \<Rightarrow> bool option) \<Rightarrow> href \<Rightarrow> href option option" where
  "h_lookup_loop h t key eq from = do {
     cur \<leftarrow> href_get h t from;
     (case cur of
        None \<Rightarrow> Some NULL
      | Some c \<Rightarrow> do {
          n \<leftarrow> h c;
          found \<leftarrow> (if hcode n = key then eq c else Some False);
          if found then Some (Some from)
          else h_lookup_loop h t key eq (NextOf c)
        })
   }"

definition h_lookup ::
  "hheap \<Rightarrow> htab \<Rightarrow> u64 \<Rightarrow> (addr \<Rightarrow> bool option) \<Rightarrow> href option option" where
  "h_lookup h t key eq =
     (if tab t = NULL then Some NULL
      else h_lookup_loop h t key eq (Slot (unat (key AND hmask t))))"

definition h_detach :: "hheap \<Rightarrow> htab \<Rightarrow> href \<Rightarrow> (addr \<times> hheap \<times> htab) option" where
  "h_detach h t from = do {
     p \<leftarrow> href_get h t from;
     node \<leftarrow> p;
     n \<leftarrow> h node;
     (h, t) \<leftarrow> href_set h t from (hnext n);
     Some (node, h, t\<lparr>hsize := hsize t - 1\<rparr>)
   }"

partial_function (option) hm_rehash_loop ::
  "hheap \<Rightarrow> hmap \<Rightarrow> size_t \<Rightarrow> (hheap \<times> hmap) option" where
  "hm_rehash_loop h m nwork =
     (if nwork < K_REHASHING_WORK \<and> hsize (older m) > 0 then do {
        tb \<leftarrow> tab (older m);
        slot \<leftarrow> arr_get tb (unat (migrate_pos m));
        (case slot of
           None \<Rightarrow> hm_rehash_loop h (m\<lparr>migrate_pos := migrate_pos m + 1\<rparr>) nwork
         | Some _ \<Rightarrow> do {
             (node, h, t) \<leftarrow> h_detach h (older m) (Slot (unat (migrate_pos m)));
             (h, t') \<leftarrow> h_insert h (newer m) node;
             hm_rehash_loop h (m\<lparr>older := t, newer := t'\<rparr>) (nwork + 1)
           })
      }
      else Some (h, m))"

definition hm_help_rehashing :: "hheap \<Rightarrow> hmap \<Rightarrow> (hheap \<times> hmap) option" where
  "hm_help_rehashing h m = do {
     (h, m) \<leftarrow> hm_rehash_loop h m 0;
     Some (h, if hsize (older m) = 0 \<and> tab (older m) \<noteq> NULL
              then m\<lparr>older := empty_htab\<rparr> else m)
   }"

definition hm_trigger_rehashing :: "hmap \<Rightarrow> hmap option" where
  "hm_trigger_rehashing m = do {
     c_assert (tab (older m) = NULL);
     t \<leftarrow> h_init ((hmask (newer m) + 1) * 2);
     Some \<lparr>newer = t, older = newer m, migrate_pos = 0\<rparr>
   }"

definition hm_lookup ::
  "hheap \<Rightarrow> hmap \<Rightarrow> u64 \<Rightarrow> (addr \<Rightarrow> bool option) \<Rightarrow> (ptr \<times> hheap \<times> hmap) option" where
  "hm_lookup h m key eq = do {
     (h, m) \<leftarrow> hm_help_rehashing h m;
     from \<leftarrow> h_lookup h (newer m) key eq;
     (case from of
        Some from \<Rightarrow> do { p \<leftarrow> href_get h (newer m) from; Some (p, h, m) }
      | None \<Rightarrow> do {
          from \<leftarrow> h_lookup h (older m) key eq;
          (case from of
             Some from \<Rightarrow> do { p \<leftarrow> href_get h (older m) from; Some (p, h, m) }
           | None \<Rightarrow> Some (NULL, h, m))
        })
   }"

definition hm_insert :: "hheap \<Rightarrow> hmap \<Rightarrow> addr \<Rightarrow> (hheap \<times> hmap) option" where
  "hm_insert h m node = do {
     m \<leftarrow> (if tab (newer m) = NULL
           then do { t \<leftarrow> h_init 4; Some (m\<lparr>newer := t\<rparr>) } else Some m);
     (h, t) \<leftarrow> h_insert h (newer m) node;
     let m = m\<lparr>newer := t\<rparr>;
     m \<leftarrow> (if tab (older m) = NULL
           then let shreshold = (hmask (newer m) + 1) * K_MAX_LOAD_FACTOR
                in if hsize (newer m) \<ge> shreshold then hm_trigger_rehashing m else Some m
           else Some m);
     hm_help_rehashing h m
   }"

definition hm_delete ::
  "hheap \<Rightarrow> hmap \<Rightarrow> u64 \<Rightarrow> (addr \<Rightarrow> bool option) \<Rightarrow> (ptr \<times> hheap \<times> hmap) option" where
  "hm_delete h m key eq = do {
     (h, m) \<leftarrow> hm_help_rehashing h m;
     from \<leftarrow> h_lookup h (newer m) key eq;
     (case from of
        Some from \<Rightarrow> do {
          (node, h, t) \<leftarrow> h_detach h (newer m) from;
          Some (Some node, h, m\<lparr>newer := t\<rparr>)
        }
      | None \<Rightarrow> do {
          from \<leftarrow> h_lookup h (older m) key eq;
          (case from of
             Some from \<Rightarrow> do {
               (node, h, t) \<leftarrow> h_detach h (older m) from;
               Some (Some node, h, m\<lparr>older := t\<rparr>)
             }
           | None \<Rightarrow> Some (NULL, h, m))
        })
   }"

definition hm_clear :: "hmap \<Rightarrow> hmap" where
  "hm_clear m = empty_hmap"

definition hm_size :: "hmap \<Rightarrow> size_t" where
  "hm_size m = hsize (newer m) + hsize (older m)"

text \<open>The visitor \<open>f\<close> may read and change a state of its own (the \<^verbatim>\<open>void *arg\<close>)
  and stops the walk by returning \<open>False\<close>.\<close>

partial_function (option) h_foreach_chain ::
  "hheap \<Rightarrow> (addr \<Rightarrow> 's \<Rightarrow> (bool \<times> 's) option) \<Rightarrow> ptr \<Rightarrow> 's \<Rightarrow> (bool \<times> 's) option" where
  "h_foreach_chain h f node s = (case node of
     None \<Rightarrow> Some (True, s)
   | Some a \<Rightarrow> do {
       (go, s) \<leftarrow> f a s;
       if go then do { n \<leftarrow> h a; h_foreach_chain h f (hnext n) s } else Some (False, s)
     })"

partial_function (option) h_foreach_from ::
  "hheap \<Rightarrow> htab \<Rightarrow> (addr \<Rightarrow> 's \<Rightarrow> (bool \<times> 's) option) \<Rightarrow> size_t \<Rightarrow> 's \<Rightarrow> (bool \<times> 's) option" where
  "h_foreach_from h t f i s =
     (if hmask t \<noteq> 0 \<and> i \<le> hmask t then do {
        tb \<leftarrow> tab t;
        p \<leftarrow> arr_get tb (unat i);
        (go, s) \<leftarrow> h_foreach_chain h f p s;
        if go then h_foreach_from h t f (i + 1) s else Some (False, s)
      }
      else Some (True, s))"

definition h_foreach ::
  "hheap \<Rightarrow> htab \<Rightarrow> (addr \<Rightarrow> 's \<Rightarrow> (bool \<times> 's) option) \<Rightarrow> 's \<Rightarrow> (bool \<times> 's) option" where
  "h_foreach h t f s = h_foreach_from h t f 0 s"

definition hm_foreach ::
  "hheap \<Rightarrow> hmap \<Rightarrow> (addr \<Rightarrow> 's \<Rightarrow> (bool \<times> 's) option) \<Rightarrow> 's \<Rightarrow> 's option" where
  "hm_foreach h m f s = do {
     (go, s) \<leftarrow> h_foreach h (newer m) f s;
     if go then do { (go, s) \<leftarrow> h_foreach h (older m) f s; Some s } else Some s
   }"

section \<open>What the store holds\<close>

text \<open>
  \<open>hc\<close> is a ghost function that gives the hash code of every node.  The chains \<open>cs\<close> of a
  table determine its slots and the \<open>next\<close> field of each of their nodes, so the
  representation predicate states the content of the store outright.
\<close>

fun hd_ptr :: "addr list \<Rightarrow> ptr" where
  "hd_ptr [] = NULL"
| "hd_ptr (a # as) = Some a"

fun chain :: "hheap \<Rightarrow> (addr \<Rightarrow> u64) \<Rightarrow> addr list \<Rightarrow> bool" where
  "chain h hc [] = True"
| "chain h hc (a # as) = (h a = Some \<lparr>hnext = hd_ptr as, hcode = hc a\<rparr> \<and> chain h hc as)"

definition slot_of :: "(addr \<Rightarrow> u64) \<Rightarrow> nat \<Rightarrow> addr \<Rightarrow> nat" where
  "slot_of hc n a = unat (hc a) mod n"

definition htab_rep :: "hheap \<Rightarrow> (addr \<Rightarrow> u64) \<Rightarrow> htab \<Rightarrow> addr list list \<Rightarrow> bool" where
  "htab_rep h hc t cs \<longleftrightarrow>
     (if cs = [] then t = empty_htab
      else tab t = Some (map hd_ptr cs) \<and> (\<exists>k \<le> 54. 1 \<le> k \<and> length cs = 2 ^ k) \<and>
           hmask t = of_nat (length cs - 1) \<and>
           hsize t = of_nat (length (concat cs)) \<and>
           (\<forall>i < length cs. chain h hc (cs ! i)) \<and>
           (\<forall>i < length cs. \<forall>a \<in> set (cs ! i). slot_of hc (length cs) a = i))"

lemma unat_and_mask:
  assumes "len = (2::nat) ^ k" "k \<le> 54"
  shows "unat ((w :: u64) AND of_nat (len - 1)) = unat w mod len"
proof -
  have "(of_nat (len - 1) :: u64) = mask k"
    using assms by (simp add: mask_eq_exp_minus_1 of_nat_diff)
  then have "w AND of_nat (len - 1) = take_bit k w"
    by (simp add: take_bit_eq_mask)
  moreover have "unat (take_bit k w) = unat w mod 2 ^ k"
    by (simp only: unsigned_take_bit_eq) (simp add: take_bit_eq_mod)
  ultimately show ?thesis using assms by simp
qed

lemma hd_ptr_simps2: "hd_ptr xs = None \<longleftrightarrow> xs = []"
  "hd_ptr xs = Some a \<longleftrightarrow> xs \<noteq> [] \<and> hd xs = a"
  by (cases xs; simp)+

lemma chain_append: "chain h hc (xs @ y # ys) \<Longrightarrow> chain h hc (y # ys)"
  by (induction xs) auto

lemma chain_frame: "chain h hc xs \<Longrightarrow> \<forall>a \<in> set xs. h' a = h a \<Longrightarrow> chain h' hc xs"
  by (induction xs) auto

lemma chain_upd [simp]: "a \<notin> set xs \<Longrightarrow> chain (h(a := v)) hc xs = chain h hc xs"
  by (induction xs) auto

lemma chain_mem: "chain h hc xs \<Longrightarrow> a \<in> set xs \<Longrightarrow> \<exists>p. h a = Some \<lparr>hnext = p, hcode = hc a\<rparr>"
  by (induction xs) auto

text \<open>Unlinking \<open>a\<close> from the chain \<open>pre @ a # post\<close> redirects the \<open>next\<close> field of its
  predecessor.\<close>

lemma chain_unlink:
  "chain h hc (pre @ b # a # post) \<Longrightarrow> distinct (pre @ b # a # post) \<Longrightarrow>
   chain (h(b \<mapsto> \<lparr>hnext = hd_ptr post, hcode = hc b\<rparr>)) hc (pre @ b # post)"
proof (induction pre)
  case (Cons c pre)
  then have "hd_ptr (pre @ b # a # post) = hd_ptr (pre @ b # post)" by (cases pre) auto
  with Cons show ?case by auto
qed auto

lemma mset_concat_update:
  "i < length cs \<Longrightarrow>
   mset (concat (cs[i := xs])) + mset (cs ! i) = mset (concat cs) + mset xs"
proof (induction cs arbitrary: i)
  case (Cons c cs)
  then show ?case by (cases i) (auto simp: ac_simps)
qed simp

lemma mset_concat_cons:
  "i < length cs \<Longrightarrow> mset (concat (cs[i := a # cs ! i])) = add_mset a (mset (concat cs))"
  using mset_concat_update [of i cs "a # cs ! i"] by simp

lemma mset_concat_remove:
  assumes "i < length cs" "cs ! i = pre @ a # post"
  shows "add_mset a (mset (concat (cs[i := pre @ post]))) = mset (concat cs)"
  using mset_concat_update [OF assms(1), of "pre @ post"] assms(2) by simp


text \<open>The incoming pointer to the element after \<open>pre\<close> in slot \<open>i\<close>.\<close>

definition ref_at :: "nat \<Rightarrow> addr list \<Rightarrow> href" where
  "ref_at i pre = (if pre = [] then Slot i else NextOf (last pre))"

lemma ref_at_simps [simp]:
  "ref_at i [] = Slot i" "ref_at i (pre @ [a]) = NextOf a"
  by (simp_all add: ref_at_def)

lemma htab_repD:
  assumes "htab_rep h hc t cs" "cs \<noteq> []"
  shows "tab t = Some (map hd_ptr cs)" "hmask t = of_nat (length cs - 1)"
    "hsize t = of_nat (length (concat cs))"
    "i < length cs \<Longrightarrow> chain h hc (cs ! i)"
    "i < length cs \<Longrightarrow> a \<in> set (cs ! i) \<Longrightarrow> slot_of hc (length cs) a = i"
    "unat (w AND hmask t) = unat w mod length cs"
    "unat w mod length cs < length cs"
proof -
  from assms obtain k where k: "k \<le> 54" "length cs = 2 ^ k" by (auto simp: htab_rep_def)
  show "unat (w AND hmask t) = unat w mod length cs"
    using assms unat_and_mask [OF k(2,1), of w] by (simp add: htab_rep_def)
qed (use assms in \<open>auto simp: htab_rep_def\<close>)

lemma htab_rep_Nil [simp]: "htab_rep h hc t [] \<longleftrightarrow> t = empty_htab"
  by (simp add: htab_rep_def)

lemma htab_rep_frame:
  assumes "htab_rep h hc t cs" "\<forall>a \<in> set (concat cs). h' a = h a"
  shows "htab_rep h' hc t cs"
proof (cases "cs = []")
  case False
  have "chain h' hc (cs ! i)" if "i < length cs" for i
    using chain_frame [OF htab_repD(4) [OF assms(1) False that], of h'] assms(2) that
    by (fastforce dest: nth_mem)
  with False assms(1) show ?thesis by (simp add: htab_rep_def)
qed (use assms in simp)

lemma htab_rep_upd:
  "htab_rep h hc t cs \<Longrightarrow> a \<notin> set (concat cs) \<Longrightarrow> htab_rep (h(a := v)) hc t cs"
  by (rule htab_rep_frame) auto

lemma htab_rep_mem:
  assumes "htab_rep h hc t cs" "a \<in> set (concat cs)"
  shows "\<exists>p. h a = Some \<lparr>hnext = p, hcode = hc a\<rparr>"
proof -
  from assms(2) obtain i where "i < length cs" "a \<in> set (cs ! i)"
    by (metis UN_E in_set_conv_nth set_concat)
  moreover from this have "cs \<noteq> []" by auto
  ultimately show ?thesis using chain_mem [OF htab_repD(4) [OF assms(1)]] by blast
qed

lemma in_concat_nth: "i < length cs \<Longrightarrow> a \<in> set (cs ! i) \<Longrightarrow> a \<in> set (concat cs)"
  by (auto dest: nth_mem)

subsection \<open>Insertion and removal\<close>

lemma htab_rep_update:
  assumes rep: "htab_rep h hc t cs" and i: "i < length cs"
    and tab: "tab t' = Some ((map hd_ptr cs)[i := hd_ptr xs])"
    and mask: "hmask t' = hmask t"
    and size: "hsize t' = of_nat (length (concat (cs[i := xs])))"
    and chain: "chain h' hc xs" and slot: "\<forall>a \<in> set xs. slot_of hc (length cs) a = i"
    and frame: "\<And>j a. j < length cs \<Longrightarrow> j \<noteq> i \<Longrightarrow> a \<in> set (cs ! j) \<Longrightarrow> h' a = h a"
  shows "htab_rep h' hc t' (cs[i := xs])"
proof -
  from i have ne: "cs \<noteq> []" by auto
  note r = htab_repD [OF rep ne]
  have "chain h' hc (cs[i := xs] ! j)" if "j < length cs" for j
  proof (cases "j = i")
    case False
    with chain_frame [OF r(4) [OF that], of h'] frame that show ?thesis by auto
  qed (use chain i in simp)
  moreover have "slot_of hc (length cs) b = j"
    if "j < length cs" "b \<in> set (cs[i := xs] ! j)" for b j
    using that r(5) slot i by (cases "j = i") auto
  ultimately show ?thesis using rep ne tab mask size
    by (simp add: htab_rep_def map_update del: length_concat)
qed

lemma length_concat_cons:
  "i < length cs \<Longrightarrow> length (concat (cs[i := a # cs ! i])) = Suc (length (concat cs))"
  using arg_cong [OF mset_concat_cons [of i cs a], of size] by (simp del: length_concat)

lemma length_concat_remove:
  assumes "i < length cs" "cs ! i = pre @ a # post"
  shows "length (concat cs) = Suc (length (concat (cs[i := pre @ post])))"
  using arg_cong [OF mset_concat_remove [OF assms], of size] by (simp del: length_concat)

lemma distinct_concat_nth:
  "distinct (concat cs) \<Longrightarrow> i < length cs \<Longrightarrow> distinct (cs ! i)"
  by (metis distinct_concat_iff nth_mem)

lemma distinct_concat_disjoint:
  "distinct (concat cs) \<Longrightarrow> i < length cs \<Longrightarrow> j < length cs \<Longrightarrow> j \<noteq> i \<Longrightarrow>
   a \<in> set (cs ! j) \<Longrightarrow> a \<notin> set (cs ! i)"
proof (induction cs arbitrary: i j)
  case (Cons c cs)
  from Cons.prems(1) have d: "distinct (concat cs)" "set c \<inter> set (concat cs) = {}" by simp_all
  show ?case
  proof (cases i)
    case 0
    with Cons.prems obtain j' where "j = Suc j'" "j' < length cs" by (cases j) auto
    with 0 d(2) Cons.prems(5) in_concat_nth [of j' cs a] show ?thesis by auto
  next
    case (Suc i')
    then have i': "i' < length cs" using Cons.prems by simp
    show ?thesis
    proof (cases j)
      case 0
      then have "a \<in> set c" using Cons.prems by simp
      with d(2) in_concat_nth [OF i', of a] Suc show ?thesis by auto
    next
      case (Suc j')
      with \<open>i = Suc i'\<close> Cons.IH [OF d(1) i', of j'] Cons.prems show ?thesis by simp
    qed
  qed
qed simp

lemma h_insert_rep:
  assumes rep: "htab_rep h hc t cs" and ne: "cs \<noteq> []"
    and node: "h a = Some \<lparr>hnext = p, hcode = hc a\<rparr>" "a \<notin> set (concat cs)"
  defines "i \<equiv> slot_of hc (length cs) a"
  shows "\<exists>h' t'. h_insert h t a = Some (h', t') \<and> htab_rep h' hc t' (cs[i := a # cs ! i]) \<and>
           i < length cs \<and> agree_off {a} h h' \<and> (\<exists>p. h' a = Some \<lparr>hnext = p, hcode = hc a\<rparr>)"
proof -
  note r = htab_repD [OF rep ne]
  have i: "i < length cs" and pos: "unat (hc a AND hmask t) = i"
    using r(6,7) [of "hc a"] by (simp_all add: i_def slot_of_def)
  have ai: "a \<notin> set (cs ! i)" using node(2) in_concat_nth [OF i] by blast
  let ?h = "h(a \<mapsto> \<lparr>hnext = hd_ptr (cs ! i), hcode = hc a\<rparr>)"
  let ?t = "t\<lparr>tab := Some ((map hd_ptr cs)[i := Some a]), hsize := hsize t + 1\<rparr>"
  have "h_insert h t a = Some (?h, ?t)"
    using i pos by (simp add: h_insert_def node r(1))
  moreover have "htab_rep ?h hc ?t (cs[i := a # cs ! i])"
  proof (rule htab_rep_update [OF rep i])
    show "chain ?h hc (a # cs ! i)"
      using r(4) [OF i] ai by simp
    show "\<forall>b \<in> set (a # cs ! i). slot_of hc (length cs) b = i"
      using r(5) [OF i] by (auto simp: i_def)
    show "?h b = h b" if "j < length cs" "b \<in> set (cs ! j)" for j b
      using node(2) in_concat_nth [OF that] by auto
  qed (simp_all add: r(3) length_concat_cons [OF i] del: length_concat)
  ultimately show ?thesis using i by fastforce
qed

lemma h_detach_rep:
  assumes rep: "htab_rep h hc t cs" and dist: "distinct (concat cs)"
    and i: "i < length cs" and split: "cs ! i = pre @ a # post"
  shows "\<exists>h' t'. h_detach h t (ref_at i pre) = Some (a, h', t') \<and>
           htab_rep h' hc t' (cs[i := pre @ post]) \<and>
           agree_off (set (concat cs) - {a}) h h'"
proof -
  from i have ne: "cs \<noteq> []" by auto
  note r = htab_repD [OF rep ne]
  have ch: "chain h hc (pre @ a # post)" using r(4) [OF i] split by simp
  then have a: "h a = Some \<lparr>hnext = hd_ptr post, hcode = hc a\<rparr>"
    using chain_append by fastforce
  have dpre: "distinct (pre @ a # post)"
    using distinct_concat_nth [OF dist i] split by simp
  have slot: "\<forall>b \<in> set (pre @ post). slot_of hc (length cs) b = i"
    using r(5) [OF i] split by auto
  note sz = length_concat_remove [OF i split]
  show ?thesis
  proof (cases pre rule: rev_cases)
    case Nil
    let ?t = "t\<lparr>tab := Some ((map hd_ptr cs)[i := hd_ptr post]), hsize := hsize t - 1\<rparr>"
    have "h_detach h t (ref_at i pre) = Some (a, h, ?t)"
      using Nil i split a by (simp add: h_detach_def href_get_def href_set_def r(1))
    moreover have "htab_rep h hc ?t (cs[i := pre @ post])"
      by (rule htab_rep_update [OF rep i])
        (use Nil ch slot in \<open>simp_all add: r(3) sz del: length_concat\<close>)
    ultimately show ?thesis using agree_off_refl by blast
  next
    case (snoc pre' b)
    let ?h = "h(b \<mapsto> \<lparr>hnext = hd_ptr post, hcode = hc b\<rparr>)"
    let ?t = "t\<lparr>hsize := hsize t - 1\<rparr>"
    have b: "h b = Some \<lparr>hnext = Some a, hcode = hc b\<rparr>"
      using ch snoc chain_append [of h hc pre' b "a # post"] by simp
    have "hd_ptr (cs ! i) = hd_ptr (pre @ post)"
      using split snoc by (cases pre') auto
    then have tab: "map hd_ptr cs = (map hd_ptr cs)[i := hd_ptr (pre @ post)]"
      using i by (metis length_map list_update_id nth_map)
    have bi: "b \<in> set (cs ! i)" using split snoc by simp
    have "h_detach h t (ref_at i pre) = Some (a, ?h, ?t)"
      using snoc i split a b by (simp add: h_detach_def href_get_def href_set_def)
    moreover have "htab_rep ?h hc ?t (cs[i := pre @ post])"
    proof (rule htab_rep_update [OF rep i])
      show "tab ?t = Some ((map hd_ptr cs)[i := hd_ptr (pre @ post)])" using r(1) tab by simp
      show "chain ?h hc (pre @ post)"
        using chain_unlink [of h hc pre' b a post] ch dpre snoc by simp
      show "?h c = h c" if "j < length cs" "j \<noteq> i" "c \<in> set (cs ! j)" for j c
        using distinct_concat_disjoint [OF dist i that] bi by auto
    qed (use slot in \<open>simp_all add: r(3) sz del: length_concat\<close>)
    moreover have "b \<in> set (concat cs) - {a}"
      using split snoc dpre in_concat_nth [OF i bi] by auto
    ultimately show ?thesis by (intro exI conjI) (assumption, assumption, rule agree_off_upd)
  qed
qed

subsection \<open>Lookup in one table\<close>

text \<open>A node is a hit for a key when its hash code is the key's and the comparison
  callback accepts it; the callback is consulted only where the hash codes agree.\<close>

definition hit :: "(addr \<Rightarrow> u64) \<Rightarrow> u64 \<Rightarrow> (addr \<Rightarrow> bool) \<Rightarrow> addr \<Rightarrow> bool" where
  "hit hc key P a \<longleftrightarrow> hc a = key \<and> P a"

definition eq_ok ::
  "(addr \<Rightarrow> u64) \<Rightarrow> u64 \<Rightarrow> (addr \<Rightarrow> bool option) \<Rightarrow> (addr \<Rightarrow> bool) \<Rightarrow> addr set \<Rightarrow> bool" where
  "eq_ok hc key eq P S \<longleftrightarrow> (\<forall>a \<in> S. hc a = key \<longrightarrow> eq a = Some (P a))"

lemma eq_okD: "eq_ok hc key eq P S \<Longrightarrow> a \<in> S \<Longrightarrow> (if hc a = key then eq a else Some False) = Some (hit hc key P a)"
  by (simp add: eq_ok_def hit_def)

lemma eq_ok_mono: "eq_ok hc key eq P S \<Longrightarrow> T \<subseteq> S \<Longrightarrow> eq_ok hc key eq P T"
  by (auto simp: eq_ok_def)

lemma href_get_rep:
  assumes "htab_rep h hc t cs" "i < length cs" "cs ! i = pre @ rest"
  shows "href_get h t (ref_at i pre) = Some (hd_ptr rest)"
proof -
  from assms(2) have ne: "cs \<noteq> []" by auto
  note r = htab_repD [OF assms(1) ne]
  show ?thesis
  proof (cases pre rule: rev_cases)
    case (snoc pre' b)
    then have "chain h hc (b # rest)"
      using r(4) [OF assms(2)] assms(3) chain_append [of h hc pre' b rest] by simp
    with snoc show ?thesis by (simp add: href_get_def)
  qed (use assms r(1) in \<open>simp add: href_get_def\<close>)
qed

lemma h_lookup_loop_rep:
  assumes rep: "htab_rep h hc t cs" and i: "i < length cs"
    and "cs ! i = pre @ rest" and "eq_ok hc key eq P (set rest)"
  shows "h_lookup_loop h t key eq (ref_at i pre) =
     Some (if \<exists>a \<in> set rest. hit hc key P a
           then Some (ref_at i (pre @ takeWhile (\<lambda>a. \<not> hit hc key P a) rest)) else NULL)"
  using assms(3,4)
proof (induction rest arbitrary: pre)
  case Nil
  then show ?case
    by (subst h_lookup_loop.simps) (simp add: href_get_rep [OF rep i Nil(1)])
next
  case (Cons a rest)
  have a: "\<exists>p. h a = Some \<lparr>hnext = p, hcode = hc a\<rparr>"
    using htab_rep_mem [OF rep] in_concat_nth [OF i, of a] Cons.prems(1) by simp
  have ok: "eq_ok hc key eq P (set rest)"
    using Cons.prems(2) by (rule eq_ok_mono) auto
  have step: "h_lookup_loop h t key eq (NextOf a) =
      Some (if \<exists>a \<in> set rest. hit hc key P a
            then Some (ref_at i ((pre @ [a]) @ takeWhile (\<lambda>a. \<not> hit hc key P a) rest)) else NULL)"
    using Cons.IH [of "pre @ [a]"] Cons.prems(1) ok by simp
  note here = eq_okD [OF Cons.prems(2), of a]
  show ?case using a here
    by (subst h_lookup_loop.simps)
      (auto simp: href_get_rep [OF rep i Cons.prems(1)] step simp del: if_split_eq1 if_split_eq2)
qed

lemma h_lookup_rep:
  assumes rep: "htab_rep h hc t cs"
    and eq: "eq_ok hc key eq P (set (concat cs))"
  shows "(\<exists>i pre a post. i < length cs \<and> cs ! i = pre @ a # post \<and> hit hc key P a \<and>
            h_lookup h t key eq = Some (Some (ref_at i pre))) \<or>
         (h_lookup h t key eq = Some NULL \<and> (\<forall>a \<in> set (concat cs). \<not> hit hc key P a))"
proof (cases "cs = []")
  case True
  with rep show ?thesis by (simp add: h_lookup_def empty_htab_def)
next
  case False
  note r = htab_repD [OF rep False]
  let ?i = "unat key mod length cs"
  have i: "?i < length cs" using r(7) .
  have run: "h_lookup h t key eq =
     Some (if \<exists>a \<in> set (cs ! ?i). hit hc key P a
           then Some (ref_at ?i (takeWhile (\<lambda>a. \<not> hit hc key P a) (cs ! ?i))) else NULL)"
    using h_lookup_loop_rep [OF rep i, of "[]" "cs ! ?i" key eq P]
      eq_ok_mono [OF eq, of "set (cs ! ?i)"] in_concat_nth [OF i]
    by (simp add: h_lookup_def r(1,6) subset_iff)
  show ?thesis
  proof (cases "\<exists>a \<in> set (cs ! ?i). hit hc key P a")
    case True
    let ?pre = "takeWhile (\<lambda>a. \<not> hit hc key P a) (cs ! ?i)"
    from True obtain a post where "dropWhile (\<lambda>a. \<not> hit hc key P a) (cs ! ?i) = a # post"
      by (metis (no_types, lifting) dropWhile_eq_Nil_conv neq_Nil_conv)
    then have "cs ! ?i = ?pre @ a # post" "hit hc key P a"
      by (metis takeWhile_dropWhile_id)
        (metis (mono_tags, lifting) \<open>dropWhile _ _ = _\<close> hd_dropWhile list.distinct(1) list.sel(1))
    with run True i show ?thesis by auto
  next
    case False
    have "a \<in> set (cs ! ?i)" if "a \<in> set (concat cs)" "hit hc key P a" for a
    proof -
      from that(1) obtain j where j: "j < length cs" "a \<in> set (cs ! j)"
        by (metis UN_E in_set_conv_nth set_concat)
      with r(5) [OF j] that(2) show ?thesis by (simp add: slot_of_def hit_def)
    qed
    with False run show ?thesis by auto
  qed
qed

subsection \<open>The pair of tables\<close>

definition hmap_rep ::
  "hheap \<Rightarrow> (addr \<Rightarrow> u64) \<Rightarrow> hmap \<Rightarrow> addr list list \<Rightarrow> addr list list \<Rightarrow> bool" where
  "hmap_rep h hc m ns os \<longleftrightarrow>
     htab_rep h hc (newer m) ns \<and> htab_rep h hc (older m) os \<and>
     distinct (concat ns @ concat os) \<and> length (concat ns @ concat os) < 2 ^ 56 \<and>
     (os \<noteq> [] \<longrightarrow> ns \<noteq> [] \<and> unat (migrate_pos m) \<le> length os \<and>
        (\<forall>i < unat (migrate_pos m). os ! i = []))"

lemma hmap_repD:
  assumes "hmap_rep h hc m ns os"
  shows "htab_rep h hc (newer m) ns" "htab_rep h hc (older m) os"
    "distinct (concat ns)" "distinct (concat os)" "set (concat ns) \<inter> set (concat os) = {}"
    "length (concat ns) + length (concat os) < 2 ^ 56"
    "os \<noteq> [] \<Longrightarrow> ns \<noteq> []" "os \<noteq> [] \<Longrightarrow> unat (migrate_pos m) \<le> length os"
    "os \<noteq> [] \<Longrightarrow> i < unat (migrate_pos m) \<Longrightarrow> os ! i = []"
  using assms by (auto simp: hmap_rep_def)

lemma htab_rep_length: "htab_rep h hc t cs \<Longrightarrow> length cs < 2 ^ 55"
proof -
  assume "htab_rep h hc t cs"
  then have "cs = [] \<or> (\<exists>k \<le> 54. length cs = 2 ^ k)" by (auto simp: htab_rep_def split: if_splits)
  moreover have "(2::nat) ^ k < 2 ^ 55" if "k \<le> 54" for k
    using that by (intro power_strict_increasing) auto
  ultimately show ?thesis by auto
qed

lemma htab_rep_size:
  "htab_rep h hc t cs \<Longrightarrow> hsize t = of_nat (length (concat cs))"
  by (cases "cs = []") (auto simp: htab_repD empty_htab_def)

lemma hsize_pos:
  assumes "htab_rep h hc t cs" "length (concat cs) < 2 ^ 56"
  shows "hsize t > 0 \<longleftrightarrow> concat cs \<noteq> []" and "hsize t = 0 \<longleftrightarrow> concat cs = []"
proof -
  have "hsize t = 0 \<longleftrightarrow> length (concat cs) = 0"
    using of_nat_u64_inject [of "length (concat cs)" 0] assms
    by (simp add: htab_rep_size del: length_concat)
  then show "hsize t = 0 \<longleftrightarrow> concat cs = []" by simp
  then show "hsize t > 0 \<longleftrightarrow> concat cs \<noteq> []" by (simp add: word_neq_0_conv [symmetric])
qed


lemma htab_rep_agree:
  "htab_rep h hc t cs \<Longrightarrow> agree_off S h h' \<Longrightarrow> S \<inter> set (concat cs) = {} \<Longrightarrow> htab_rep h' hc t cs"
  by (rule htab_rep_frame) (auto simp: frame_defs)

lemma nonempty_slot_left:
  assumes "hmap_rep h hc m ns os" "concat os \<noteq> []"
  shows "unat (migrate_pos m) < length os"
proof (rule ccontr)
  from assms(2) have "os \<noteq> []" by auto
  note r = hmap_repD(8,9) [OF assms(1) this]
  assume "\<not> ?thesis"
  with r have "\<forall>i < length os. os ! i = []" by auto
  then have "\<forall>c \<in> set os. c = []" by (metis in_set_conv_nth)
  with assms(2) show False by simp
qed

lemma hmap_rep_skip:
  assumes "hmap_rep h hc m ns os" "unat (migrate_pos m) < length os" "os ! unat (migrate_pos m) = []"
  shows "hmap_rep h hc (m\<lparr>migrate_pos := migrate_pos m + 1\<rparr>) ns os"
    and "unat (migrate_pos m + 1) = unat (migrate_pos m) + 1"
proof -
  have "length os < 2 ^ 55" using htab_rep_length [OF hmap_repD(2) [OF assms(1)]] .
  then have "unat (migrate_pos m) + 1 < 2 ^ 64" using assms(2) by simp
  then show u: "unat (migrate_pos m + 1) = unat (migrate_pos m) + 1"
    by (simp add: unat_word_ariths)
  show "hmap_rep h hc (m\<lparr>migrate_pos := migrate_pos m + 1\<rparr>) ns os"
    using assms u by (auto simp: hmap_rep_def less_Suc_eq)
qed

lemma hmap_rep_move:
  assumes rep: "hmap_rep h hc m ns os" and i: "i < length os" and split: "os ! i = pre @ a # post"
  shows "\<exists>h1 t h2 t'. h_detach h (older m) (ref_at i pre) = Some (a, h1, t) \<and>
           h_insert h1 (newer m) a = Some (h2, t') \<and>
           (\<exists>j < length ns. hmap_rep h2 hc (m\<lparr>older := t, newer := t'\<rparr>)
              (ns[j := a # ns ! j]) (os[i := pre @ post])) \<and>
           agree_off (set (concat os)) h h2"
proof -
  from i have ne: "os \<noteq> []" by auto
  note r = hmap_repD [OF rep]
  from h_detach_rep [OF r(2,4) i split] obtain h1 t where
    d: "h_detach h (older m) (ref_at i pre) = Some (a, h1, t)"
      "htab_rep h1 hc t (os[i := pre @ post])" "agree_off (set (concat os) - {a}) h h1" by blast
  have a: "a \<in> set (concat os)" using in_concat_nth [OF i, of a] split by simp
  with htab_rep_mem [OF r(2)] obtain p where "h a = Some \<lparr>hnext = p, hcode = hc a\<rparr>" by blast
  with d(3) have h1a: "h1 a = Some \<lparr>hnext = p, hcode = hc a\<rparr>" by (simp add: frame_defs)
  have an: "a \<notin> set (concat ns)" using a r(5) by blast
  have n1: "htab_rep h1 hc (newer m) ns"
    by (intro htab_rep_agree [OF r(1) d(3)]) (use r(5) in blast)
  let ?j = "slot_of hc (length ns) a"
  from h_insert_rep [OF n1 r(7) [OF ne] h1a an] obtain h2 t' where
    ins: "h_insert h1 (newer m) a = Some (h2, t')" "htab_rep h2 hc t' (ns[?j := a # ns ! ?j])"
      "?j < length ns" "agree_off {a} h1 h2" by blast
  have mo: "add_mset a (mset (concat (os[i := pre @ post]))) = mset (concat os)"
    using mset_concat_remove [OF i split] .
  have mn: "mset (concat (ns[?j := a # ns ! ?j])) = add_mset a (mset (concat ns))"
    using mset_concat_cons [OF ins(3)] .
  have both: "mset (concat (ns[?j := a # ns ! ?j]) @ concat (os[i := pre @ post]))
      = mset (concat ns @ concat os)"
    using mo mn by simp
  have dist: "distinct (concat ns @ concat os)" using r(3-5) by simp
  from both have dist': "distinct (concat (ns[?j := a # ns ! ?j]) @ concat (os[i := pre @ post]))"
    using dist mset_eq_imp_distinct_iff by blast
  from both have len: "length (concat (ns[?j := a # ns ! ?j]) @ concat (os[i := pre @ post]))
      = length (concat ns @ concat os)"
    by (rule mset_eq_length)
  have "a \<notin> set (concat (os[i := pre @ post]))"
    using dist' mn by (metis distinct_append disjoint_iff union_single_eq_member set_mset_mset)
  then have o2: "htab_rep h2 hc t (os[i := pre @ post])"
    by (intro htab_rep_agree [OF d(2) ins(4)]) simp
  have "hmap_rep h2 hc (m\<lparr>older := t, newer := t'\<rparr>) (ns[?j := a # ns ! ?j]) (os[i := pre @ post])"
    using ins(2) o2 dist' len r(6) r(7) [OF ne] r(8) [OF ne] r(9) [OF ne] split i
    by (auto simp: hmap_rep_def nth_list_update simp del: length_concat distinct_append)
  moreover have "agree_off (set (concat os)) h h2"
    using d(3) ins(4) a by (auto simp: frame_defs)
  ultimately show ?thesis using d(1) ins(1,3) by blast
qed

lemma K_REHASHING_WORK_unat: "nwork < K_REHASHING_WORK \<longleftrightarrow> unat nwork < 128"
  by (simp add: K_REHASHING_WORK_def word_less_nat_alt)

text \<open>One call of the migration loop moves \<open>128 - nwork\<close> nodes, or all that are left.\<close>

text \<open>The outcome of migrating \<open>n\<close> nodes, or all that are left.\<close>

definition rehashed :: "hheap \<Rightarrow> (addr \<Rightarrow> u64) \<Rightarrow> addr list list \<Rightarrow> addr list list \<Rightarrow> nat \<Rightarrow>
    (hheap \<times> hmap) option \<Rightarrow> bool" where
  "rehashed h hc ns os n p \<longleftrightarrow> (\<exists>h' m' ns' os'. p = Some (h', m') \<and> hmap_rep h' hc m' ns' os' \<and>
     mset (concat ns' @ concat os') = mset (concat ns @ concat os) \<and>
     agree_off (set (concat os)) h h' \<and> length ns' = length ns \<and> length os' = length os \<and>
     length (concat os') = length (concat os) - n)"

lemma rehashed_done: "hmap_rep h hc m ns os \<Longrightarrow> n = 0 \<or> concat os = [] \<Longrightarrow> rehashed h hc ns os n (Some (h, m))"
  unfolding rehashed_def by (rule exI [of _ h], rule exI [of _ m], rule exI [of _ ns], rule exI [of _ os])
    (auto simp del: length_concat concat_eq_Nil_conv)

lemma rehashed_move:
  assumes "i < length os" "os ! i = a # post" "j < length ns" "agree_off (set (concat os)) h h2"
    "rehashed h2 hc (ns[j := a # ns ! j]) (os[i := post]) n p"
  shows "rehashed h hc ns os (Suc n) p"
proof -
  let ?ns = "ns[j := a # ns ! j]" and ?os = "os[i := post]"
  have mo: "add_mset a (mset (concat ?os)) = mset (concat os)"
    using mset_concat_remove [OF assms(1), of "[]" a post] assms(2) by simp
  have mn: "mset (concat ?ns) = add_mset a (mset (concat ns))" using mset_concat_cons [OF assms(3)] .
  have len: "length (concat os) = Suc (length (concat ?os))"
    using arg_cong [OF mo, of size] by (simp del: length_concat)
  from assms(5) obtain h' m' ns' os' where
    fin: "p = Some (h', m')" "hmap_rep h' hc m' ns' os'"
      "mset (concat ns' @ concat os') = mset (concat ?ns @ concat ?os)"
      "agree_off (set (concat ?os)) h2 h'" "length ns' = length ns" "length os' = length os"
      "length (concat os') = length (concat ?os) - n"
    unfolding rehashed_def by (auto simp del: length_concat)
  have "set (concat ?os) \<subseteq> set (concat os)"
    using mo by (metis set_mset_add_mset_insert set_mset_mset subset_insertI)
  then have "agree_off (set (concat os)) h h'" using assms(4) fin(4) agree_off_mono agree_off_trans by blast
  moreover have "mset (concat ns' @ concat os') = mset (concat ns @ concat os)" using fin(3) mo mn by simp
  moreover have "length (concat os') = length (concat os) - Suc n" using fin(7) len by (simp del: length_concat)
  ultimately show ?thesis unfolding rehashed_def using fin(1,2,5,6) by blast
qed

lemma hm_rehash_loop_rep:
  assumes "hmap_rep h hc m ns os" "unat nwork \<le> 128"
  shows "rehashed h hc ns os (128 - unat nwork) (hm_rehash_loop h m nwork)"
  using assms
proof (induction "length (concat os) + length os - unat (migrate_pos m)"
    arbitrary: h m ns os nwork rule: less_induct)
  case less
  note rep = less.prems(1) and r = hmap_repD [OF less.prems(1)]
  have size: "hsize (older m) > 0 \<longleftrightarrow> concat os \<noteq> []"
    using r(2,6) by (intro hsize_pos) auto
  show ?case
  proof (cases "unat nwork < 128 \<and> concat os \<noteq> []")
    case False
    then have "hm_rehash_loop h m nwork = Some (h, m)"
      by (subst hm_rehash_loop.simps) (auto simp: K_REHASHING_WORK_unat size)
    then show ?thesis using rehashed_done [OF rep] False by auto
  next
    case True
    let ?i = "unat (migrate_pos m)"
    have i: "?i < length os" using nonempty_slot_left [OF rep] True by simp
    then have ne: "os \<noteq> []" by auto
    have go: "hm_rehash_loop h m nwork =
       (case hd_ptr (os ! ?i) of
          None \<Rightarrow> hm_rehash_loop h (m\<lparr>migrate_pos := migrate_pos m + 1\<rparr>) nwork
        | Some _ \<Rightarrow> do {
            (node, h, t) \<leftarrow> h_detach h (older m) (Slot ?i);
            (h, t') \<leftarrow> h_insert h (newer m) node;
            hm_rehash_loop h (m\<lparr>older := t, newer := t'\<rparr>) (nwork + 1)
          })"
      using True i htab_repD(1) [OF r(2) ne]
      by (subst hm_rehash_loop.simps) (simp add: K_REHASHING_WORK_unat size)
    show ?thesis
    proof (cases "os ! ?i")
      case Nil
      note skip = hmap_rep_skip [OF rep i Nil]
      have "length (concat os) + length os - unat (migrate_pos m + 1)
          < length (concat os) + length os - ?i"
        using i skip(2) by simp
      then show ?thesis
        using less.hyps [of os "m\<lparr>migrate_pos := migrate_pos m + 1\<rparr>" h ns nwork]
          skip(1) less.prems(2) go Nil by simp
    next
      case (Cons a post)
      from hmap_rep_move [OF rep i, of "[]" a post] Cons obtain h1 t h2 t' j where
        mv: "h_detach h (older m) (Slot ?i) = Some (a, h1, t)"
          "h_insert h1 (newer m) a = Some (h2, t')" "j < length ns"
          "hmap_rep h2 hc (m\<lparr>older := t, newer := t'\<rparr>) (ns[j := a # ns ! j]) (os[?i := post])"
          "agree_off (set (concat os)) h h2" by auto
      have nw: "unat (nwork + 1) = unat nwork + 1" using True by (simp add: unat_word_ariths)
      have "length (concat os) = Suc (length (concat (os[?i := post])))"
        using arg_cong [OF mset_concat_remove [OF i, of "[]" a post], of size] Cons by (simp del: length_concat)
      then have "length (concat (os[?i := post])) + length (os[?i := post]) - unat (migrate_pos (m\<lparr>older := t, newer := t'\<rparr>))
          < length (concat os) + length os - unat (migrate_pos m)"
        using i by (simp del: length_concat)
      from less.hyps [OF this mv(4), of "nwork + 1"] nw True have
        "rehashed h2 hc (ns[j := a # ns ! j]) (os[?i := post]) (128 - unat (nwork + 1))
           (hm_rehash_loop h2 (m\<lparr>older := t, newer := t'\<rparr>) (nwork + 1))" by simp
      note moved = rehashed_move [OF i Cons mv(3,5) this]
      have "Suc (128 - unat (nwork + 1)) = 128 - unat nwork" using nw conjunct1 [OF True] by linarith
      then show ?thesis using moved go Cons mv(1,2) by simp
    qed
  qed
qed

lemma hm_help_rehashing_rep:
  assumes "hmap_rep h hc m ns os"
  shows "\<exists>h' m' ns' os'. hm_help_rehashing h m = Some (h', m') \<and> hmap_rep h' hc m' ns' os' \<and>
           mset (concat ns' @ concat os') = mset (concat ns @ concat os) \<and>
           agree_off (set (concat os)) h h' \<and> length ns' = length ns \<and>
           length (concat os') = length (concat os) - 128 \<and>
           (os' = [] \<longleftrightarrow> length (concat os) \<le> 128) \<and> (os' \<noteq> [] \<longrightarrow> length os' = length os)"
proof -
  from hm_rehash_loop_rep [OF assms, of 0] obtain h' m' ns' os' where
    run: "hm_rehash_loop h m 0 = Some (h', m')" "hmap_rep h' hc m' ns' os'"
      "mset (concat ns' @ concat os') = mset (concat ns @ concat os)"
      "agree_off (set (concat os)) h h'" "length ns' = length ns" "length os' = length os"
      "length (concat os') = length (concat os) - 128"
    unfolding rehashed_def by (auto simp del: length_concat)
  note r = hmap_repD [OF run(2)]
  have size: "hsize (older m') = 0 \<longleftrightarrow> concat os' = []"
    using r(2,6) by (intro hsize_pos) auto
  have small: "concat os' = [] \<longleftrightarrow> length (concat os) \<le> 128"
    using run(7) by (metis diff_is_0_eq length_0_conv)
  show ?thesis
  proof (cases "concat os' = []")
    case True
    have e: "older m' = empty_htab" if "tab (older m') = NULL"
      using that htab_repD(1) [OF r(2)] r(2) by (cases "os' = []") auto
    have "hm_help_rehashing h m = Some (h', m'\<lparr>older := empty_htab\<rparr>)"
      using run(1) size True e by (auto simp: hm_help_rehashing_def)
    moreover have "hmap_rep h' hc (m'\<lparr>older := empty_htab\<rparr>) ns' []"
      using run(2) True by (auto simp: hmap_rep_def)
    ultimately show ?thesis using run True small by auto
  next
    case False
    then have "os' \<noteq> []" by auto
    moreover have "hsize (older m') \<noteq> 0" using size False by blast
    then have "hm_help_rehashing h m = Some (h', m')"
      using run(1) by (simp add: hm_help_rehashing_def)
    ultimately show ?thesis using run False small by auto
  qed
qed

subsection \<open>The map operations\<close>

lemma mset_remove_left:
  "i < length cs \<Longrightarrow> cs ! i = pre @ a # post \<Longrightarrow>
   add_mset a (mset (concat (cs[i := pre @ post]) @ ys)) = mset (concat cs @ ys)"
  using mset_concat_remove [of i cs pre a post] by simp

lemma mset_remove_right:
  "i < length cs \<Longrightarrow> cs ! i = pre @ a # post \<Longrightarrow>
   add_mset a (mset (ys @ concat (cs[i := pre @ post]))) = mset (ys @ concat cs)"
  using mset_concat_remove [of i cs pre a post] by simp

lemma hmap_detach_newer:
  assumes rep: "hmap_rep h hc m ns os" and i: "i < length ns" and split: "ns ! i = pre @ a # post"
  shows "\<exists>h' t. h_detach h (newer m) (ref_at i pre) = Some (a, h', t) \<and>
           hmap_rep h' hc (m\<lparr>newer := t\<rparr>) (ns[i := pre @ post]) os \<and>
           agree_off (set (concat ns) - {a}) h h'"
proof -
  note r = hmap_repD [OF rep]
  from h_detach_rep [OF r(1,3) i split] obtain h' t where
    d: "h_detach h (newer m) (ref_at i pre) = Some (a, h', t)"
      "htab_rep h' hc t (ns[i := pre @ post])" "agree_off (set (concat ns) - {a}) h h'" by blast
  have o': "htab_rep h' hc (older m) os"
    by (intro htab_rep_agree [OF r(2) d(3)]) (use r(5) in blast)
  have ms: "add_mset a (mset (concat (ns[i := pre @ post]) @ concat os)) = mset (concat ns @ concat os)"
    by (rule mset_remove_left [OF i split])
  have "distinct (concat (ns[i := pre @ post]) @ concat os)"
    using r(3-5) ms by (metis distinct_append distinct.simps(2) mset.simps(2) mset_eq_imp_distinct_iff)
  moreover have "length (concat (ns[i := pre @ post]) @ concat os) < 2 ^ 56"
    using arg_cong [OF ms, of size] r(6) by (simp del: length_concat)
  ultimately show ?thesis using d o' rep i
    by (auto simp: hmap_rep_def simp del: length_concat distinct_append set_concat)
qed

lemma hmap_detach_older:
  assumes rep: "hmap_rep h hc m ns os" and i: "i < length os" and split: "os ! i = pre @ a # post"
  shows "\<exists>h' t. h_detach h (older m) (ref_at i pre) = Some (a, h', t) \<and>
           hmap_rep h' hc (m\<lparr>older := t\<rparr>) ns (os[i := pre @ post]) \<and>
           agree_off (set (concat os) - {a}) h h'"
proof -
  note r = hmap_repD [OF rep]
  from i have ne: "os \<noteq> []" by auto
  from h_detach_rep [OF r(2,4) i split] obtain h' t where
    d: "h_detach h (older m) (ref_at i pre) = Some (a, h', t)"
      "htab_rep h' hc t (os[i := pre @ post])" "agree_off (set (concat os) - {a}) h h'" by blast
  have n': "htab_rep h' hc (newer m) ns"
    by (intro htab_rep_agree [OF r(1) d(3)]) (use r(5) in blast)
  have ms: "add_mset a (mset (concat ns @ concat (os[i := pre @ post]))) = mset (concat ns @ concat os)"
    by (rule mset_remove_right [OF i split])
  have "distinct (concat ns @ concat (os[i := pre @ post]))"
    using r(3-5) ms by (metis distinct_append distinct.simps(2) mset.simps(2) mset_eq_imp_distinct_iff)
  moreover have "length (concat ns @ concat (os[i := pre @ post])) < 2 ^ 56"
    using arg_cong [OF ms, of size] r(6) by (simp del: length_concat)
  moreover have "\<forall>j < unat (migrate_pos m). os[i := pre @ post] ! j = []"
    using r(9) [OF ne] split i by (auto simp: nth_list_update)
  ultimately show ?thesis using d n' r(7,8) [OF ne]
    by (auto simp: hmap_rep_def simp del: length_concat distinct_append set_concat)
qed

text \<open>The load invariant.  While the tables are being merged, every operation moves 128
  nodes and inserts at most one, so the migration is over long before the newer table is full.\<close>

definition load_ok :: "addr list list \<Rightarrow> addr list list \<Rightarrow> bool" where
  "load_ok ns os \<longleftrightarrow>
     (if os = [] then ns = [] \<or> length (concat ns) < 8 * length ns
      else length ns = 2 * length os \<and>
           128 * (length (concat ns) + length (concat os) - 8 * length os) + length (concat os)
             \<le> 8 * length os)"

lemma load_ok_total:
  "load_ok ns os \<Longrightarrow> ns \<noteq> [] \<Longrightarrow> length (concat ns) + length (concat os) < 8 * length ns"
  by (cases os) (auto simp: load_ok_def split: if_splits simp del: length_concat)

lemma load_ok_migrate:
  assumes "load_ok ns os" "length ns' = length ns"
    and "length (concat ns') + length (concat os') \<le> length (concat ns) + length (concat os)"
    and "length (concat os') \<le> length (concat os)"
    and "os' = [] \<or> length os' = length os \<and> os \<noteq> []"
  shows "load_ok ns' os'"
proof (cases "os' = []")
  case True
  then show ?thesis
    using load_ok_total [OF assms(1)] assms(2,3)
    by (cases "ns = []") (auto simp: load_ok_def simp del: length_concat)
next
  case False
  with assms show ?thesis by (auto simp: load_ok_def simp del: length_concat)
qed

lemma length_of_mset: "mset xs = mset ys \<Longrightarrow> length xs = length ys"
  by (rule mset_eq_length)

text \<open>The shared first half of lookup and deletion: one migration step.\<close>

lemma hm_migrate:
  assumes "hmap_rep h hc m ns os"
  obtains h1 m1 ns1 os1 where "hm_help_rehashing h m = Some (h1, m1)" "hmap_rep h1 hc m1 ns1 os1"
    "mset (concat ns1 @ concat os1) = mset (concat ns @ concat os)"
    "set (concat ns1 @ concat os1) = set (concat ns @ concat os)"
    "agree_off (set (concat ns @ concat os)) h h1"
    "load_ok ns os \<longrightarrow> load_ok ns1 os1"
proof -
  from hm_help_rehashing_rep [OF assms] obtain h1 m1 ns1 os1 where
    hlp: "hm_help_rehashing h m = Some (h1, m1)" "hmap_rep h1 hc m1 ns1 os1"
      "mset (concat ns1 @ concat os1) = mset (concat ns @ concat os)"
      "agree_off (set (concat os)) h h1" "length ns1 = length ns"
      "length (concat os1) = length (concat os) - 128"
      "os1 = [] \<or> length os1 = length os \<and> os \<noteq> []"
    by (metis length_0_conv)
  have "length (concat ns1) + length (concat os1) = length (concat ns) + length (concat os)"
    using mset_eq_length [OF hlp(3)] by (simp del: length_concat)
  then have "load_ok ns os \<longrightarrow> load_ok ns1 os1"
    using load_ok_migrate [OF _ hlp(5) _ _ hlp(7)] hlp(6) by (simp del: length_concat)
  moreover have "agree_off (set (concat ns @ concat os)) h h1"
    using hlp(4) by (rule agree_off_mono) auto
  ultimately show thesis
    using that [OF hlp(1-3) mset_eq_setD [OF hlp(3)]] by blast
qed

lemma load_ok_remove_left:
  assumes "load_ok ns os" "i < length ns" "ns ! i = pre @ a # post"
  shows "load_ok (ns[i := pre @ post]) os"
  by (rule load_ok_migrate [OF assms(1)])
    (use length_concat_remove [OF assms(2,3)] in \<open>auto simp del: length_concat\<close>)

lemma load_ok_remove_right:
  assumes "load_ok ns os" "i < length os" "os ! i = pre @ a # post"
  shows "load_ok ns (os[i := pre @ post])"
  by (rule load_ok_migrate [OF assms(1)])
    (use length_concat_remove [OF assms(2,3)] assms(2) in \<open>auto simp del: length_concat\<close>)

lemma hm_lookup_rep:
  assumes rep: "hmap_rep h hc m ns os"
    and eq: "eq_ok hc key eq P (set (concat ns @ concat os))"
  obtains r h' m' ns' os' where "hm_lookup h m key eq = Some (r, h', m')"
    "hmap_rep h' hc m' ns' os'" "load_ok ns os \<longrightarrow> load_ok ns' os'"
    "agree_off (set (concat ns @ concat os)) h h'"
    "mset (concat ns' @ concat os') = mset (concat ns @ concat os)"
    "case r of None \<Rightarrow> \<forall>a \<in> set (concat ns @ concat os). \<not> hit hc key P a
     | Some a \<Rightarrow> a \<in> set (concat ns @ concat os) \<and> hit hc key P a"
proof -
  let ?all = "set (concat ns @ concat os)"
  from hm_migrate [OF rep] obtain h1 m1 ns1 os1 where
    hlp: "hm_help_rehashing h m = Some (h1, m1)" "hmap_rep h1 hc m1 ns1 os1"
      "mset (concat ns1 @ concat os1) = mset (concat ns @ concat os)"
      "set (concat ns1 @ concat os1) = ?all" "agree_off ?all h h1"
      "load_ok ns os \<longrightarrow> load_ok ns1 os1" .
  note r = hmap_repD [OF hlp(2)] and goal = that [OF _ hlp(2,6,5,3)]
  have eqn: "eq_ok hc key eq P (set (concat ns1))" and eqo: "eq_ok hc key eq P (set (concat os1))"
    using eq_ok_mono [OF eq] hlp(4) by auto
  have sub: "set (concat ns1) \<subseteq> ?all" "set (concat os1) \<subseteq> ?all"
    using hlp(4) by auto
  from h_lookup_rep [OF r(1) eqn] show thesis
  proof (elim disjE exE conjE)
    fix i pre a post
    assume i: "i < length ns1" "ns1 ! i = pre @ a # post" and hit: "hit hc key P a"
      and l: "h_lookup h1 (newer m1) key eq = Some (Some (ref_at i pre))"
    have "hm_lookup h m key eq = Some (Some a, h1, m1)"
      using hlp(1) l href_get_rep [OF r(1) i] by (simp add: hm_lookup_def)
    moreover have "a \<in> ?all" using in_concat_nth [OF i(1), of a] i(2) sub(1) by auto
    ultimately show thesis using hit goal by simp
  next
    assume n: "h_lookup h1 (newer m1) key eq = Some NULL" "\<forall>a \<in> set (concat ns1). \<not> hit hc key P a"
    from h_lookup_rep [OF r(2) eqo] show thesis
    proof (elim disjE exE conjE)
      fix i pre a post
      assume i: "i < length os1" "os1 ! i = pre @ a # post" and hit: "hit hc key P a"
        and l: "h_lookup h1 (older m1) key eq = Some (Some (ref_at i pre))"
      have "hm_lookup h m key eq = Some (Some a, h1, m1)"
        using hlp(1) n(1) l href_get_rep [OF r(2) i] by (simp add: hm_lookup_def)
      moreover have "a \<in> ?all" using in_concat_nth [OF i(1), of a] i(2) sub(2) by auto
      ultimately show thesis using hit goal by simp
    next
      assume o: "h_lookup h1 (older m1) key eq = Some NULL" "\<forall>a \<in> set (concat os1). \<not> hit hc key P a"
      have "hm_lookup h m key eq = Some (NULL, h1, m1)"
        using hlp(1) n(1) o(1) by (simp add: hm_lookup_def)
      moreover have "\<forall>a \<in> ?all. \<not> hit hc key P a"
        using n(2) o(2) hlp(4) by (metis Un_iff set_append)
      ultimately show thesis using goal by simp
    qed
  qed
qed

lemma detached_kept:
  assumes "htab_rep h hc t cs" "i < length cs" "cs ! i = pre @ a # post" "agree_off (set (concat cs) - {a}) h h'"
  shows "\<exists>p. h' a = Some \<lparr>hnext = p, hcode = hc a\<rparr>"
  using htab_rep_mem [OF assms(1), of a] in_concat_nth [OF assms(2), of a] assms(3,4)
  by (simp add: frame_defs)

lemma hm_delete_rep:
  assumes rep: "hmap_rep h hc m ns os"
    and eq: "eq_ok hc key eq P (set (concat ns @ concat os))"
  obtains (none) h' m' ns' os' where "hm_delete h m key eq = Some (NULL, h', m')"
      "hmap_rep h' hc m' ns' os'" "load_ok ns os \<longrightarrow> load_ok ns' os'"
      "agree_off (set (concat ns @ concat os)) h h'"
      "mset (concat ns' @ concat os') = mset (concat ns @ concat os)"
      "\<forall>a \<in> set (concat ns @ concat os). \<not> hit hc key P a"
  | (some) a h' m' ns' os' where "hm_delete h m key eq = Some (Some a, h', m')"
      "hmap_rep h' hc m' ns' os'" "load_ok ns os \<longrightarrow> load_ok ns' os'"
      "agree_off (set (concat ns @ concat os)) h h'"
      "add_mset a (mset (concat ns' @ concat os')) = mset (concat ns @ concat os)"
      "hit hc key P a" "\<exists>p. h' a = Some \<lparr>hnext = p, hcode = hc a\<rparr>"
proof -
  let ?all = "set (concat ns @ concat os)"
  from hm_migrate [OF rep] obtain h1 m1 ns1 os1 where
    hlp: "hm_help_rehashing h m = Some (h1, m1)" "hmap_rep h1 hc m1 ns1 os1"
      "mset (concat ns1 @ concat os1) = mset (concat ns @ concat os)"
      "set (concat ns1 @ concat os1) = ?all" "agree_off ?all h h1"
      "load_ok ns os \<longrightarrow> load_ok ns1 os1" .
  note r = hmap_repD [OF hlp(2)]
  have eqn: "eq_ok hc key eq P (set (concat ns1))" and eqo: "eq_ok hc key eq P (set (concat os1))"
    using eq_ok_mono [OF eq] hlp(4) by auto
  have sub: "set (concat ns1) - {a} \<subseteq> ?all" "set (concat os1) - {a} \<subseteq> ?all" for a
    using hlp(4) by auto
  from h_lookup_rep [OF r(1) eqn] show thesis
  proof (elim disjE exE conjE)
    fix i pre a post
    assume i: "i < length ns1" "ns1 ! i = pre @ a # post" and hit: "hit hc key P a"
      and l: "h_lookup h1 (newer m1) key eq = Some (Some (ref_at i pre))"
    from hmap_detach_newer [OF hlp(2) i] obtain h2 t where
      d: "h_detach h1 (newer m1) (ref_at i pre) = Some (a, h2, t)"
        "hmap_rep h2 hc (m1\<lparr>newer := t\<rparr>) (ns1[i := pre @ post]) os1"
        "agree_off (set (concat ns1) - {a}) h1 h2" by blast
    have "hm_delete h m key eq = Some (Some a, h2, m1\<lparr>newer := t\<rparr>)"
      using hlp(1) l d(1) by (simp add: hm_delete_def)
    moreover have "load_ok ns os \<longrightarrow> load_ok (ns1[i := pre @ post]) os1"
      using hlp(6) load_ok_remove_left [OF _ i] by blast
    ultimately show thesis
      using some [OF _ d(2) _ agree_off_comp [OF hlp(5) d(3) sub(1)]
          trans [OF mset_remove_left [OF i] hlp(3)] hit detached_kept [OF r(1) i d(3)]] by simp
  next
    assume n: "h_lookup h1 (newer m1) key eq = Some NULL" "\<forall>a \<in> set (concat ns1). \<not> hit hc key P a"
    from h_lookup_rep [OF r(2) eqo] show thesis
    proof (elim disjE exE conjE)
      fix i pre a post
      assume i: "i < length os1" "os1 ! i = pre @ a # post" and hit: "hit hc key P a"
        and l: "h_lookup h1 (older m1) key eq = Some (Some (ref_at i pre))"
      from hmap_detach_older [OF hlp(2) i] obtain h2 t where
        d: "h_detach h1 (older m1) (ref_at i pre) = Some (a, h2, t)"
          "hmap_rep h2 hc (m1\<lparr>older := t\<rparr>) ns1 (os1[i := pre @ post])"
          "agree_off (set (concat os1) - {a}) h1 h2" by blast
      have "hm_delete h m key eq = Some (Some a, h2, m1\<lparr>older := t\<rparr>)"
        using hlp(1) n(1) l d(1) by (simp add: hm_delete_def)
      moreover have "load_ok ns os \<longrightarrow> load_ok ns1 (os1[i := pre @ post])"
        using hlp(6) load_ok_remove_right [OF _ i] by blast
      ultimately show thesis
        using some [OF _ d(2) _ agree_off_comp [OF hlp(5) d(3) sub(2)]
            trans [OF mset_remove_right [OF i] hlp(3)] hit detached_kept [OF r(2) i d(3)]] by simp
    next
      assume o: "h_lookup h1 (older m1) key eq = Some NULL" "\<forall>a \<in> set (concat os1). \<not> hit hc key P a"
      have "hm_delete h m key eq = Some (NULL, h1, m1)"
        using hlp(1) n(1) o(1) by (simp add: hm_delete_def)
      moreover have "\<forall>a \<in> ?all. \<not> hit hc key P a"
        using n(2) o(2) hlp(4) by (metis Un_iff set_append)
      ultimately show thesis using none [OF _ hlp(2,6,5,3)] by blast
    qed
  qed
qed

subsection \<open>Insertion\<close>

lemma pow2_check: "k < 64 \<Longrightarrow> ((2 ^ k :: u64) - 1) AND 2 ^ k = 0"
proof -
  have "((2 ^ k :: u64) - 1) AND 2 ^ k = take_bit k (2 ^ k)"
    by (metis and.commute mask_eq_exp_minus_1 take_bit_eq_mask)
  also have "\<dots> = 0" by (rule bit_eqI) (auto simp: bit_take_bit_iff bit_exp_iff)
  finally show ?thesis .
qed

lemma h_init_rep:
  assumes "n = 2 ^ k" "k \<le> 54" "w = of_nat n" "1 \<le> k"
  obtains t where "h_init w = Some t" "htab_rep h hc t (replicate n [])"
proof -
  have lt: "n < 2 ^ 64" unfolding assms(1) using assms(2) by (intro power_strict_increasing) auto
  then have n: "unat w = n" by (simp add: assms(3) unat_of_nat_u64)
  have w: "w = 2 ^ k" by (simp add: assms)
  have "w > 0" using n assms(1) by (simp add: word_less_nat_alt)
  then have "h_init w = Some \<lparr>tab = Some (replicate n NULL), hmask = w - 1, hsize = 0\<rparr>"
    using pow2_check [of k] assms(2) w n by (simp add: h_init_def)
  moreover have "w - 1 = of_nat (n - 1)" using assms by (simp add: of_nat_diff)
  ultimately show thesis
    using that [of "\<lparr>tab = Some (replicate n NULL), hmask = w - 1, hsize = 0\<rparr>"] assms(1,2,4)
    by (auto simp: htab_rep_def)
qed

lemma htab_rep_null: "htab_rep h hc t cs \<Longrightarrow> tab t = NULL \<longleftrightarrow> cs = []"
  by (cases "cs = []") (auto simp: htab_repD empty_htab_def)

lemma hmask_plus1:
  assumes "htab_rep h hc t cs" "cs \<noteq> []"
  shows "hmask t + 1 = of_nat (length cs)"
  using htab_repD(2) [OF assms] assms(2) by (simp add: of_nat_diff Suc_leI)

text \<open>The first step of an insertion makes sure that there is a table.\<close>

lemma hm_insert_init:
  assumes rep: "hmap_rep h hc m ns os" and "load_ok ns os"
  obtains m1 ns1 where
    "(if tab (newer m) = NULL
      then do { t \<leftarrow> h_init 4; Some (m\<lparr>newer := t\<rparr>) } else Some m) = Some m1"
    "hmap_rep h hc m1 ns1 os" "concat ns1 = concat ns" "ns1 \<noteq> []" "load_ok ns1 os"
proof (cases "ns = []")
  case True
  note r = hmap_repD [OF rep]
  with True have os: "os = []" by auto
  obtain t where t: "h_init 4 = Some t" "htab_rep h hc t (replicate 4 [])"
    by (rule h_init_rep [of 4 2 4 h hc]) auto
  have "hmap_rep h hc (m\<lparr>newer := t\<rparr>) (replicate 4 []) os"
    using rep t(2) os by (simp add: hmap_rep_def)
  moreover have "load_ok (replicate 4 []) os"
    using os by (simp add: load_ok_def)
  ultimately show thesis
    using that [of "m\<lparr>newer := t\<rparr>" "replicate 4 []"] t(1) True htab_rep_null [OF r(1)] by simp
next
  case False
  with rep assms(2) htab_rep_null [OF hmap_repD(1) [OF rep]] show thesis
    by (intro that [of m ns]) auto
qed

text \<open>The same bounds in the course of an insertion: \<open>load_full\<close> after the new node is linked,
  \<open>load_grown\<close> after a larger table has been started when it was due.\<close>

definition load_full :: "addr list list \<Rightarrow> addr list list \<Rightarrow> bool" where
  "load_full ns os \<longleftrightarrow>
     (if os = [] then length (concat ns) \<le> 8 * length ns
      else length ns = 2 * length os \<and>
           128 * (length (concat ns) + length (concat os) - 8 * length os) + length (concat os)
             \<le> 8 * length os + 128)"

definition load_grown :: "addr list list \<Rightarrow> addr list list \<Rightarrow> bool" where
  "load_grown ns os \<longleftrightarrow> load_full ns os \<and> (os = [] \<longrightarrow> length (concat ns) < 8 * length ns)"

text \<open>The last step before the migration doubles the table when it has become full.\<close>

lemma hm_double:
  assumes r: "hmap_rep h hc m ns []" and ne: "ns \<noteq> []" and full: "8 * length ns \<le> length (concat ns)"
  obtains t where "hm_trigger_rehashing m = Some \<lparr>newer = t, older = newer m, migrate_pos = 0\<rparr>"
    "hmap_rep h hc \<lparr>newer = t, older = newer m, migrate_pos = 0\<rparr> (replicate (2 * length ns) []) ns"
proof -
  note r = hmap_repD [OF r]
  from r(1) ne obtain k where k: "length ns = 2 ^ k" by (auto simp: htab_rep_def)
  have "length (concat ns) < 2 ^ 56" using r(6) by simp
  then have "(2::nat) ^ (k + 3) < 2 ^ 56" using full k by (simp add: power_add)
  then have "k + 3 < 56" by (rule power_less_imp_less_exp [rotated]) simp
  then have k53: "k + 1 \<le> 54" by simp
  have w: "(hmask (newer m) + 1) * 2 = of_nat (2 * length ns)"
    using hmask_plus1 [OF r(1) ne] by simp
  obtain t where t: "h_init ((hmask (newer m) + 1) * 2) = Some t"
    "htab_rep h hc t (replicate (2 * length ns) [])"
    by (rule h_init_rep [of "2 * length ns" "k + 1", OF _ k53 w]) (simp_all add: k)
  have "hmap_rep h hc \<lparr>newer = t, older = newer m, migrate_pos = 0\<rparr> (replicate (2 * length ns) []) ns"
    using t(2) r(1,3,6) ne by (simp add: hmap_rep_def del: length_concat)
  moreover have "hm_trigger_rehashing m = Some \<lparr>newer = t, older = newer m, migrate_pos = 0\<rparr>"
    using t(1) htab_rep_null [OF r(2)] by (simp add: hm_trigger_rehashing_def)
  ultimately show thesis by (rule that [rotated])
qed

lemma hm_insert_grow:
  assumes rep: "hmap_rep h hc m ns os" and ne: "ns \<noteq> []" and load: "load_full ns os"
  obtains m1 ns1 os1 where
    "(if tab (older m) = NULL
      then let shreshold = (hmask (newer m) + 1) * K_MAX_LOAD_FACTOR
           in if hsize (newer m) \<ge> shreshold then hm_trigger_rehashing m else Some m
      else Some m) = Some m1"
    "hmap_rep h hc m1 ns1 os1" "mset (concat ns1 @ concat os1) = mset (concat ns @ concat os)"
    "ns1 \<noteq> []" "load_grown ns1 os1"
proof (cases "os = []")
  case False
  with rep load ne htab_rep_null [OF hmap_repD(2) [OF rep]] show thesis
    by (intro that [of m ns os]) (auto simp: load_grown_def)
next
  case True
  note r = hmap_repD [OF rep]
  have small: "length (concat ns) < 2 ^ 56" using r(6) by simp
  have mul: "(hmask (newer m) + 1) * K_MAX_LOAD_FACTOR = of_nat (8 * length ns)"
    using hmask_plus1 [OF r(1) ne] by (simp add: K_MAX_LOAD_FACTOR_def)
  have "8 * length ns < 2 ^ 64" using htab_rep_length [OF r(1)] by simp
  then have full: "hsize (newer m) \<ge> of_nat (8 * length ns) \<longleftrightarrow> 8 * length ns \<le> length (concat ns)"
    using of_nat_u64_less [of "length (concat ns)" "8 * length ns"] small
    by (simp add: htab_rep_size [OF r(1)] linorder_not_less [symmetric] del: length_concat of_nat_mult)
  show thesis
  proof (cases "8 * length ns \<le> length (concat ns)")
    case False
    with rep load True ne full mul htab_rep_null [OF r(2)] show thesis
      by (intro that [of m ns os]) (auto simp: Let_def load_grown_def)
  next
    case grow: True
    from hm_double [OF rep [unfolded True] ne grow] obtain t where
      "hm_trigger_rehashing m = Some \<lparr>newer = t, older = newer m, migrate_pos = 0\<rparr>"
      "hmap_rep h hc \<lparr>newer = t, older = newer m, migrate_pos = 0\<rparr> (replicate (2 * length ns) []) ns" .
    then show thesis
      using that [of "\<lparr>newer = t, older = newer m, migrate_pos = 0\<rparr>" "replicate (2 * length ns) []" ns] True ne load full
        mul grow htab_rep_null [OF r(2)]
      by (simp add: Let_def load_full_def load_grown_def del: length_concat)
  qed
qed

lemma load_ok_insert:
  assumes "load_ok ns os" "length ns' = length ns"
    and "length (concat ns') = Suc (length (concat ns))"
  shows "ns = [] \<or> load_full ns' os"
  using assms by (auto simp: load_ok_def load_full_def simp del: length_concat split: if_splits)

lemma load_ok_settle:
  assumes "load_grown ns os"
    and "length ns' = length ns" "length (concat os') = length (concat os) - 128"
    and "length (concat ns') + length (concat os') = length (concat ns) + length (concat os)"
    and "os' = [] \<longleftrightarrow> length (concat os) \<le> 128" "os' = [] \<or> length os' = length os \<and> os \<noteq> []"
  shows "load_ok ns' os'"
proof (cases "os = []")
  case True
  with assms show ?thesis by (auto simp: load_ok_def load_grown_def simp del: length_concat)
next
  case False
  then have pos: "length os > 0" by simp
  define T where "T = length (concat ns) + length (concat os)"
  define L where "L = length os"
  have bound: "128 * (T - 8 * L) + length (concat os) \<le> 8 * L + 128" "length ns = 2 * L"
    using assms(1) False by (simp_all add: load_grown_def load_full_def T_def L_def del: length_concat)
  have "L > 0" using pos by (simp add: L_def)
  with bound(1) have "T < 16 * L" by linarith
  with False assms bound show ?thesis
    by (auto simp: load_ok_def T_def [symmetric] L_def [symmetric] simp del: length_concat)
qed

text \<open>A node that is in no table yet is linked into the newer one.\<close>

lemma hmap_rep_link:
  assumes rep: "hmap_rep h hc m ns os" and ne: "ns \<noteq> []" and node: "h a = Some \<lparr>hnext = p, hcode = hc a\<rparr>"
    and a: "a \<notin> set (concat ns @ concat os)" and room: "length (concat ns) + length (concat os) + 1 < 2 ^ 56"
  obtains h2 t j where "h_insert h (newer m) a = Some (h2, t)" "j < length ns" "agree_off {a} h h2"
    "hmap_rep h2 hc (m\<lparr>newer := t\<rparr>) (ns[j := a # ns ! j]) os"
proof -
  note r = hmap_repD [OF rep]
  let ?j = "slot_of hc (length ns) a" let ?ns = "ns[?j := a # ns ! ?j]"
  have "a \<notin> set (concat ns)" using a by simp
  from h_insert_rep [OF r(1) ne node this] obtain h2 t where
    ins: "h_insert h (newer m) a = Some (h2, t)" "htab_rep h2 hc t ?ns"
      "?j < length ns" "agree_off {a} h h2" by blast
  have o2: "htab_rep h2 hc (older m) os"
    by (intro htab_rep_agree [OF r(2) ins(4)]) (use a in simp)
  have dist: "distinct (concat ?ns @ concat os)"
  proof -
    have "mset (concat ?ns @ concat os) = mset (a # concat ns @ concat os)"
      using mset_concat_cons [OF ins(3), of a] by simp
    moreover have "distinct (a # concat ns @ concat os)" using r(3-5) a by simp
    ultimately show ?thesis using mset_eq_imp_distinct_iff by blast
  qed
  have "hmap_rep h2 hc (m\<lparr>newer := t\<rparr>) ?ns os"
    using ins(2) o2 dist length_concat_cons [OF ins(3), of a] room r(8,9)
    by (auto simp: hmap_rep_def simp del: length_concat distinct_append)
  then show thesis using that ins(1,3,4) by blast
qed

lemma hm_insert_rep:
  assumes rep: "hmap_rep h hc m ns os" and load: "load_ok ns os"
    and node: "h a = Some \<lparr>hnext = p, hcode = hc a\<rparr>" "a \<notin> set (concat ns @ concat os)"
    and room: "length (concat ns) + length (concat os) + 1 < 2 ^ 56"
  obtains h' m' ns' os' where "hm_insert h m a = Some (h', m')" "hmap_rep h' hc m' ns' os'"
    "load_ok ns' os'" "agree_off (insert a (set (concat ns @ concat os))) h h'"
    "mset (concat ns' @ concat os') = add_mset a (mset (concat ns @ concat os))"
proof -
  from hm_insert_init [OF rep load] obtain m1 ns1 where
    ini: "(if tab (newer m) = NULL
      then do { t \<leftarrow> h_init 4; Some (m\<lparr>newer := t\<rparr>) } else Some m) = Some m1"
    "hmap_rep h hc m1 ns1 os" "concat ns1 = concat ns" "ns1 \<noteq> []" "load_ok ns1 os" .
  have a1: "a \<notin> set (concat ns1 @ concat os)" "length (concat ns1) + length (concat os) + 1 < 2 ^ 56"
    using node(2) room ini(3) by simp_all
  from hmap_rep_link [OF ini(2,4) node(1) a1] obtain h2 t j where
    ins: "h_insert h (newer m1) a = Some (h2, t)" "j < length ns1" "agree_off {a} h h2"
      "hmap_rep h2 hc (m1\<lparr>newer := t\<rparr>) (ns1[j := a # ns1 ! j]) os" .
  let ?ns = "ns1[j := a # ns1 ! j]"
  note rep2 = ins(4)
  have mn: "mset (concat ?ns) = add_mset a (mset (concat ns))"
    using mset_concat_cons [OF ins(2), of a] ini(3) by simp
  have size: "length (concat ?ns) = Suc (length (concat ns1))" using length_concat_cons [OF ins(2)] .
  have ne: "?ns \<noteq> []" using ini(4) by simp
  have load2: "load_full ?ns os"
    using load_ok_insert [OF ini(5), of ?ns] size ini(4) by (simp del: length_concat)
  from hm_insert_grow [OF rep2 ne load2] obtain m3 ns3 os3 where
    grow: "(if tab (older (m1\<lparr>newer := t\<rparr>)) = NULL
      then let shreshold = (hmask (newer (m1\<lparr>newer := t\<rparr>)) + 1) * K_MAX_LOAD_FACTOR
           in if hsize (newer (m1\<lparr>newer := t\<rparr>)) \<ge> shreshold
              then hm_trigger_rehashing (m1\<lparr>newer := t\<rparr>) else Some (m1\<lparr>newer := t\<rparr>)
      else Some (m1\<lparr>newer := t\<rparr>)) = Some m3"
    "hmap_rep h2 hc m3 ns3 os3" "mset (concat ns3 @ concat os3) = mset (concat ?ns @ concat os)"
    "ns3 \<noteq> []" "load_grown ns3 os3" .
  from hm_help_rehashing_rep [OF grow(2)] obtain h4 m4 ns4 os4 where
    hlp: "hm_help_rehashing h2 m3 = Some (h4, m4)" "hmap_rep h4 hc m4 ns4 os4"
      "mset (concat ns4 @ concat os4) = mset (concat ns3 @ concat os3)"
      "agree_off (set (concat os3)) h2 h4" "length ns4 = length ns3"
      "length (concat os4) = length (concat os3) - 128"
      "os4 = [] \<longleftrightarrow> length (concat os3) \<le> 128" "os4 \<noteq> [] \<longrightarrow> length os4 = length os3" by blast
  have "length (concat ns4) + length (concat os4) = length (concat ns3) + length (concat os3)"
    using mset_eq_length [OF hlp(3)] by (simp del: length_concat)
  then have load4: "load_ok ns4 os4"
    using load_ok_settle [OF grow(5) hlp(5,6) _ hlp(7)] hlp(8) by (metis length_0_conv)
  have ms: "mset (concat ns4 @ concat os4) = add_mset a (mset (concat ns @ concat os))"
    using hlp(3) grow(3) mn by simp
  have "set (concat os3) \<subseteq> insert a (set (concat ns @ concat os))"
    using mset_eq_setD [OF hlp(3)] ms
    by (metis Un_upper2 set_append set_mset_add_mset_insert set_mset_mset)
  then have "agree_off (insert a (set (concat ns @ concat os))) h h4"
    using agree_off_comp [OF agree_off_mono [OF ins(3)] hlp(4)] by simp
  moreover have "hm_insert h m a = Some (h4, m4)"
    unfolding hm_insert_def ini(1) using ins(1) grow(1) hlp(1) by (simp add: Let_def)
  ultimately show thesis using that hlp(2) load4 ms by blast
qed

section \<open>The abstract map: a set of nodes\<close>

definition hmap_set :: "hheap \<Rightarrow> (addr \<Rightarrow> u64) \<Rightarrow> hmap \<Rightarrow> addr set \<Rightarrow> bool" where
  "hmap_set h hc m S \<longleftrightarrow>
     (\<exists>ns os. hmap_rep h hc m ns os \<and> load_ok ns os \<and> set (concat ns @ concat os) = S)"

lemma hmap_setI:
  "hmap_rep h hc m ns os \<Longrightarrow> load_ok ns os \<Longrightarrow> set (concat ns @ concat os) = S \<Longrightarrow> hmap_set h hc m S"
  by (auto simp: hmap_set_def)

lemma hmap_setE:
  assumes "hmap_set h hc m S"
  obtains ns os where "hmap_rep h hc m ns os" "load_ok ns os" "set (concat ns @ concat os) = S"
  using assms by (auto simp: hmap_set_def)

lemma hmap_rep_card:
  "hmap_rep h hc m ns os \<Longrightarrow> card (set (concat ns @ concat os)) = length (concat ns) + length (concat os)"
  by (simp add: hmap_rep_def distinct_card del: length_concat set_append flip: length_append)

lemma hmap_set_empty: "hmap_set h hc empty_hmap {}"
  by (rule hmap_setI [of h hc empty_hmap "[]" "[]"])
    (auto simp: empty_hmap_def hmap_rep_def load_ok_def)

lemma hmap_set_finite:
  assumes "hmap_set h hc m S"
  shows "finite S \<and> card S < 2 ^ 56"
proof -
  from hmap_setE [OF assms] obtain ns os where
    "hmap_rep h hc m ns os" "set (concat ns @ concat os) = S" .
  then show ?thesis
    using hmap_rep_card hmap_repD(6) by (metis List.finite_set)
qed

lemma hmap_set_node:
  assumes "hmap_set h hc m S" "a \<in> S"
  shows "\<exists>p. h a = Some \<lparr>hnext = p, hcode = hc a\<rparr>"
proof -
  from hmap_setE [OF assms(1)] obtain ns os where
    r: "hmap_rep h hc m ns os" "set (concat ns @ concat os) = S" .
  then have "a \<in> set (concat ns) \<or> a \<in> set (concat os)" using assms(2) by auto
  then show ?thesis using htab_rep_mem hmap_repD(1,2) [OF r(1)] by blast
qed

lemma hmap_set_frame:
  assumes "hmap_set h hc m S" "\<forall>a \<in> S. h' a = h a"
  shows "hmap_set h' hc m S"
proof -
  from hmap_setE [OF assms(1)] obtain ns os where
    r: "hmap_rep h hc m ns os" "load_ok ns os" "set (concat ns @ concat os) = S" .
  note d = hmap_repD(1,2) [OF r(1)]
  have "htab_rep h' hc (newer m) ns" "htab_rep h' hc (older m) os"
    using htab_rep_frame [OF d(1), of h'] htab_rep_frame [OF d(2), of h'] assms(2) r(3) by auto
  with r show ?thesis by (intro hmap_setI [of h' hc m ns os]) (auto simp: hmap_rep_def)
qed

lemma chain_hc: "chain h hc xs \<Longrightarrow> \<forall>a \<in> set xs. hc' a = hc a \<Longrightarrow> chain h hc' xs"
  by (induction xs) auto

lemma htab_rep_hc:
  assumes "htab_rep h hc t cs" "\<forall>a \<in> set (concat cs). hc' a = hc a"
  shows "htab_rep h hc' t cs"
proof (cases "cs = []")
  case False
  note r = htab_repD(4,5) [OF assms(1) False]
  have "chain h hc' (cs ! i)" if "i < length cs" for i
    using chain_hc [OF r(1) [OF that], of hc'] assms(2) in_concat_nth [OF that] by blast
  moreover have "slot_of hc' (length cs) a = i" if "i < length cs" "a \<in> set (cs ! i)" for i a
    using r(2) [OF that] bspec [OF assms(2) in_concat_nth [OF that]] by (simp add: slot_of_def)
  ultimately show ?thesis using assms(1) False by (simp add: htab_rep_def)
qed (use assms in simp)

lemma hmap_set_hc:
  assumes "hmap_set h hc m S" "\<forall>a \<in> S. hc' a = hc a"
  shows "hmap_set h hc' m S"
proof -
  from hmap_setE [OF assms(1)] obtain ns os where
    r: "hmap_rep h hc m ns os" "load_ok ns os" "set (concat ns @ concat os) = S" .
  note d = hmap_repD(1,2) [OF r(1)]
  have "htab_rep h hc' (newer m) ns" "htab_rep h hc' (older m) os"
    using htab_rep_hc [OF d(1), of hc'] htab_rep_hc [OF d(2), of hc'] assms(2) r(3) by auto
  with r show ?thesis by (intro hmap_setI [of h hc' m ns os]) (auto simp: hmap_rep_def)
qed

lemma hmap_set_lookup:
  assumes "hmap_set h hc m S" "eq_ok hc key eq P S"
  shows "\<exists>r h' m'. hm_lookup h m key eq = Some (r, h', m') \<and> hmap_set h' hc m' S \<and> agree_off S h h' \<and>
           (case r of None \<Rightarrow> \<forall>a \<in> S. \<not> hit hc key P a | Some a \<Rightarrow> a \<in> S \<and> hit hc key P a)"
proof -
  from hmap_setE [OF assms(1)] obtain ns os where
    r: "hmap_rep h hc m ns os" "load_ok ns os" "set (concat ns @ concat os) = S" .
  from assms(2) r(3) have eq: "eq_ok hc key eq P (set (concat ns @ concat os))" by simp
  show ?thesis
  proof (rule hm_lookup_rep [OF r(1) eq], unfold r(3))
    fix x h' m' ns' os'
    assume a: "hm_lookup h m key eq = Some (x, h', m')" "hmap_rep h' hc m' ns' os'"
      "load_ok ns os \<longrightarrow> load_ok ns' os'" "agree_off S h h'"
      "mset (concat ns' @ concat os') = mset (concat ns @ concat os)"
      "case x of None \<Rightarrow> \<forall>a \<in> S. \<not> hit hc key P a | Some a \<Rightarrow> a \<in> S \<and> hit hc key P a"
    have "hmap_set h' hc m' S"
      using hmap_setI [OF a(2)] a(3) r(2,3) mset_eq_setD [OF a(5)] by simp
    with a show ?thesis by blast
  qed
qed

lemma hmap_set_insert:
  assumes "hmap_set h hc m S" "h a = Some \<lparr>hnext = p, hcode = hc a\<rparr>" "a \<notin> S" "card S + 1 < 2 ^ 56"
  shows "\<exists>h' m'. hm_insert h m a = Some (h', m') \<and> hmap_set h' hc m' (insert a S) \<and>
           agree_off (insert a S) h h'"
proof -
  from hmap_setE [OF assms(1)] obtain ns os where
    r: "hmap_rep h hc m ns os" "load_ok ns os" "set (concat ns @ concat os) = S" .
  have room: "length (concat ns) + length (concat os) + 1 < 2 ^ 56"
    using hmap_rep_card [OF r(1)] r(3) assms(4) by simp
  have "a \<notin> set (concat ns @ concat os)" using assms(3) r(3) by simp
  from hm_insert_rep [OF r(1,2) assms(2) this room] obtain h' m' ns' os' where
    a: "hm_insert h m a = Some (h', m')" "hmap_rep h' hc m' ns' os'" "load_ok ns' os'"
      "agree_off (insert a (set (concat ns @ concat os))) h h'"
      "mset (concat ns' @ concat os') = add_mset a (mset (concat ns @ concat os))" .
  have "set (concat ns' @ concat os') = insert a S"
    using a(5) r(3) by (metis set_mset_add_mset_insert set_mset_mset)
  with a hmap_setI [OF a(2,3)] r(3) show ?thesis by auto
qed

lemma hmap_set_delete:
  assumes "hmap_set h hc m S" "eq_ok hc key eq P S"
  shows "\<exists>r h' m'. hm_delete h m key eq = Some (r, h', m') \<and> agree_off S h h' \<and>
           (case r of None \<Rightarrow> hmap_set h' hc m' S \<and> (\<forall>a \<in> S. \<not> hit hc key P a)
            | Some a \<Rightarrow> hmap_set h' hc m' (S - {a}) \<and> a \<in> S \<and> hit hc key P a \<and>
                (\<exists>p. h' a = Some \<lparr>hnext = p, hcode = hc a\<rparr>))"
proof -
  from hmap_setE [OF assms(1)] obtain ns os where
    r: "hmap_rep h hc m ns os" "load_ok ns os" "set (concat ns @ concat os) = S" .
  from assms(2) r(3) have eq: "eq_ok hc key eq P (set (concat ns @ concat os))" by simp
  show ?thesis
  proof (rule hm_delete_rep [OF r(1) eq], unfold r(3), goal_cases)
    case (1 h' m' ns' os')
    then have "hmap_set h' hc m' S"
      using hmap_setI [OF 1(2)] r(2,3) mset_eq_setD [OF 1(5)] by simp
    with 1 show ?case by (intro exI [of _ NULL]) auto
  next
    case (2 a h' m' ns' os')
    have "distinct (a # concat ns' @ concat os')"
      using r(1) mset_eq_imp_distinct_iff [of "a # concat ns' @ concat os'" "concat ns @ concat os"] 2(5)
      by (simp add: hmap_rep_def)
    moreover have "insert a (set (concat ns' @ concat os')) = S"
      using 2(5) r(3) by (metis set_mset_add_mset_insert set_mset_mset)
    ultimately have "set (concat ns' @ concat os') = S - {a}" "a \<in> S" by auto
    with 2 hmap_setI [OF 2(2)] r(2) show ?case by (intro exI [of _ "Some a"]) auto
  qed
qed

lemma hmap_set_size:
  assumes "hmap_set h hc m S"
  shows "hm_size m = of_nat (card S)"
proof -
  from hmap_setE [OF assms] obtain ns os where
    r: "hmap_rep h hc m ns os" "set (concat ns @ concat os) = S" .
  show ?thesis
    using hmap_rep_card [OF r(1)] r(2) htab_rep_size [OF hmap_repD(1) [OF r(1)]]
      htab_rep_size [OF hmap_repD(2) [OF r(1)]]
    by (simp add: hm_size_def del: length_concat)
qed

subsection \<open>The contract\<close>

text \<open>
  What a client of the map may rely on, whatever the tables do internally:
  \<open>rep h hc m S\<close> says that map \<open>m\<close> in store \<open>h\<close> indexes exactly the nodes \<open>S\<close>, each
  with the hash code \<open>hc\<close> gives it.
\<close>

locale hash_index =
  fixes rep :: "hheap \<Rightarrow> (addr \<Rightarrow> u64) \<Rightarrow> 'm \<Rightarrow> addr set \<Rightarrow> bool"
    and lookup :: "hheap \<Rightarrow> 'm \<Rightarrow> u64 \<Rightarrow> (addr \<Rightarrow> bool option) \<Rightarrow> (ptr \<times> hheap \<times> 'm) option"
    and ins :: "hheap \<Rightarrow> 'm \<Rightarrow> addr \<Rightarrow> (hheap \<times> 'm) option"
    and del :: "hheap \<Rightarrow> 'm \<Rightarrow> u64 \<Rightarrow> (addr \<Rightarrow> bool option) \<Rightarrow> (ptr \<times> hheap \<times> 'm) option"
    and size_of :: "'m \<Rightarrow> size_t"
  assumes rep_finite: "rep h hc m S \<Longrightarrow> finite S \<and> card S < 2 ^ 56"
    and rep_node: "rep h hc m S \<Longrightarrow> a \<in> S \<Longrightarrow> \<exists>p. h a = Some \<lparr>hnext = p, hcode = hc a\<rparr>"
    and rep_frame: "rep h hc m S \<Longrightarrow> \<forall>a \<in> S. h' a = h a \<Longrightarrow> rep h' hc m S"
    and rep_hc: "rep h hc m S \<Longrightarrow> \<forall>a \<in> S. hc' a = hc a \<Longrightarrow> rep h hc' m S"
    and lookup_law: "rep h hc m S \<Longrightarrow> eq_ok hc key eq P S \<Longrightarrow>
      \<exists>r h' m'. lookup h m key eq = Some (r, h', m') \<and> rep h' hc m' S \<and> agree_off S h h' \<and>
        (case r of None \<Rightarrow> \<forall>a \<in> S. \<not> hit hc key P a | Some a \<Rightarrow> a \<in> S \<and> hit hc key P a)"
    and insert_law: "rep h hc m S \<Longrightarrow> h a = Some \<lparr>hnext = p, hcode = hc a\<rparr> \<Longrightarrow> a \<notin> S \<Longrightarrow>
      card S + 1 < 2 ^ 56 \<Longrightarrow>
      \<exists>h' m'. ins h m a = Some (h', m') \<and> rep h' hc m' (insert a S) \<and> agree_off (insert a S) h h'"
    and delete_law: "rep h hc m S \<Longrightarrow> eq_ok hc key eq P S \<Longrightarrow>
      \<exists>r h' m'. del h m key eq = Some (r, h', m') \<and> agree_off S h h' \<and>
        (case r of None \<Rightarrow> rep h' hc m' S \<and> (\<forall>a \<in> S. \<not> hit hc key P a)
         | Some a \<Rightarrow> rep h' hc m' (S - {a}) \<and> a \<in> S \<and> hit hc key P a \<and>
             (\<exists>p. h' a = Some \<lparr>hnext = p, hcode = hc a\<rparr>))"
    and size_law: "rep h hc m S \<Longrightarrow> size_of m = of_nat (card S)"
begin

text \<open>A client whose nodes carry distinct keys \<open>key_of a\<close>, hashed by \<open>hash\<close>, finds and
  removes exactly the node with the key it asks for.\<close>

lemma keyed_eq_ok:
  "\<forall>a \<in> S. hc a = hash (key_of a) \<Longrightarrow> \<forall>a \<in> S. eq a = Some (key_of a = k) \<Longrightarrow>
   eq_ok hc (hash k) eq (\<lambda>a. key_of a = k) S"
  by (simp add: eq_ok_def)

lemma keyed_lookup:
  assumes "rep h hc m S" "\<forall>a \<in> S. hc a = hash (key_of a)" "inj_on key_of S"
    and "\<forall>a \<in> S. eq a = Some (key_of a = k)"
  shows "\<exists>r h' m'. lookup h m (hash k) eq = Some (r, h', m') \<and> rep h' hc m' S \<and> agree_off S h h' \<and>
           (\<forall>a. r = Some a \<longleftrightarrow> a \<in> S \<and> key_of a = k)"
proof -
  from lookup_law [OF assms(1) keyed_eq_ok [OF assms(2,4)]] obtain r h' m' where
    run: "lookup h m (hash k) eq = Some (r, h', m')" "rep h' hc m' S" "agree_off S h h'"
    "case r of None \<Rightarrow> \<forall>a \<in> S. \<not> hit hc (hash k) (\<lambda>a. key_of a = k) a
     | Some a \<Rightarrow> a \<in> S \<and> hit hc (hash k) (\<lambda>a. key_of a = k) a" by blast
  have "r = Some a \<longleftrightarrow> a \<in> S \<and> key_of a = k" for a
    using run(4) assms(2,3) by (cases r) (auto simp: hit_def inj_on_def)
  with run show ?thesis by blast
qed

lemma keyed_delete:
  assumes "rep h hc m S" "\<forall>a \<in> S. hc a = hash (key_of a)" "inj_on key_of S"
    and "\<forall>a \<in> S. eq a = Some (key_of a = k)"
  shows "\<exists>r h' m'. del h m (hash k) eq = Some (r, h', m') \<and> agree_off S h h' \<and>
           rep h' hc m' {a \<in> S. key_of a \<noteq> k} \<and>
           (\<forall>a. r = Some a \<longleftrightarrow> a \<in> S \<and> key_of a = k) \<and>
           (\<forall>a. r = Some a \<longrightarrow> (\<exists>p. h' a = Some \<lparr>hnext = p, hcode = hc a\<rparr>))"
proof -
  from delete_law [OF assms(1) keyed_eq_ok [OF assms(2,4)]] obtain r h' m' where
    run: "del h m (hash k) eq = Some (r, h', m')" "agree_off S h h'"
    "case r of None \<Rightarrow> rep h' hc m' S \<and> (\<forall>a \<in> S. \<not> hit hc (hash k) (\<lambda>a. key_of a = k) a)
     | Some a \<Rightarrow> rep h' hc m' (S - {a}) \<and> a \<in> S \<and> hit hc (hash k) (\<lambda>a. key_of a = k) a \<and>
         (\<exists>p. h' a = Some \<lparr>hnext = p, hcode = hc a\<rparr>)" by blast
  have "r = Some a \<longleftrightarrow> a \<in> S \<and> key_of a = k" for a
    using run(3) assms(2,3) by (cases r) (auto simp: hit_def inj_on_def)
  moreover have "rep h' hc m' {a \<in> S. key_of a \<noteq> k}"
  proof (cases r)
    case None
    then have "{a \<in> S. key_of a \<noteq> k} = S" using run(3) assms(2) by (auto simp: hit_def)
    with None run(3) show ?thesis by simp
  next
    case (Some b)
    then have "{a \<in> S. key_of a \<noteq> k} = S - {b}"
      using run(3) assms(3) by (auto simp: hit_def inj_on_def)
    with Some run(3) show ?thesis by simp
  qed
  moreover have "\<exists>p. h' a = Some \<lparr>hnext = p, hcode = hc a\<rparr>" if "r = Some a" for a
    using run(3) that by simp
  ultimately show ?thesis using run(1,2) by blast
qed

text \<open>Removal by identity, as the expiry of a key does it.\<close>

lemma node_delete:
  assumes "rep h hc m S" "a \<in> S"
  shows "\<exists>h' m'. del h m (hc a) (hnode_same a) = Some (Some a, h', m') \<and> agree_off S h h' \<and>
           rep h' hc m' (S - {a}) \<and> (\<exists>p. h' a = Some \<lparr>hnext = p, hcode = hc a\<rparr>)"
proof -
  have "eq_ok hc (hc a) (hnode_same a) (\<lambda>b. b = a) S" by (simp add: eq_ok_def hnode_same_def)
  from delete_law [OF assms(1) this] obtain r h' m' where
    run: "del h m (hc a) (hnode_same a) = Some (r, h', m')" "agree_off S h h'"
    "case r of None \<Rightarrow> rep h' hc m' S \<and> (\<forall>b \<in> S. \<not> hit hc (hc a) (\<lambda>b. b = a) b)
     | Some b \<Rightarrow> rep h' hc m' (S - {b}) \<and> b \<in> S \<and> hit hc (hc a) (\<lambda>b. b = a) b \<and>
         (\<exists>p. h' b = Some \<lparr>hnext = p, hcode = hc b\<rparr>)" by blast
  then show ?thesis using assms(2) by (cases r) (auto simp: hit_def)
qed

end

interpretation hm: hash_index hmap_set hm_lookup hm_insert hm_delete hm_size
  by unfold_locales
    (fact hmap_set_finite hmap_set_node hmap_set_frame hmap_set_hc hmap_set_lookup
      hmap_set_insert hmap_set_delete hmap_set_size)+

section \<open>Iteration\<close>

fun visit :: "(addr \<Rightarrow> 's \<Rightarrow> (bool \<times> 's) option) \<Rightarrow> addr list \<Rightarrow> 's \<Rightarrow> (bool \<times> 's) option" where
  "visit f [] s = Some (True, s)"
| "visit f (a # as) s = do { (go, s) \<leftarrow> f a s; if go then visit f as s else Some (False, s) }"

lemma visit_append:
  "visit f (xs @ ys) s = do { (go, s) \<leftarrow> visit f xs s; if go then visit f ys s else Some (False, s) }"
  by (induction xs arbitrary: s) (auto simp: split: bind_splits prod.splits)

lemma h_foreach_chain_rep:
  "chain h hc xs \<Longrightarrow> h_foreach_chain h f (hd_ptr xs) s = visit f xs s"
proof (induction xs arbitrary: s)
  case (Cons a xs)
  then show ?case
    by (subst h_foreach_chain.simps) (auto split: bind_splits prod.splits)
qed (simp add: h_foreach_chain.simps)

lemma unat_hmask:
  assumes "htab_rep h hc t cs" "cs \<noteq> []"
  shows "unat (hmask t) = length cs - 1"
proof -
  have "length cs - 1 < 2 ^ 64" using htab_rep_length [OF assms(1)] by simp
  then show ?thesis unfolding htab_repD(2) [OF assms] by (rule unat_of_nat_u64)
qed

lemma h_foreach_from_rep:
  assumes rep: "htab_rep h hc t cs" and ne: "cs \<noteq> []" and "i \<le> length cs"
  shows "h_foreach_from h t f (of_nat i) s = visit f (concat (drop i cs)) s"
  using assms(3)
proof (induction "length cs - i" arbitrary: i s)
  case 0
  note r = htab_repD [OF rep ne] and len = htab_rep_length [OF rep]
  have "i = length cs" using 0 by simp
  moreover have "\<not> of_nat (length cs) \<le> hmask t"
    using unat_hmask [OF rep ne] len ne
    by (cases cs) (simp_all add: word_le_nat_alt unat_of_nat_u64 del: of_nat_Suc)
  ultimately show ?case by (subst h_foreach_from.simps) simp
next
  case (Suc d)
  note r = htab_repD [OF rep ne] and len = htab_rep_length [OF rep]
  have i: "i < length cs" using Suc(2) by simp
  have "length cs \<ge> 2"
  proof -
    from rep ne obtain k where "1 \<le> k" "length cs = 2 ^ k" by (auto simp: htab_rep_def)
    then show ?thesis using power_increasing [of 1 k "2::nat"] by simp
  qed
  then have "hmask t \<noteq> 0"
    using unat_hmask [OF rep ne] by auto
  moreover have "of_nat i \<le> hmask t"
    using unat_hmask [OF rep ne] len i by (simp add: word_le_nat_alt unat_of_nat_u64)
  moreover have "unat (of_nat i :: u64) = i" using i len by (simp add: unat_of_nat_u64)
  moreover have "(of_nat i :: u64) + 1 = of_nat (Suc i)" by simp
  moreover have "h_foreach_from h t f (of_nat (Suc i)) s' = visit f (concat (drop (Suc i) cs)) s'" for s'
    using Suc.hyps(1) [of "Suc i" s'] Suc.hyps(2) i by simp
  moreover have "concat (drop i cs) = cs ! i @ concat (drop (Suc i) cs)"
    using i by (simp add: Cons_nth_drop_Suc [symmetric])
  ultimately show ?case
    using i r(1) h_foreach_chain_rep [OF r(4) [OF i], of f s]
    by (subst h_foreach_from.simps) (simp add: visit_append cong: if_cong del: of_nat_Suc)
qed

lemma h_foreach_rep:
  assumes "htab_rep h hc t cs"
  shows "h_foreach h t f s = visit f (concat cs) s"
proof (cases "cs = []")
  case True
  with assms show ?thesis
    by (simp add: h_foreach_def empty_htab_def h_foreach_from.simps)
next
  case False
  with h_foreach_from_rep [OF assms False, of 0] show ?thesis by (simp add: h_foreach_def)
qed

lemma hm_foreach_rep:
  assumes "hmap_rep h hc m ns os"
  shows "hm_foreach h m f s = do { (go, s) \<leftarrow> visit f (concat ns @ concat os) s; Some s }"
proof -
  note r = hmap_repD(1,2) [OF assms]
  show ?thesis
    unfolding hm_foreach_def h_foreach_rep [OF r(1)] h_foreach_rep [OF r(2)] visit_append
    by (auto split: bind_splits prod.splits if_splits)
qed

lemma hmap_set_foreach:
  assumes "hmap_set h hc m S"
  shows "\<exists>xs. set xs = S \<and> distinct xs \<and>
           (\<forall>f s. hm_foreach h m f s = do { (go, s) \<leftarrow> visit f xs s; Some s })"
proof -
  from hmap_setE [OF assms] obtain ns os where
    r: "hmap_rep h hc m ns os" "set (concat ns @ concat os) = S" .
  have "distinct (concat ns @ concat os)" using r(1) by (simp add: hmap_rep_def)
  with r(2) hm_foreach_rep [OF r(1)] show ?thesis by blast
qed


lemma hmap_set_load:
  assumes "hmap_set h hc m S" "S \<noteq> {}"
  shows "card S < 8 * (unat (hmask (newer m)) + 1)"
proof -
  from hmap_setE [OF assms(1)] obtain ns os where
    r: "hmap_rep h hc m ns os" "load_ok ns os" "set (concat ns @ concat os) = S" .
  have "os = []" if "ns = []" using hmap_repD(7) [OF r(1)] that by blast
  then have ne: "ns \<noteq> []" using assms(2) r(3) by auto
  then have "length ns > 0" by simp
  then show ?thesis
    using load_ok_total [OF r(2) ne] hmap_rep_card [OF r(1)] r(3)
      unat_hmask [OF hmap_repD(1) [OF r(1)] ne]
    by (simp del: length_concat length_greater_0_conv)
qed

section \<open>Properties\<close>

text \<open>A store in the middle of a migration, for the witnesses: nodes 1 and 2 collide in slot 5
  of the newer table, node 3 still waits in the older one.\<close>

definition ex_hc :: "addr \<Rightarrow> u64" where
  "ex_hc a = (if a = 1 then 5 else if a = 2 then 13 else 6)"

definition ex_hheap :: hheap where
  "ex_hheap = [1 \<mapsto> \<lparr>hnext = NULL, hcode = 5\<rparr>, 2 \<mapsto> \<lparr>hnext = Some 1, hcode = 13\<rparr>,
     3 \<mapsto> \<lparr>hnext = NULL, hcode = 6\<rparr>, 4 \<mapsto> \<lparr>hnext = NULL, hcode = 6\<rparr>]"

definition ex_hmap :: hmap where
  "ex_hmap = \<lparr>
     newer = \<lparr>tab = Some [NULL, NULL, NULL, NULL, NULL, Some 2, NULL, NULL], hmask = 7, hsize = 2\<rparr>,
     older = \<lparr>tab = Some [NULL, NULL, Some 3, NULL], hmask = 3, hsize = 1\<rparr>,
     migrate_pos = 1\<rparr>"

lemma htab_rep_eval:
  assumes "tab t = Some (map hd_ptr cs)" "length cs = 2 ^ k" "1 \<le> k" "k \<le> 54"
    and "hmask t = of_nat (length cs - 1)" "hsize t = of_nat (length (concat cs))"
    and "list_all (chain h hc) cs"
    and "list_all2 (\<lambda>i c. \<forall>a \<in> set c. slot_of hc (length cs) a = i) [0..<length cs] cs"
  shows "htab_rep h hc t cs"
  using assms by (auto simp: htab_rep_def list_all_length list_all2_conv_all_nth)

lemma ex_hmap_rep:
  "hmap_rep ex_hheap ex_hc ex_hmap [[], [], [], [], [], [2, 1], [], []] [[], [], [3], []]"
proof -
  have "htab_rep ex_hheap ex_hc (newer ex_hmap) [[], [], [], [], [], [2, 1], [], []]"
    by (rule htab_rep_eval [of _ _ 3])
      (simp_all add: ex_hmap_def ex_hheap_def ex_hc_def slot_of_def)
  moreover have "htab_rep ex_hheap ex_hc (older ex_hmap) [[], [], [3], []]"
    by (rule htab_rep_eval [of _ _ 2])
      (simp_all add: ex_hmap_def ex_hheap_def ex_hc_def slot_of_def)
  ultimately show ?thesis by (simp add: hmap_rep_def ex_hmap_def)
qed

lemma ex_hmap_set: "hmap_set ex_hheap ex_hc ex_hmap {1, 2, 3}"
  by (rule hmap_setI [OF ex_hmap_rep]) (auto simp: load_ok_def)


text \<open>C11: lookup in the double table.  If the nodes of the map carry distinct keys hashed by
  \<open>hash\<close> and the callback compares a node's key with the wanted one, \<open>hm_lookup\<close> returns a
  node exactly when one has that key, and that node; it terminates without an invalid access,
  the map still holds the same nodes although the call migrates some of them between the
  tables, and no other node of the store is touched.\<close>

theorem hm_lookup_correct:
  assumes "hmap_set h hc m S" "\<forall>a \<in> S. hc a = hash (key_of a)" "inj_on key_of S"
    and "\<forall>a \<in> S. eq a = Some (key_of a = k)"
  shows "\<exists>r h' m'. hm_lookup h m (hash k) eq = Some (r, h', m') \<and> hmap_set h' hc m' S \<and>
           agree_off S h h' \<and> (\<forall>a. r = Some a \<longleftrightarrow> a \<in> S \<and> key_of a = k)"
  by (rule hm.keyed_lookup [OF assms])

theorem hm_lookup_correct_witness:
  "\<exists>r h' m'. hm_lookup ex_hheap ex_hmap (ex_hc 3) (\<lambda>a. Some (a = 3)) = Some (r, h', m') \<and>
     hmap_set h' ex_hc m' {1, 2, 3} \<and> agree_off {1, 2, 3} ex_hheap h' \<and>
     (\<forall>a. r = Some a \<longleftrightarrow> a \<in> {1, 2, 3} \<and> a = 3)"
  using hm_lookup_correct [OF ex_hmap_set, of ex_hc "\<lambda>a. a" "\<lambda>a. Some (a = 3)" 3] by simp

text \<open>C12: insertion.  A node that is not in the map is added, whatever its hash code, and
  nothing else changes: the call is safe and terminates even when it allocates the first
  table, starts a migration or continues one, and afterwards the load factor of the newer
  table is below 8 again.\<close>

theorem hm_insert_correct:
  assumes "hmap_set h hc m S" "h a = Some \<lparr>hnext = p, hcode = hc a\<rparr>" "a \<notin> S" "card S + 1 < 2 ^ 56"
  shows "\<exists>h' m'. hm_insert h m a = Some (h', m') \<and> hmap_set h' hc m' (insert a S) \<and>
           agree_off (insert a S) h h' \<and>
           unat (hm_size m') = card S + 1 \<and> unat (hm_size m') < 8 * (unat (hmask (newer m')) + 1)"
proof -
  from hmap_set_insert [OF assms] obtain h' m' where
    r: "hm_insert h m a = Some (h', m')" "hmap_set h' hc m' (insert a S)" "agree_off (insert a S) h h'"
    by blast
  have card: "card (insert a S) = card S + 1"
    using hmap_set_finite [OF assms(1)] assms(3) by simp
  then have size: "unat (hm_size m') = card S + 1"
    using hmap_set_size [OF r(2)] assms(4) unat_of_nat_u64 [of "card S + 1"] by simp
  moreover have "unat (hm_size m') < 8 * (unat (hmask (newer m')) + 1)"
    using hmap_set_load [OF r(2)] size card by simp
  ultimately show ?thesis using r by blast
qed

theorem hm_insert_correct_witness:
  "\<exists>h' m'. hm_insert ex_hheap ex_hmap 4 = Some (h', m') \<and> hmap_set h' ex_hc m' {4, 1, 2, 3} \<and>
     agree_off {4, 1, 2, 3} ex_hheap h' \<and> unat (hm_size m') = card {1::nat, 2, 3} + 1 \<and>
     unat (hm_size m') < 8 * (unat (hmask (newer m')) + 1)"
  by (rule hm_insert_correct [OF ex_hmap_set, of 4 NULL])
    (simp_all add: ex_hheap_def ex_hc_def)

text \<open>C13: deletion by key.  The node with the wanted key, if there is one, is unlinked from
  whichever table holds it and returned intact; the map keeps exactly the other nodes.\<close>

theorem hm_delete_correct:
  assumes "hmap_set h hc m S" "\<forall>a \<in> S. hc a = hash (key_of a)" "inj_on key_of S"
    and "\<forall>a \<in> S. eq a = Some (key_of a = k)"
  shows "\<exists>r h' m'. hm_delete h m (hash k) eq = Some (r, h', m') \<and> agree_off S h h' \<and>
           hmap_set h' hc m' {a \<in> S. key_of a \<noteq> k} \<and>
           (\<forall>a. r = Some a \<longleftrightarrow> a \<in> S \<and> key_of a = k) \<and>
           (\<forall>a. r = Some a \<longrightarrow> (\<exists>p. h' a = Some \<lparr>hnext = p, hcode = hc a\<rparr>))"
  by (rule hm.keyed_delete [OF assms])

theorem hm_delete_correct_witness:
  "\<exists>r h' m'. hm_delete ex_hheap ex_hmap (ex_hc 1) (\<lambda>a. Some (a = 1)) = Some (r, h', m') \<and>
     agree_off {1, 2, 3} ex_hheap h' \<and> hmap_set h' ex_hc m' {a \<in> {1, 2, 3}. a \<noteq> 1} \<and>
     (\<forall>a. r = Some a \<longleftrightarrow> a \<in> {1, 2, 3} \<and> a = 1) \<and>
     (\<forall>a. r = Some a \<longrightarrow> (\<exists>p. h' a = Some \<lparr>hnext = p, hcode = ex_hc a\<rparr>))"
  using hm_delete_correct [OF ex_hmap_set, of ex_hc "\<lambda>a. a" "\<lambda>a. Some (a = 1)" 1] by simp

text \<open>C14: progressive rehashing.  One call of \<open>hm_help_rehashing\<close> always returns, moves
  exactly 128 nodes out of the older table or all that are left, keeps the set of nodes, and
  frees the older table as soon as it is empty, so a migration of \<open>n\<close> nodes is over after
  \<open>n / 128\<close> operations.\<close>

theorem hm_help_rehashing_progress:
  assumes "hmap_set h hc m S"
  shows "\<exists>h' m'. hm_help_rehashing h m = Some (h', m') \<and> hmap_set h' hc m' S \<and> agree_off S h h' \<and>
           unat (hsize (older m')) = unat (hsize (older m)) - 128 \<and>
           (tab (older m') = NULL \<longleftrightarrow> unat (hsize (older m)) \<le> 128)"
proof -
  from hmap_setE [OF assms] obtain ns os where
    r: "hmap_rep h hc m ns os" "load_ok ns os" "set (concat ns @ concat os) = S" .
  from hm_help_rehashing_rep [OF r(1)] obtain h' m' ns' os' where
    s: "hm_help_rehashing h m = Some (h', m')" "hmap_rep h' hc m' ns' os'"
      "length (concat os') = length (concat os) - 128" "os' = [] \<longleftrightarrow> length (concat os) \<le> 128" by blast
  have older: "unat (hsize (older m)) = length (concat os)" "unat (hsize (older m')) = length (concat os')"
    using hmap_repD(2,6) [OF r(1)] hmap_repD(2,6) [OF s(2)] htab_rep_size
    by (simp_all add: unat_of_nat_u64 del: length_concat)
  from hm_migrate [OF r(1)] obtain h1 m1 ns1 os1 where
    t: "hm_help_rehashing h m = Some (h1, m1)" "hmap_rep h1 hc m1 ns1 os1"
      "set (concat ns1 @ concat os1) = set (concat ns @ concat os)"
      "agree_off (set (concat ns @ concat os)) h h1" "load_ok ns os \<longrightarrow> load_ok ns1 os1" .
  have "hmap_set h' hc m' S" "agree_off S h h'"
    using hmap_setI [OF t(2)] t s(1) r(2,3) by auto
  with s older htab_rep_null [OF hmap_repD(2) [OF s(2)]] show ?thesis
    by (simp del: length_concat)
qed

theorem hm_help_rehashing_progress_witness:
  "\<exists>h' m'. hm_help_rehashing ex_hheap ex_hmap = Some (h', m') \<and> hmap_set h' ex_hc m' {1, 2, 3} \<and>
     agree_off {1, 2, 3} ex_hheap h' \<and>
     unat (hsize (older m')) = unat (hsize (older ex_hmap)) - 128 \<and>
     (tab (older m') = NULL \<longleftrightarrow> unat (hsize (older ex_hmap)) \<le> 128)"
  by (rule hm_help_rehashing_progress [OF ex_hmap_set])

text \<open>C15: iteration.  \<open>hm_foreach\<close> offers every node of the map to the visitor exactly once,
  in one fixed order and until the visitor stops it, and \<open>hm_size\<close> is the number of nodes it
  offers to a visitor that never stops.\<close>

theorem hm_foreach_exact:
  assumes "hmap_set h hc m S"
  shows "\<exists>xs. set xs = S \<and> distinct xs \<and> unat (hm_size m) = length xs \<and>
           (\<forall>f (s :: 's). hm_foreach h m f s = do { (go, s) \<leftarrow> visit f xs s; Some s })"
proof -
  from hmap_set_foreach [OF assms] obtain xs where
    xs: "set xs = S" "distinct xs"
      "\<forall>f (s :: 's). hm_foreach h m f s = do { (go, s) \<leftarrow> visit f xs s; Some s }" by blast
  have "card S = length xs" using xs(1,2) distinct_card by blast
  then have "unat (hm_size m) = length xs"
    using hmap_set_size [OF assms] hmap_set_finite [OF assms] by (simp add: unat_of_nat_u64)
  with xs show ?thesis by blast
qed

theorem hm_foreach_exact_witness:
  "\<exists>xs. set xs = {1, 2, 3} \<and> distinct xs \<and> unat (hm_size ex_hmap) = length xs \<and>
     (\<forall>f s. hm_foreach ex_hheap ex_hmap f (s :: bytes) = do { (go, s) \<leftarrow> visit f xs s; Some s })"
  using hm_foreach_exact [OF ex_hmap_set] by blast

end
