(* ===== verification/Bytes.thy ===== *)
theory Bytes
  imports Prelude
begin

text \<open>
  Object representations: the bytes \<^verbatim>\<open>memcpy\<close> moves between an integer and a
  byte buffer on a little-endian machine (which the code assumes).  The locale
  \<open>fixed_codec\<close> is the contract every reader and writer of the protocol relies on;
  it is interpreted for \<^verbatim>\<open>uint32_t\<close> and for the two 8-byte types \<^verbatim>\<open>int64_t\<close> and
  \<^verbatim>\<open>double\<close> (whose bit pattern is a 64-bit word).
\<close>

section \<open>Little-endian digits\<close>

primrec le_bytes :: "nat \<Rightarrow> nat \<Rightarrow> bytes" where
  "le_bytes 0 v = []"
| "le_bytes (Suc n) v = of_nat (v mod 256) # le_bytes n (v div 256)"

primrec le_val :: "bytes \<Rightarrow> nat" where
  "le_val [] = 0"
| "le_val (b # bs) = unat b + 256 * le_val bs"

definition bytes_of_u32 :: "u32 \<Rightarrow> bytes" where
  "bytes_of_u32 w = le_bytes 4 (unat w)"

definition u32_of_bytes :: "bytes \<Rightarrow> u32" where
  "u32_of_bytes bs = of_nat (le_val bs)"

definition bytes_of_u64 :: "u64 \<Rightarrow> bytes" where
  "bytes_of_u64 w = le_bytes 8 (unat w)"

definition u64_of_bytes :: "bytes \<Rightarrow> u64" where
  "u64_of_bytes bs = of_nat (le_val bs)"

lemma length_le_bytes [simp]: "length (le_bytes n v) = n"
  by (induction n arbitrary: v) auto

lemma unat_of_nat_byte: "unat (of_nat (v mod 256) :: u8) = v mod 256"
  by (simp add: unat_of_nat take_bit_nat_def)

lemma le_val_bytes: "le_val (le_bytes n v) = v mod 256 ^ n"
proof (induction n arbitrary: v)
  case (Suc n)
  have "v mod (256 * 256 ^ n) = v mod 256 + 256 * (v div 256 mod 256 ^ n)"
    by (simp add: mod_mult2_eq)
  with Suc.IH show ?case by (simp only: le_bytes.simps le_val.simps unat_of_nat_byte power_Suc)
qed simp

lemma le_val_less: "le_val bs < 256 ^ length bs"
proof (induction bs)
  case (Cons b bs)
  have "unat b < 256" by (rule unat_u8_less)
  with Cons.IH show ?case by simp
qed simp

lemma le_bytes_val: "le_bytes (length bs) (le_val bs) = bs"
proof (induction bs)
  case (Cons b bs)
  have "unat b < 256" by (rule unat_u8_less)
  then have "(unat b + 256 * le_val bs) mod 256 = unat b"
    and "(unat b + 256 * le_val bs) div 256 = le_val bs" by simp_all
  with Cons.IH show ?case by simp
qed simp

section \<open>The contract of a fixed-width codec\<close>

locale fixed_codec =
  fixes enc :: "'a \<Rightarrow> bytes" and dec :: "bytes \<Rightarrow> 'a" and width :: nat
  assumes enc_length: "length (enc x) = width"
    and dec_enc: "dec (enc x) = x"
    and enc_dec: "length bs = width \<Longrightarrow> enc (dec bs) = bs"
begin

text \<open>What a reader finds at offset \<open>length pre\<close> after a writer appended there.\<close>

lemma read_back: "dec (take width (drop (length pre) (pre @ enc x @ post))) = x"
  by (simp add: enc_length dec_enc)

lemma read_front: "dec (take width (enc x @ post)) = x"
  by (simp add: enc_length dec_enc)

lemma skip_front: "drop width (enc x @ post) = post"
  by (simp add: enc_length)

lemma enc_inject: "enc x = enc y \<longleftrightarrow> x = y"
  by (metis dec_enc)

lemma split_front:
  assumes "width \<le> length bs"
  shows "bs = enc (dec (take width bs)) @ drop width bs"
  using assms enc_dec [of "take width bs"] by simp

end

interpretation u32c: fixed_codec bytes_of_u32 u32_of_bytes 4
proof
  fix x :: u32 and bs :: bytes
  show "length (bytes_of_u32 x) = 4" by (simp add: bytes_of_u32_def)
  have "unat x < 256 ^ 4" using unat_u32_less [of x] by simp
  then show "u32_of_bytes (bytes_of_u32 x) = x"
    by (simp add: bytes_of_u32_def u32_of_bytes_def le_val_bytes)
  assume len: "length bs = 4"
  then have "le_val bs < 2 ^ 32" using le_val_less [of bs] by simp
  then show "bytes_of_u32 (u32_of_bytes bs) = bs"
    using le_bytes_val [of bs] len
    by (simp add: bytes_of_u32_def u32_of_bytes_def unat_of_nat_u32)
qed

interpretation u64c: fixed_codec bytes_of_u64 u64_of_bytes 8
proof
  fix x :: u64 and bs :: bytes
  show "length (bytes_of_u64 x) = 8" by (simp add: bytes_of_u64_def)
  have "unat x < 256 ^ 8" using unat_u64_less [of x] by simp
  then show "u64_of_bytes (bytes_of_u64 x) = x"
    by (simp add: bytes_of_u64_def u64_of_bytes_def le_val_bytes)
  assume len: "length bs = 8"
  then have "le_val bs < 2 ^ 64" using le_val_less [of bs] by simp
  then show "bytes_of_u64 (u64_of_bytes bs) = bs"
    using le_bytes_val [of bs] len
    by (simp add: bytes_of_u64_def u64_of_bytes_def unat_of_nat_u64)
qed

lemmas codec_length [simp] = u32c.enc_length u64c.enc_length

section \<open>Text literals\<close>

text \<open>The bytes of a C string literal.\<close>

definition cstr :: "string \<Rightarrow> bytes" where
  "cstr s = map (\<lambda>c. of_nat (of_char c)) s"

lemma length_cstr [simp]: "length (cstr s) = length s"
  by (simp add: cstr_def)

end
