(* ===== verification/Buffer.thy ===== *)
theory Buffer
  imports Bytes
begin

text \<open>
  \<^verbatim>\<open>lib/server/buffer.cpp\<close>: the byte buffer and the tagged serialization of
  replies.  \<open>reply\<close> is the abstract reply a command produces and
  \<open>encode\<close> the wire format it promises; the \<open>out_*\<close> operations are shown to
  append exactly that encoding.
\<close>

section \<open>Tags and error codes\<close>

datatype QueryTag = TAG_NIL | TAG_ERR | TAG_STR | TAG_INT | TAG_DBL | TAG_ARR

fun tag_code :: "QueryTag \<Rightarrow> u8" where
  "tag_code TAG_NIL = 0"
| "tag_code TAG_ERR = 1"
| "tag_code TAG_STR = 2"
| "tag_code TAG_INT = 3"
| "tag_code TAG_DBL = 4"
| "tag_code TAG_ARR = 5"

datatype ErrorCode = ERR_UNKNOWN | ERR_TOO_BIG | ERR_BAD_TYP | ERR_BAD_ARG

fun err_code :: "ErrorCode \<Rightarrow> u32" where
  "err_code ERR_UNKNOWN = 1"
| "err_code ERR_TOO_BIG = 2"
| "err_code ERR_BAD_TYP = 3"
| "err_code ERR_BAD_ARG = 4"

section \<open>Buffer operations\<close>

definition buf_append :: "bytes \<Rightarrow> bytes \<Rightarrow> bytes" where
  "buf_append buf data = buf @ data"

text \<open>\<^verbatim>\<open>erase(begin, begin + n)\<close> is defined only when \<open>n\<close> bytes are there.\<close>

definition buf_consume :: "bytes \<Rightarrow> nat \<Rightarrow> bytes option" where
  "buf_consume buf n = (if n \<le> length buf then Some (drop n buf) else UB)"

definition buf_append_u8 :: "bytes \<Rightarrow> u8 \<Rightarrow> bytes" where
  "buf_append_u8 buf data = buf @ [data]"

definition buf_append_u32 :: "bytes \<Rightarrow> u32 \<Rightarrow> bytes" where
  "buf_append_u32 buf data = buf_append buf (bytes_of_u32 data)"

definition buf_append_i64 :: "bytes \<Rightarrow> i64 \<Rightarrow> bytes" where
  "buf_append_i64 buf data = buf_append buf (bytes_of_u64 data)"

definition buf_append_dbl :: "bytes \<Rightarrow> u64 \<Rightarrow> bytes" where
  "buf_append_dbl buf data = buf_append buf (bytes_of_u64 data)"

text \<open>\<^verbatim>\<open>memcpy(&buf[pos], src, n)\<close> into a buffer that holds those bytes already.\<close>

definition buf_write :: "bytes \<Rightarrow> nat \<Rightarrow> bytes \<Rightarrow> bytes option" where
  "buf_write buf pos src =
     (if pos + length src \<le> length buf
      then Some (take pos buf @ src @ drop (pos + length src) buf) else UB)"

section \<open>Serialization\<close>

definition out_nil :: "bytes \<Rightarrow> bytes" where
  "out_nil out = buf_append_u8 out (tag_code TAG_NIL)"

definition out_str :: "bytes \<Rightarrow> bytes \<Rightarrow> bytes" where
  "out_str out s =
     buf_append (buf_append_u32 (buf_append_u8 out (tag_code TAG_STR)) (of_nat (length s))) s"

definition out_int :: "bytes \<Rightarrow> i64 \<Rightarrow> bytes" where
  "out_int out val = buf_append_i64 (buf_append_u8 out (tag_code TAG_INT)) val"

definition out_dbl :: "bytes \<Rightarrow> u64 \<Rightarrow> bytes" where
  "out_dbl out val = buf_append_dbl (buf_append_u8 out (tag_code TAG_DBL)) val"

definition out_err :: "bytes \<Rightarrow> u32 \<Rightarrow> bytes \<Rightarrow> bytes" where
  "out_err out code msg =
     buf_append
       (buf_append_u32
         (buf_append_u32 (buf_append_u8 out (tag_code TAG_ERR)) code)
         (of_nat (length msg)))
       msg"

definition out_arr :: "bytes \<Rightarrow> u32 \<Rightarrow> bytes" where
  "out_arr out n = buf_append_u32 (buf_append_u8 out (tag_code TAG_ARR)) n"

definition out_begin_arr :: "bytes \<Rightarrow> bytes \<times> nat" where
  "out_begin_arr out =
     (let out = buf_append_u32 (out @ [tag_code TAG_ARR]) 0 in (out, length out - 4))"

definition out_end_arr :: "bytes \<Rightarrow> nat \<Rightarrow> u32 \<Rightarrow> bytes option" where
  "out_end_arr out ctx n = do {
     c_assert (ctx \<ge> 1);
     t \<leftarrow> arr_get out (ctx - 1);
     c_assert (t = tag_code TAG_ARR);
     buf_write out ctx (bytes_of_u32 n)
   }"

section \<open>The wire format of replies\<close>

datatype reply = VNil | VErr u32 bytes | VStr bytes | VInt i64 | VDbl u64 | VArr "reply list"

fun encode :: "reply \<Rightarrow> bytes" where
  "encode VNil = [tag_code TAG_NIL]"
| "encode (VErr c m) =
     tag_code TAG_ERR # bytes_of_u32 c @ bytes_of_u32 (of_nat (length m)) @ m"
| "encode (VStr s) = tag_code TAG_STR # bytes_of_u32 (of_nat (length s)) @ s"
| "encode (VInt v) = tag_code TAG_INT # bytes_of_u64 v"
| "encode (VDbl v) = tag_code TAG_DBL # bytes_of_u64 v"
| "encode (VArr vs) =
     tag_code TAG_ARR # bytes_of_u32 (of_nat (length vs)) @ concat (map encode vs)"

lemmas buf_defs =
  buf_append_def buf_append_u8_def buf_append_u32_def buf_append_i64_def buf_append_dbl_def

lemmas out_defs =
  out_nil_def out_str_def out_int_def out_dbl_def out_err_def out_arr_def buf_defs

lemma out_nil_encode: "out_nil out = out @ encode VNil"
  and out_str_encode: "out_str out s = out @ encode (VStr s)"
  and out_int_encode: "out_int out i = out @ encode (VInt i)"
  and out_dbl_encode: "out_dbl out d = out @ encode (VDbl d)"
  and out_err_encode: "out_err out c m = out @ encode (VErr c m)"
  by (simp_all add: out_defs)

lemma out_arr_encode:
  "out_arr out (of_nat (length vs)) @ concat (map encode vs) = out @ encode (VArr vs)"
  by (simp add: out_defs)

lemmas out_encode = out_nil_encode out_str_encode out_int_encode out_dbl_encode out_err_encode

lemma encode_nonempty: "encode v \<noteq> []"
  by (cases v) auto

text \<open>An array opened with \<open>out_begin_arr\<close>, filled with encoded replies and
  closed with their number is the encoding of the array.\<close>

lemma begin_end_arr_aux:
  assumes "out_begin_arr out = (out1, ctx)"
  shows "out_end_arr (out1 @ body) ctx n =
           Some (out @ tag_code TAG_ARR # bytes_of_u32 n @ body)"
proof -
  from assms have out1: "out1 = out @ tag_code TAG_ARR # bytes_of_u32 0"
    and ctx: "ctx = length out + 1"
    by (auto simp: out_begin_arr_def buf_defs Let_def)
  have "arr_get (out1 @ body) (ctx - 1) = Some (tag_code TAG_ARR)"
    by (simp add: out1 ctx arr_get_def nth_append)
  moreover have "buf_write (out1 @ body) ctx (bytes_of_u32 n) =
      Some (out @ tag_code TAG_ARR # bytes_of_u32 n @ body)"
    by (simp add: buf_write_def out1 ctx)
  ultimately show ?thesis by (simp add: out_end_arr_def ctx del: tag_code.simps)
qed

text \<open>Whatever replies are written between \<open>out_begin_arr\<close> and \<open>out_end_arr\<close>, closing
  the array with their number patches the reserved header in place, keeps every byte written
  before it, and yields exactly the wire encoding of the array reply; neither the assertion on
  the tag nor a buffer bound can fail.\<close>

theorem begin_end_arr:
  "(let (out1, ctx) = out_begin_arr out
    in out_end_arr (out1 @ concat (map encode vs)) ctx (of_nat (length vs)))
   = Some (out @ encode (VArr vs))"
proof (cases "out_begin_arr out")
  case (Pair out1 ctx)
  show ?thesis using begin_end_arr_aux [OF Pair] by (simp add: Pair)
qed

end
