(* ===== verification/Wire.thy ===== *)
theory Wire
  imports Buffer
begin

text \<open>
  The wire protocol on the server's side: the bounds-checked readers and the integer parsing of
  \<^verbatim>\<open>lib/utils.cpp\<close>, request parsing and response framing of
  \<^verbatim>\<open>lib/server/response.cpp\<close>.  A pair of pointers \<open>cur, end\<close> into a buffer is the list of
  the bytes between them.
\<close>

section \<open>Limits\<close>

definition K_MAX_ARGS :: nat where "K_MAX_ARGS = 200 * 1000"
definition K_MAX_MSG :: nat where "K_MAX_MSG = 4096"

section \<open>Non-blocking descriptors\<close>

definition O_NONBLOCK :: u32 where "O_NONBLOCK = 2048"

text \<open>\<^verbatim>\<open>fd_set_nb\<close>: \<open>getfl\<close> and \<open>setfl\<close> are the values of \<^verbatim>\<open>errno\<close> after the two calls of \<^verbatim>\<open>fcntl\<close>, and
  \<open>flags\<close> is what the first one returns; the result is the new flags of the descriptor, or the
  \<^verbatim>\<open>errno\<close> and the message that \<^verbatim>\<open>die\<close> reports.\<close>

definition fd_set_nb :: "int \<Rightarrow> u32 \<Rightarrow> int \<Rightarrow> int \<times> string + u32" where
  "fd_set_nb getfl flags setfl =
     (if getfl \<noteq> 0 then Inl (getfl, ''fcntl error'')
      else let flags = flags OR O_NONBLOCK
           in if setfl \<noteq> 0 then Inl (setfl, ''fcntl error'') else Inr flags)"

lemma fd_set_nb_flags: "fd_set_nb getfl flags setfl = Inr flags' \<Longrightarrow> flags' = flags OR O_NONBLOCK"
  by (auto simp: fd_set_nb_def Let_def split: if_splits)

lemma fd_set_nb_fails: "fd_set_nb getfl flags setfl = Inl e \<longleftrightarrow>
    e = (if getfl \<noteq> 0 then getfl else setfl, ''fcntl error'') \<and> (getfl \<noteq> 0 \<or> setfl \<noteq> 0)"
  by (auto simp: fd_set_nb_def Let_def)

lemma fd_set_nb_works: "fd_set_nb 0 flags 0 = Inr (flags OR O_NONBLOCK)"
  by (simp add: fd_set_nb_def Let_def)

section \<open>Bounds-checked readers (\<^verbatim>\<open>lib/utils.cpp\<close>)\<close>

text \<open>The result is \<open>None\<close> for \<^verbatim>\<open>false\<close>, otherwise the value and what is left.\<close>

definition read_u32 :: "bytes \<Rightarrow> (u32 \<times> bytes) option" where
  "read_u32 cur =
     (if length cur < 4 then None else Some (u32_of_bytes (take 4 cur), drop 4 cur))"

definition read_str :: "bytes \<Rightarrow> nat \<Rightarrow> (bytes \<times> bytes) option" where
  "read_str cur n = (if length cur < n then None else Some (take n cur, drop n cur))"

text \<open>\<^verbatim>\<open>strtoll(s, &endp, 10)\<close> on the C string \<open>s\<close>: leading white space, an optional sign and
  decimal digits; the value saturates at the ends of the range, and \<open>endp\<close> (as an offset) is the
  start of the string when there is no digit.\<close>

definition is_space :: "u8 \<Rightarrow> bool" where
  "is_space b \<longleftrightarrow> b = 32 \<or> (9 \<le> b \<and> b \<le> 13)"

definition is_digit :: "u8 \<Rightarrow> bool" where
  "is_digit b \<longleftrightarrow> 48 \<le> b \<and> b \<le> 57"

definition digit_val :: "u8 \<Rightarrow> nat" where
  "digit_val b = unat b - 48"

definition digits_val :: "bytes \<Rightarrow> nat" where
  "digits_val ds = foldl (\<lambda>n b. 10 * n + digit_val b) 0 ds"

definition c_str :: "bytes \<Rightarrow> bytes" where
  "c_str s = takeWhile (\<lambda>b. b \<noteq> 0) s"

definition i64_saturate :: "int \<Rightarrow> int" where
  "i64_saturate v = (if v < - (2 ^ 63) then - (2 ^ 63) else if v \<ge> 2 ^ 63 then 2 ^ 63 - 1 else v)"

definition split_sign :: "bytes \<Rightarrow> bool \<times> bytes" where
  "split_sign s = (case s of
     b # r \<Rightarrow> if b = 45 then (True, r) else if b = 43 then (False, r) else (False, s)
   | [] \<Rightarrow> (False, s))"

definition strtoll10 :: "bytes \<Rightarrow> int \<times> nat" where
  "strtoll10 s =
     (let (neg, r) = split_sign (dropWhile is_space s);
          ds = takeWhile is_digit r
      in if ds = [] then (0, 0)
         else (i64_saturate ((if neg then - 1 else 1) * int (digits_val ds)),
               length s - length r + length ds))"

text \<open>\<^verbatim>\<open>str2int\<close>: accepted when the whole string was consumed.\<close>

definition str2int :: "bytes \<Rightarrow> bool \<times> i64" where
  "str2int s = (let (v, endp) = strtoll10 (c_str s) in (endp = length s, of_int v))"

section \<open>Requests (\<^verbatim>\<open>lib/server/response.cpp\<close>)\<close>

text \<open>The result is the return code and the vector \<open>out\<close>.\<close>

function parse_args :: "bytes \<Rightarrow> nat \<Rightarrow> bytes list \<Rightarrow> int \<times> bytes list" where
  "parse_args data nstr out =
     (if length out < nstr then
        (case read_u32 data of
           None \<Rightarrow> (- 1, out)
         | Some (len, data) \<Rightarrow>
             (case read_str data (unat len) of
                None \<Rightarrow> (- 1, out @ [[]])
              | Some (s, data) \<Rightarrow> parse_args data nstr (out @ [s])))
      else if data \<noteq> [] then (- 1, out)
      else (0, out))"
  by pat_completeness auto
termination
  by (relation "measure (\<lambda>(data, nstr, out). nstr - length out)") auto

declare parse_args.simps [simp del]

definition parse_req :: "bytes \<Rightarrow> bytes list \<Rightarrow> int \<times> bytes list" where
  "parse_req data out = (case read_u32 data of
     None \<Rightarrow> (- 1, out)
   | Some (nstr, data) \<Rightarrow>
       if unat nstr > K_MAX_ARGS then (- 1, out) else parse_args data (unat nstr) out)"

section \<open>Response framing\<close>

definition response_begin :: "bytes \<Rightarrow> bytes \<times> nat" where
  "response_begin out = (buf_append_u32 out 0, length out)"

definition response_size :: "bytes \<Rightarrow> nat \<Rightarrow> size_t" where
  "response_size out header = of_nat (length out) - of_nat header - 4"

text \<open>\<^verbatim>\<open>out.resize(n)\<close>\<close>

definition buf_resize :: "bytes \<Rightarrow> nat \<Rightarrow> bytes" where
  "buf_resize buf n = take n buf @ replicate (n - length buf) 0"

definition response_end :: "bytes \<Rightarrow> nat \<Rightarrow> bytes option" where
  "response_end out header =
     (let msg_size = response_size out header;
          (out, msg_size) =
            (if msg_size > of_nat K_MAX_MSG then
               let out = out_err (buf_resize out (header + 4)) (err_code ERR_TOO_BIG) (cstr ''response is too big.'')
               in (out, response_size out header)
             else (out, msg_size))
      in buf_write out header (bytes_of_u32 (ucast msg_size)))"

section \<open>The request format\<close>

definition enc_args :: "bytes list \<Rightarrow> bytes" where
  "enc_args cmd = concat (map (\<lambda>s. bytes_of_u32 (of_nat (length s)) @ s) cmd)"

definition enc_req :: "bytes list \<Rightarrow> bytes" where
  "enc_req cmd = bytes_of_u32 (of_nat (length cmd)) @ enc_args cmd"

definition req_ok :: "bytes list \<Rightarrow> bool" where
  "req_ok cmd \<longleftrightarrow> length cmd \<le> K_MAX_ARGS \<and> (\<forall>s \<in> set cmd. length s < 2 ^ 32)"

lemma enc_args_simps [simp]:
  "enc_args [] = []"
  "enc_args (s # ss) = bytes_of_u32 (of_nat (length s)) @ s @ enc_args ss"
  by (simp_all add: enc_args_def)

lemma read_u32_enc [simp]: "read_u32 (bytes_of_u32 v @ rest) = Some (v, rest)"
  by (simp add: read_u32_def u32c.dec_enc)

lemma read_u32_Some: "read_u32 data = Some (v, rest) \<longleftrightarrow> data = bytes_of_u32 v @ rest"
proof
  assume "read_u32 data = Some (v, rest)"
  then have r: "4 \<le> length data" "v = u32_of_bytes (take 4 data)" "rest = drop 4 data"
    by (auto simp: read_u32_def split: if_splits)
  show "data = bytes_of_u32 v @ rest" unfolding r(2,3) by (rule u32c.split_front [OF r(1)])
qed simp

lemma read_str_Some: "read_str data n = Some (s, rest) \<longleftrightarrow> data = s @ rest \<and> length s = n"
  by (auto simp: read_str_def)

lemma parse_args_enc:
  "length out + length cmd = n \<Longrightarrow> \<forall>s \<in> set cmd. length s < 2 ^ 32 \<Longrightarrow>
   parse_args (enc_args cmd @ rest) n out = (if rest = [] then 0 else - 1, out @ cmd)"
proof (induction cmd arbitrary: out)
  case Nil
  then show ?case by (simp add: parse_args.simps)
next
  case (Cons s ss)
  have "parse_args (enc_args (s # ss) @ rest) n out = parse_args (enc_args ss @ rest) n (out @ [s])"
    using Cons.prems by (subst parse_args.simps) (simp add: unat_of_nat_u32 read_str_def)
  also have "\<dots> = (if rest = [] then 0 else - 1, (out @ [s]) @ ss)"
    by (rule Cons.IH) (use Cons.prems in auto)
  finally show ?case by simp
qed

lemma parse_args_ok:
  "parse_args data n out = (0, cmd) \<Longrightarrow> length out \<le> n \<Longrightarrow>
   \<exists>ss. cmd = out @ ss \<and> data = enc_args ss \<and> length cmd = n \<and> (\<forall>s \<in> set ss. length s < 2 ^ 32)"
proof (induction data n out rule: parse_args.induct)
  case (1 data n out)
  show ?case
  proof (cases "length out < n")
    case False
    with 1(2,3) show ?thesis by (subst (asm) parse_args.simps) (auto split: if_splits)
  next
    case True
    with 1(2) obtain len d s d' where
      r: "read_u32 data = Some (len, d)" "read_str d (unat len) = Some (s, d')"
        "parse_args d' n (out @ [s]) = (0, cmd)"
      by (subst (asm) parse_args.simps) (auto split: option.splits)
    from 1(1) [OF True r(1) refl r(2) refl r(3)] True obtain ss where
      ss: "cmd = (out @ [s]) @ ss" "d' = enc_args ss" "length cmd = n" "\<forall>s \<in> set ss. length s < 2 ^ 32"
      by auto
    have s: "data = bytes_of_u32 len @ s @ d'" "length s = unat len"
      using r(1,2) by (simp_all add: read_u32_Some read_str_Some)
    have len: "of_nat (length s) = len" "length s < 2 ^ 32"
      using unat_u32_less [of len] unfolding s(2) by simp_all
    have "data = enc_args (s # ss)" unfolding enc_args_simps len(1) using s(1) ss(2) by simp
    then show ?thesis using ss len(2) by (intro exI [of _ "s # ss"]) auto
  qed
qed

section \<open>Integers in decimal\<close>

text \<open>The decimal digits of a number, as a client writes them.\<close>

fun dec_nat :: "nat \<Rightarrow> bytes" where
  "dec_nat n = (if n < 10 then [48 + of_nat n] else dec_nat (n div 10) @ [48 + of_nat (n mod 10)])"

declare dec_nat.simps [simp del]

definition dec_int :: "int \<Rightarrow> bytes" where
  "dec_int i = (if i < 0 then 45 # dec_nat (nat (- i)) else dec_nat (nat i))"

lemma is_digit_of_nat: "d < 10 \<Longrightarrow> is_digit (48 + of_nat d) \<and> digit_val (48 + of_nat d) = d"
proof -
  assume "d < 10"
  then have "unat (48 + of_nat d :: u8) = 48 + d"
    by (simp add: unat_word_ariths unat_of_nat take_bit_nat_def)
  with \<open>d < 10\<close> show ?thesis by (simp add: is_digit_def digit_val_def word_le_nat_alt)
qed

lemma dec_nat_ok: "dec_nat n \<noteq> [] \<and> list_all is_digit (dec_nat n) \<and> digits_val (dec_nat n) = n"
proof (induction n rule: dec_nat.induct)
  case (1 n)
  then show ?case
    by (subst (1 2 3) dec_nat.simps) (auto simp: is_digit_of_nat digits_val_def)
qed

lemma not_space_digit: "is_digit b \<Longrightarrow> \<not> is_space b \<and> b \<noteq> 0 \<and> b \<noteq> 45 \<and> b \<noteq> 43"
  by (auto simp: is_digit_def is_space_def word_le_nat_alt)

lemma not_zero_space: "is_space b \<Longrightarrow> b \<noteq> 0 \<and> b \<noteq> 45 \<and> b \<noteq> 43"
  by (auto simp: is_space_def word_le_nat_alt)

lemma c_str_id: "0 \<notin> set s \<Longrightarrow> c_str s = s"
  unfolding c_str_def by (rule takeWhile_eq_all_conv [THEN iffD2]) auto

lemma c_str_length: "length (c_str s) = length s \<longleftrightarrow> 0 \<notin> set s"
proof
  assume "length (c_str s) = length s"
  then have "c_str s = s" unfolding c_str_def by (metis takeWhile_eq_take take_all_iff order_refl)
  then show "0 \<notin> set s" unfolding c_str_def by (metis set_takeWhileD)
qed (simp add: c_str_id)

definition sign_val :: "bytes \<Rightarrow> int" where
  "sign_val sg = (if sg = [45] then - 1 else 1)"

definition number_form :: "bytes \<Rightarrow> bytes \<Rightarrow> bytes \<Rightarrow> bool" where
  "number_form ws sg ds \<longleftrightarrow>
     list_all is_space ws \<and> sg \<in> {[], [45], [43]} \<and> ds \<noteq> [] \<and> list_all is_digit ds"

lemma split_sign_cases: "\<exists>sg. s = sg @ snd (split_sign s) \<and> sg \<in> {[], [45], [43]} \<and> fst (split_sign s) = (sg = [45])"
  by (cases s) (auto simp: split_sign_def)

lemma dropWhile_spaces:
  "list_all is_space ws \<Longrightarrow> r = [] \<or> \<not> is_space (hd r) \<Longrightarrow> dropWhile is_space (ws @ r) = r"
  by (induction ws) (auto simp: dropWhile_eq_self_iff)

lemma strtoll10_number:
  assumes "number_form ws sg ds"
  shows "strtoll10 (ws @ sg @ ds) = (i64_saturate (sign_val sg * int (digits_val ds)), length (ws @ sg @ ds))"
proof -
  from assms obtain d ds' where ds: "ds = d # ds'" "is_digit d" by (cases ds) (auto simp: number_form_def)
  have sp: "dropWhile is_space (ws @ sg @ ds) = sg @ ds"
    by (rule dropWhile_spaces)
      (use assms ds not_space_digit [of d] in \<open>auto simp: number_form_def is_space_def\<close>)
  have sg: "split_sign (sg @ ds) = (sg = [45], ds)"
    using assms ds not_space_digit [of d] by (auto simp: split_sign_def number_form_def)
  have tw: "takeWhile is_digit ds = ds" "ds \<noteq> []"
    using assms by (simp_all add: number_form_def takeWhile_eq_all_conv list_all_iff)
  have len: "length (ws @ sg @ ds) - length ds + length ds = length (ws @ sg @ ds)" by simp
  show ?thesis
    unfolding strtoll10_def sp sg Let_def prod.case tw(1) len sign_val_def using tw(2) by simp
qed

lemma strtoll10_all:
  assumes "snd (strtoll10 s) = length s" "s \<noteq> []"
  shows "\<exists>ws sg ds. s = ws @ sg @ ds \<and> number_form ws sg ds"
proof -
  let ?ws = "takeWhile is_space s" and ?r = "dropWhile is_space s"
  obtain sg where sg: "?r = sg @ snd (split_sign ?r)" "sg \<in> {[], [45], [43]}"
    using split_sign_cases by blast
  let ?q = "snd (split_sign ?r)"
  let ?ds = "takeWhile is_digit ?q"
  have s: "s = ?ws @ sg @ ?q" using sg(1) by (metis takeWhile_dropWhile_id)
  have ne: "?ds \<noteq> []" and len: "length s - length ?q + length ?ds = length s"
    using assms by (auto simp: strtoll10_def split_beta Let_def split: if_splits)
  have "length ?q \<le> length s" using arg_cong [OF s, of length] by simp
  with len have "length ?ds = length ?q" by simp
  then have "?ds = ?q" by (metis takeWhile_eq_take take_all_iff order_refl)
  then have "number_form ?ws sg ?q"
    using ne sg(2) by (auto simp: number_form_def list_all_iff dest: set_takeWhileD)
  with s show ?thesis by blast
qed

lemma number_form_no_zero: "number_form ws sg ds \<Longrightarrow> 0 \<notin> set (ws @ sg @ ds)"
  using not_space_digit not_zero_space by (fastforce simp: number_form_def list_all_iff)

lemma str2int_number:
  assumes "number_form ws sg ds"
  shows "str2int (ws @ sg @ ds) = (True, of_int (i64_saturate (sign_val sg * int (digits_val ds))))"
  using strtoll10_number [OF assms] c_str_id [OF number_form_no_zero [OF assms]]
  by (simp add: str2int_def)

lemma str2int_accepts:
  "fst (str2int s) \<longleftrightarrow> s = [] \<or> (\<exists>ws sg ds. s = ws @ sg @ ds \<and> number_form ws sg ds)"
proof
  assume acc: "fst (str2int s)"
  then have e: "snd (strtoll10 (c_str s)) = length s" by (simp add: str2int_def split_beta)
  have "snd (strtoll10 t) \<le> length t" for t
  proof -
    obtain sg where "dropWhile is_space t = sg @ snd (split_sign (dropWhile is_space t))"
      using split_sign_cases by blast
    then have "length (snd (split_sign (dropWhile is_space t))) \<le> length t"
      by (metis length_append length_dropWhile_le le_add2 le_trans)
    then show ?thesis
      using length_takeWhile_le [of is_digit "snd (split_sign (dropWhile is_space t))"]
      by (auto simp: strtoll10_def split_beta Let_def)
  qed
  moreover have "length (c_str s) \<le> length s" by (simp add: c_str_def length_takeWhile_le)
  ultimately have "length (c_str s) = length s" using e by (metis le_antisym)
  then have "c_str s = s" by (simp add: c_str_length c_str_id)
  then show "s = [] \<or> (\<exists>ws sg ds. s = ws @ sg @ ds \<and> number_form ws sg ds)"
    using strtoll10_all [of s] e by auto
next
  assume "s = [] \<or> (\<exists>ws sg ds. s = ws @ sg @ ds \<and> number_form ws sg ds)"
  then show "fst (str2int s)"
    by (auto simp: str2int_number) (simp add: str2int_def strtoll10_def c_str_def split_sign_def)
qed

lemma dec_int_form: "\<exists>sg ds. dec_int i = [] @ sg @ ds \<and> number_form [] sg ds \<and> sign_val sg * int (digits_val ds) = i"
proof (cases "i < 0")
  case True
  then show ?thesis using dec_nat_ok [of "nat (- i)"]
    by (intro exI [of _ "[45]"] exI [of _ "dec_nat (nat (- i))"])
      (simp add: dec_int_def number_form_def sign_val_def)
next
  case False
  then show ?thesis using dec_nat_ok [of "nat i"]
    by (intro exI [of _ "[]"] exI [of _ "dec_nat (nat i)"])
      (simp add: dec_int_def number_form_def sign_val_def)
qed

lemma str2int_dec: "str2int (dec_int i) = (True, of_int (i64_saturate i))"
  using dec_int_form [of i] str2int_number by metis

section \<open>Framing\<close>

definition frame :: "bytes \<Rightarrow> bytes" where
  "frame body = bytes_of_u32 (of_nat (length body)) @ body"

definition too_big :: bytes where
  "too_big = encode (VErr (err_code ERR_TOO_BIG) (cstr ''response is too big.''))"

lemma response_size_begin:
  "response_size (out @ bytes_of_u32 v @ body) (length out) = of_nat (length body)"
  by (simp add: response_size_def)

lemma buf_write_header:
  "buf_write (out @ bytes_of_u32 v @ body) (length out) (bytes_of_u32 w) = Some (out @ bytes_of_u32 w @ body)"
  by (simp add: buf_write_def)

lemma ucast_of_nat_u64: "(ucast (of_nat n :: u64) :: u32) = of_nat n"
  by transfer (simp add: take_bit_of_nat)

lemma response_roundtrip:
  assumes "length out + length body < 2 ^ 63"
  shows "response_end (fst (response_begin out) @ body) (snd (response_begin out)) =
           Some (out @ frame (if length body \<le> K_MAX_MSG then body else too_big))"
proof -
  have b: "fst (response_begin out) @ body = out @ bytes_of_u32 0 @ body"
    "snd (response_begin out) = length out"
    by (simp_all add: response_begin_def buf_defs)
  have big: "of_nat (length body) > (of_nat K_MAX_MSG :: size_t) \<longleftrightarrow> length body > K_MAX_MSG"
    using assms by (subst of_nat_u64_less) (auto simp: K_MAX_MSG_def)
  show ?thesis
  proof (cases "length body \<le> K_MAX_MSG")
    case True
    with big show ?thesis
      unfolding b response_end_def
      by (simp add: response_size_begin buf_write_header ucast_of_nat_u64 frame_def)
  next
    case False
    have r: "out_err (buf_resize (out @ bytes_of_u32 0 @ body) (length out + 4)) (err_code ERR_TOO_BIG) m =
        out @ bytes_of_u32 0 @ encode (VErr (err_code ERR_TOO_BIG) m)" for m
      unfolding out_err_encode by (simp add: buf_resize_def)
    show ?thesis
      unfolding b response_end_def r using False big
      by (simp add: response_size_begin buf_write_header ucast_of_nat_u64 frame_def too_big_def Let_def
          del: encode.simps)
  qed
qed

lemma parse_req_enc: "req_ok cmd \<Longrightarrow> parse_req (enc_req cmd) [] = (0, cmd)"
  using parse_args_enc [of "[]" cmd "length cmd" "[]"]
  by (simp add: parse_req_def enc_req_def req_ok_def unat_of_nat_u32 K_MAX_ARGS_def)

lemma parse_req_ok:
  assumes "parse_req data [] = (0, cmd)"
  shows "req_ok cmd \<and> data = enc_req cmd"
proof -
  from assms obtain nstr d where
    r: "read_u32 data = Some (nstr, d)" "unat nstr \<le> K_MAX_ARGS" "parse_args d (unat nstr) [] = (0, cmd)"
    by (auto simp: parse_req_def split: option.splits if_splits)
  from parse_args_ok [OF r(3)] have
    c: "d = enc_args cmd" "length cmd = unat nstr" "\<forall>s \<in> set cmd. length s < 2 ^ 32" by auto
  have "of_nat (length cmd) = nstr" unfolding c(2) by simp
  then show ?thesis using r(1,2) c by (simp add: req_ok_def enc_req_def read_u32_Some)
qed

section \<open>Properties\<close>

text \<open>C29: the request parser accepts exactly the wire format: \<open>parse_req\<close> returns 0 with the
  arguments \<open>cmd\<close> if and only if the message is their encoding, with at most \<open>K_MAX_ARGS\<close>
  arguments of less than 4 GiB; truncated counts, lengths or strings and trailing bytes are
  errors, and no encoding is read as two different commands.\<close>

theorem parse_req_iff:
  "parse_req data [] = (0, cmd) \<longleftrightarrow> req_ok cmd \<and> data = enc_req cmd"
  using parse_req_enc parse_req_ok by blast

text \<open>C34: what \<open>str2int\<close> accepts, and with which value: optional white space, an optional
  sign and decimal digits up to the end of the string, the value clamped to the range of
  \<^verbatim>\<open>int64_t\<close>; and, as the code stands, also the empty string, as 0.\<close>

theorem str2int_spec:
  "str2int s = (True, v) \<longleftrightarrow>
     s = [] \<and> v = 0 \<or>
     (\<exists>ws sg ds. s = ws @ sg @ ds \<and> number_form ws sg ds \<and>
        v = of_int (i64_saturate (sign_val sg * int (digits_val ds))))"
proof -
  have "str2int [] = (True, 0)" by (simp add: str2int_def strtoll10_def c_str_def split_sign_def)
  moreover have "str2int s = (True, v) \<longleftrightarrow> fst (str2int s) \<and> v = snd (str2int s)"
    by (cases "str2int s") auto
  ultimately show ?thesis
    using str2int_accepts [of s] str2int_number by (metis fst_conv snd_conv)
qed

text \<open>Every \<^verbatim>\<open>int64_t\<close> survives being written in decimal by a client and read by
  \<open>str2int\<close>.\<close>

theorem str2int_roundtrip:
  "str2int (dec_int (sint v)) = (True, v)"
proof -
  have "i64_saturate (sint v) = sint v"
    using i64_ok_sint [of v] unfolding i64_saturate_def i64_ok_def by auto
  then show ?thesis by (simp add: str2int_dec)
qed

text \<open>Response framing.  Between \<open>response_begin\<close> and \<open>response_end\<close> any reply may be
  appended; the result is the old output followed by a correct length header and the reply, or,
  when the reply is longer than \<open>K_MAX_MSG\<close>, by the framed \<open>ERR_TOO_BIG\<close> error instead.  So
  earlier pipelined responses stay intact, and no header announces more than 4096 bytes.\<close>

theorem response_framing:
  assumes "length out + length body < 2 ^ 63"
  shows "response_end (fst (response_begin out) @ body) (snd (response_begin out)) =
           Some (out @ frame (if length body \<le> K_MAX_MSG then body else too_big)) \<and>
         length too_big \<le> K_MAX_MSG"
proof -
  have "length too_big \<le> K_MAX_MSG" by (simp add: too_big_def K_MAX_MSG_def cstr_def)
  then show ?thesis using response_roundtrip [OF assms] by blast
qed

theorem response_framing_witness:
  "response_end (fst (response_begin [9]) @ [2]) (snd (response_begin [9])) = Some (9 # frame [2]) \<and>
   response_end (fst (response_begin [9]) @ replicate 5000 0) (snd (response_begin [9])) =
     Some (9 # frame too_big)"
  using response_framing [of "[9]" "[2]"] response_framing [of "[9]" "replicate 5000 0"]
  by (simp add: K_MAX_MSG_def)

end
