(* ===== verification/Double.thy ===== *)
theory Double
  imports Wire "HOL-Library.Log_Nat"
begin

text \<open>
  IEEE 754 binary64 values as bit patterns: the comparisons of \<^verbatim>\<open>lib/server/zset.cpp\<close> and the
  number parsing \<open>str2dbl\<close> of \<^verbatim>\<open>lib/utils.cpp\<close> with the \<^verbatim>\<open>strtod\<close> it calls.  Values other
  than NaN are ordered like the integers \<open>dbl_key\<close>.
\<close>

section \<open>Comparison\<close>

definition dbl_neg :: "u64 \<Rightarrow> bool" where
  "dbl_neg d \<longleftrightarrow> unat d \<ge> 2 ^ 63"

definition dbl_mag :: "u64 \<Rightarrow> nat" where
  "dbl_mag d = unat d mod 2 ^ 63"

definition dbl_inf :: nat where
  "dbl_inf = 2047 * 2 ^ 52"

definition dbl_isnan :: "u64 \<Rightarrow> bool" where
  "dbl_isnan d \<longleftrightarrow> dbl_mag d > dbl_inf"

definition dbl_key :: "u64 \<Rightarrow> int" where
  "dbl_key d = (if dbl_neg d then - int (dbl_mag d) else int (dbl_mag d))"

definition dbl_lt :: "u64 \<Rightarrow> u64 \<Rightarrow> bool" where
  "dbl_lt x y \<longleftrightarrow> \<not> dbl_isnan x \<and> \<not> dbl_isnan y \<and> dbl_key x < dbl_key y"

definition dbl_eq :: "u64 \<Rightarrow> u64 \<Rightarrow> bool" where
  "dbl_eq x y \<longleftrightarrow> \<not> dbl_isnan x \<and> \<not> dbl_isnan y \<and> dbl_key x = dbl_key y"

lemma dbl_less_key:
  "\<not> dbl_isnan x \<Longrightarrow> \<not> dbl_isnan y \<Longrightarrow> dbl_lt x y \<longleftrightarrow> dbl_key x < dbl_key y"
  "\<not> dbl_isnan x \<Longrightarrow> \<not> dbl_isnan y \<Longrightarrow> dbl_eq x y \<longleftrightarrow> dbl_key x = dbl_key y"
  by (simp_all add: dbl_lt_def dbl_eq_def)

section \<open>Rounding\<close>

text \<open>A magnitude is the 63 bits below the sign.  \<open>dbl_units b\<close> is the value of the finite
  magnitude \<open>b\<close> in units of the least positive double, \<open>2^-1074\<close>.\<close>

definition dbl_units :: "nat \<Rightarrow> nat" where
  "dbl_units b = (if b < 2 ^ 52 then b else (2 ^ 52 + b mod 2 ^ 52) * 2 ^ (b div 2 ^ 52 - 1))"

text \<open>Division rounded to the nearest integer, ties to even.\<close>

definition div_rne :: "nat \<Rightarrow> nat \<Rightarrow> nat" where
  "div_rne n d =
     (let q = n div d; r = n mod d in if 2 * r < d \<or> 2 * r = d \<and> even q then q else q + 1)"

text \<open>The magnitude nearest to the rational \<open>n / d\<close>: \<open>k\<close> is the number of binary digits of
  the value in units that do not fit into the 53 bits of a significand.\<close>

definition dbl_round :: "nat \<Rightarrow> nat \<Rightarrow> nat" where
  "dbl_round n d =
     (let x = n * 2 ^ 1074; k = floorlog 2 (x div d) - 53
      in min dbl_inf (k * 2 ^ 52 + div_rne x (d * 2 ^ k)))"

definition dbl_make :: "bool \<Rightarrow> nat \<Rightarrow> u64" where
  "dbl_make neg mag = of_nat (if neg then 2 ^ 63 + mag else mag)"

section \<open>\<^verbatim>\<open>strtod\<close>\<close>

text \<open>In the C locale: optional white space, an optional sign, then a decimal or hexadecimal
  number with optional fraction and exponent, an infinity or a NaN, upper or lower case.\<close>

definition lower :: "u8 \<Rightarrow> u8" where
  "lower b = (if 65 \<le> b \<and> b \<le> 90 then b + 32 else b)"

definition has_prefix :: "bytes \<Rightarrow> bytes \<Rightarrow> bool" where
  "has_prefix p s \<longleftrightarrow> map lower (take (length p) s) = p"

definition is_xdigit :: "u8 \<Rightarrow> bool" where
  "is_xdigit b \<longleftrightarrow> is_digit b \<or> (97 \<le> lower b \<and> lower b \<le> 102)"

definition xdigit_val :: "u8 \<Rightarrow> nat" where
  "xdigit_val b = (if is_digit b then digit_val b else unat (lower b) - 87)"

definition xdigits_val :: "bytes \<Rightarrow> nat" where
  "xdigits_val ds = foldl (\<lambda>n b. 16 * n + xdigit_val b) 0 ds"

text \<open>Digits with an optional point: the integer digits, the digits of the fraction, the rest.\<close>

definition split_point :: "(u8 \<Rightarrow> bool) \<Rightarrow> bytes \<Rightarrow> bytes \<times> bytes \<times> bytes" where
  "split_point digit s =
     (case dropWhile digit s of
        b # r \<Rightarrow> if b = 46 then (takeWhile digit s, takeWhile digit r, dropWhile digit r)
                  else (takeWhile digit s, [], b # r)
      | [] \<Rightarrow> (s, [], []))"

text \<open>An exponent behind the letter \<open>e\<close> or \<open>p\<close>; one without digits is not consumed.\<close>

definition split_exp :: "u8 \<Rightarrow> bytes \<Rightarrow> int \<times> bytes" where
  "split_exp letter s = (case s of
     b # r \<Rightarrow>
       (let (neg, r) = split_sign r; ds = takeWhile is_digit r
        in if lower b = letter \<and> ds \<noteq> []
           then ((if neg then - 1 else 1) * int (digits_val ds), dropWhile is_digit r) else (0, s))
   | [] \<Rightarrow> (0, []))"

text \<open>The magnitude nearest to \<open>m * base ^ e\<close>.\<close>

definition dbl_scale :: "nat \<Rightarrow> nat \<Rightarrow> int \<Rightarrow> nat" where
  "dbl_scale base m e = dbl_round (m * base ^ nat e) (base ^ nat (- e))"

text \<open>The magnitude and what follows the number; \<open>None\<close> when there is no number.\<close>

definition strtod_dec :: "bytes \<Rightarrow> (nat \<times> bytes) option" where
  "strtod_dec s =
     (let (i, f, r) = split_point is_digit s; (e, r) = split_exp 101 r
      in if i @ f = [] then None else Some (dbl_scale 10 (digits_val (i @ f)) (e - int (length f)), r))"

definition strtod_hex :: "bytes \<Rightarrow> (nat \<times> bytes) option" where
  "strtod_hex s =
     (let (i, f, r) = split_point is_xdigit s; (e, r) = split_exp 112 r
      in if i @ f = [] then None else Some (dbl_scale 2 (xdigits_val (i @ f)) (e - 4 * int (length f)), r))"

definition dbl_nan :: nat where
  "dbl_nan = dbl_inf + 2 ^ 51"

definition is_nanchar :: "u8 \<Rightarrow> bool" where
  "is_nanchar b \<longleftrightarrow> is_digit b \<or> (97 \<le> lower b \<and> lower b \<le> 122) \<or> b = 95"

definition skip_nan :: "bytes \<Rightarrow> bytes" where
  "skip_nan s = (case s of
     b # r \<Rightarrow>
       (case dropWhile is_nanchar r of
          c # r' \<Rightarrow> if b = 40 \<and> c = 41 then r' else s
        | [] \<Rightarrow> s)
   | [] \<Rightarrow> [])"

definition strtod_body :: "bytes \<Rightarrow> (nat \<times> bytes) option" where
  "strtod_body s =
     (if has_prefix (cstr ''infinity'') s then Some (dbl_inf, drop 8 s)
      else if has_prefix (cstr ''inf'') s then Some (dbl_inf, drop 3 s)
      else if has_prefix (cstr ''nan'') s then Some (dbl_nan, skip_nan (drop 3 s))
      else if has_prefix (cstr ''0x'') s \<and> strtod_hex (drop 2 s) \<noteq> None then strtod_hex (drop 2 s)
      else strtod_dec s)"

text \<open>The value and \<open>endp\<close> as an offset into \<open>s\<close>.\<close>

definition strtod :: "bytes \<Rightarrow> u64 \<times> nat" where
  "strtod s =
     (let (neg, r) = split_sign (dropWhile is_space s)
      in case strtod_body r of
           None \<Rightarrow> (0, 0)
         | Some (mag, rest) \<Rightarrow> (dbl_make neg mag, length s - length rest))"

section \<open>\<^verbatim>\<open>str2dbl\<close>\<close>

text \<open>\<open>None\<close> is \<^verbatim>\<open>false\<close>, after which no caller looks at \<open>out\<close>.\<close>

definition str2dbl :: "bytes \<Rightarrow> u64 option" where
  "str2dbl s =
     (let (out, endp) = strtod (c_str s)
      in if endp = length s \<and> \<not> dbl_isnan out then Some out else None)"

section \<open>Rounding is to the nearest\<close>

lemma div_rne_range: "div_rne n d = n div d \<or> div_rne n d = n div d + 1"
  by (simp add: div_rne_def Let_def)

lemma div_rne_nearest:
  assumes "0 < d"
  shows "\<bar>int (div_rne n d * d) - int n\<bar> \<le> \<bar>int (m * d) - int n\<bar>"
proof -
  define q r where "q = n div d" and "r = n mod d"
  have n: "n = q * d + r" "r < d" using assms by (simp_all add: q_def r_def)
  have best: "min r (d - r) \<le> nat \<bar>int (m * d) - int n\<bar>"
  proof (cases "m \<le> q")
    case True
    then have "m * d \<le> q * d" by simp
    then show ?thesis using n by linarith
  next
    case False
    then have "(q + 1) * d \<le> m * d" by (intro mult_right_mono) auto
    then have "q * d + d \<le> m * d" by simp
    then show ?thesis using n by linarith
  qed
  have "nat \<bar>int (div_rne n d * d) - int n\<bar> = min r (d - r)"
    using n by (auto simp: div_rne_def Let_def q_def [symmetric] r_def [symmetric] algebra_simps)
  then show ?thesis using best by linarith
qed

lemma dbl_units_scaled:
  assumes "q \<le> 2 ^ 53" "k = 0 \<or> 2 ^ 52 \<le> q"
  shows "dbl_units (k * 2 ^ 52 + q) = q * 2 ^ k"
proof -
  consider "q < 2 ^ 52" | "2 ^ 52 \<le> q" "q < 2 ^ 53" | "q = 2 ^ 53" using assms(1) by linarith
  then show ?thesis
  proof cases
    case 1
    then show ?thesis using assms(2) by (simp add: dbl_units_def)
  next
    case 2
    define r where "r = q - 2 ^ 52"
    have q: "q = 2 ^ 52 + r" "r < 2 ^ 52" using 2 by (auto simp: r_def)
    have "k * 2 ^ 52 + q = r + (k + 1) * 2 ^ 52" using q by simp
    moreover have "(r + (k + 1) * 2 ^ 52) div 2 ^ 52 = k + 1" "(r + (k + 1) * 2 ^ 52) mod 2 ^ 52 = r"
      using q(2) by (simp_all only: div_mult_self1 mod_mult_self1 div_less mod_less)
    ultimately show ?thesis using q by (simp add: dbl_units_def)
  next
    case 3
    have "k * 2 ^ 52 + q = (k + 2) * 2 ^ 52" using 3 by simp
    then show ?thesis using 3 by (simp add: dbl_units_def)
  qed
qed

lemma dbl_units_grid: "2 ^ k dvd dbl_units b \<or> 0 < k \<and> dbl_units b < 2 ^ 52 * 2 ^ k"
proof (cases "k = 0 \<or> k + 1 \<le> b div 2 ^ 52")
  case True
  then show ?thesis by (auto simp: dbl_units_def intro!: dvd_mult le_imp_power_dvd)
next
  case False
  then have "b div 2 ^ 52 - 1 \<le> k - 1" "0 < k" by auto
  then have "(2 ^ 52 + b mod 2 ^ 52) * 2 ^ (b div 2 ^ 52 - 1) < 2 ^ 53 * 2 ^ (k - 1)" (is "?x * 2 ^ ?e < _")
  proof -
    have "?x * 2 ^ ?e < 2 ^ 53 * 2 ^ ?e" by (intro mult_strict_right_mono) (auto intro: less_le_trans [OF add_strict_left_mono [OF mod_less_divisor]])
    also have "\<dots> \<le> 2 ^ 53 * 2 ^ (k - 1)" using \<open>?e \<le> k - 1\<close> by (intro mult_left_mono power_increasing) auto
    finally show ?thesis .
  qed
  moreover have "(2::nat) ^ 53 * 2 ^ (k - 1) = 2 ^ 52 * 2 ^ k"
    using \<open>0 < k\<close> by (cases k) auto
  moreover have "b < 2 ^ 52 \<Longrightarrow> b < 2 ^ 52 * 2 ^ k"
    by (erule less_le_trans) simp
  ultimately show ?thesis using \<open>0 < k\<close> by (auto simp: dbl_units_def)
qed

lemma floorlog_digits:
  fixes x :: nat
  assumes k: "k = floorlog 2 x - 53"
  shows "x < 2 ^ 53 * 2 ^ k" "0 < k \<Longrightarrow> 2 ^ 52 * 2 ^ k \<le> x"
proof -
  have up: "x < 2 ^ floorlog 2 x"
    using floorlog_bounds [of x 2] by (cases "x = 0") (auto simp: floorlog_def)
  have "(2::nat) ^ floorlog 2 x \<le> 2 ^ (53 + k)" unfolding k by (intro power_increasing) auto
  with up show "x < 2 ^ 53 * 2 ^ k" by (simp only: power_add)
  assume "0 < k"
  then have x: "0 < x" "floorlog 2 x - 1 = 52 + k" by (auto simp: k floorlog_def split: if_splits)
  then show "2 ^ 52 * 2 ^ k \<le> x" using floorlog_bounds [of x 2] by (simp only: power_add) 
qed

lemma dbl_round_nearest:
  assumes d: "0 < d" and fin: "dbl_round n d < dbl_inf"
  shows "\<bar>int (dbl_units (dbl_round n d) * d) - int (n * 2 ^ 1074)\<bar> \<le>
    \<bar>int (dbl_units b * d) - int (n * 2 ^ 1074)\<bar>"
proof -
  define x where "x = n * 2 ^ 1074"
  define k where "k = floorlog 2 (x div d) - 53"
  define q where "q = div_rne x (d * 2 ^ k)"
  have D: "0 < d * 2 ^ k" using d by simp
  have xdiv: "x div (d * 2 ^ k) = x div d div 2 ^ k" by (simp add: div_mult2_eq)
  have "x div (d * 2 ^ k) < 2 ^ 53"
    unfolding xdiv by (rule less_mult_imp_div_less [OF floorlog_digits(1) [OF k_def]])
  then have q1: "q \<le> 2 ^ 53" using div_rne_range [of x "d * 2 ^ k"] by (auto simp: q_def)
  have low: "2 ^ 52 * 2 ^ k \<le> x div d" if "0 < k"
    using floorlog_digits(2) [OF k_def] that by simp
  then have "2 ^ 52 \<le> x div (d * 2 ^ k)" if "0 < k"
    using that unfolding xdiv by (subst less_eq_div_iff_mult_less_eq) auto
  then have q2: "k = 0 \<or> 2 ^ 52 \<le> q" using div_rne_range [of x "d * 2 ^ k"] by (cases "k = 0") (auto simp: q_def)
  have r: "dbl_round n d = k * 2 ^ 52 + q"
    using fin by (simp add: dbl_round_def Let_def x_def k_def q_def)
  have u: "dbl_units (dbl_round n d) = q * 2 ^ k" unfolding r by (rule dbl_units_scaled [OF q1 q2])
  have near: "\<bar>int (q * 2 ^ k * d) - int x\<bar> \<le> \<bar>int (m * 2 ^ k * d) - int x\<bar>" for m
    using div_rne_nearest [OF D, of x m] by (simp add: q_def ac_simps)
  from dbl_units_grid [of k b] show ?thesis unfolding u x_def [symmetric]
  proof
    assume "2 ^ k dvd dbl_units b"
    then obtain m where "dbl_units b = 2 ^ k * m" by blast
    then show "\<bar>int (q * 2 ^ k * d) - int x\<bar> \<le> \<bar>int (dbl_units b * d) - int x\<bar>"
      using near [of m] by (simp add: ac_simps)
  next
    assume b: "0 < k \<and> dbl_units b < 2 ^ 52 * 2 ^ k"
    have "2 ^ 52 * 2 ^ k * d \<le> x"
      using mult_right_mono [OF low, of d] b by (metis div_times_less_eq_dividend le_trans zero_le)
    moreover have "dbl_units b * d \<le> 2 ^ 52 * 2 ^ k * d" using b by (intro mult_right_mono) auto
    ultimately show "\<bar>int (q * 2 ^ k * d) - int x\<bar> \<le> \<bar>int (dbl_units b * d) - int x\<bar>"
      using near [of "2 ^ 52"] by linarith
  qed
qed

section \<open>What \<open>str2dbl\<close> accepts\<close>

lemma dbl_round_le: "dbl_round n d \<le> dbl_inf"
  by (simp add: dbl_round_def Let_def)

lemma dbl_make_bits:
  assumes "mag < 2 ^ 63"
  shows "dbl_mag (dbl_make neg mag) = mag" "dbl_neg (dbl_make neg mag) = neg"
proof -
  have "unat (dbl_make neg mag) = (if neg then 2 ^ 63 + mag else mag)"
    using assms by (simp add: dbl_make_def unat_of_nat take_bit_nat_eq_self_iff)
  then show "dbl_mag (dbl_make neg mag) = mag" "dbl_neg (dbl_make neg mag) = neg"
    using assms by (auto simp: dbl_mag_def dbl_neg_def)
qed

lemma dbl_make_nan: "mag \<le> dbl_inf \<Longrightarrow> \<not> dbl_isnan (dbl_make neg mag)"
  using dbl_make_bits(1) [of mag neg] by (simp add: dbl_isnan_def dbl_inf_def)

definition point_form :: "bytes \<Rightarrow> bytes \<Rightarrow> bool" where
  "point_form pt f \<longleftrightarrow> list_all is_digit f \<and> (pt = 46 # f \<or> pt = [] \<and> f = [])"

definition exp_form :: "bytes \<Rightarrow> int \<Rightarrow> bool" where
  "exp_form ex e \<longleftrightarrow> ex = [] \<and> e = 0 \<or>
     (\<exists>l sg ds. ex = l # sg @ ds \<and> l \<in> {69, 101} \<and> sg \<in> {[], [45], [43]} \<and> ds \<noteq> [] \<and>
        list_all is_digit ds \<and> e = sign_val sg * int (digits_val ds))"

lemma digits_all [simp]: "list_all p xs \<Longrightarrow> takeWhile p xs = xs" "list_all p xs \<Longrightarrow> dropWhile p xs = []"
  by (induction xs) auto

lemma takeWhile_digits: "list_all p xs \<Longrightarrow> takeWhile p (xs @ ys) = xs @ takeWhile p ys"
    "list_all p xs \<Longrightarrow> dropWhile p (xs @ ys) = dropWhile p ys"
  by (induction xs) auto

lemma is_digit_not [simp]: "\<not> is_digit 46" "\<not> is_digit 69" "\<not> is_digit 101" "\<not> is_digit 45" "\<not> is_digit 43"
  by (simp_all add: is_digit_def)

lemma exp_form_head: "exp_form ex e \<Longrightarrow> ex = [] \<or> hd ex \<in> {69, 101}"
  by (auto simp: exp_form_def)

lemma split_exp_form:
  assumes "exp_form ex e"
  shows "split_exp 101 ex = (e, [])"
proof (cases "ex = []")
  case False
  then obtain l sg ds where x: "ex = l # sg @ ds" "l \<in> {69, 101}" "sg \<in> {[], [45], [43]}" "ds \<noteq> []"
      "list_all is_digit ds" "e = sign_val sg * int (digits_val ds)"
    using assms by (auto simp: exp_form_def)
  obtain d ds' where ds: "ds = d # ds'" "is_digit d" using x(4,5) by (cases ds) auto
  then have "d \<noteq> 45" "d \<noteq> 43" by auto
  then have "split_sign (sg @ ds) = (sg = [45], ds)" using x(3) ds by (auto simp: split_sign_def)
  then show ?thesis using x by (auto simp: split_exp_def lower_def sign_val_def)
qed (use assms in \<open>auto simp: exp_form_def split_exp_def\<close>)

lemma split_point_form:
  assumes "list_all is_digit i" "point_form pt f" "ex = [] \<or> hd ex \<in> {69, 101}"
  shows "split_point is_digit (i @ pt @ ex) = (i, f, ex)"
proof -
  have ex: "takeWhile is_digit ex = []" "dropWhile is_digit ex = ex" using assms(3) by (cases ex; auto)+
  consider "pt = 46 # f" "list_all is_digit f" | "pt = []" "f = []" using assms(2) by (auto simp: point_form_def)
  then show ?thesis
  proof cases
    case 1
    then show ?thesis using assms(1) ex by (simp add: split_point_def takeWhile_digits)
  next
    case 2
    then show ?thesis using assms(1,3) ex
      by (cases ex) (auto simp: split_point_def takeWhile_digits)
  qed
qed

lemma strtod_dec_form:
  assumes "list_all is_digit i" "point_form pt f" "exp_form ex e" "i @ f \<noteq> []"
  shows "strtod_dec (i @ pt @ ex) = Some (dbl_scale 10 (digits_val (i @ f)) (e - int (length f)), [])"
  using split_point_form [OF assms(1,2) exp_form_head [OF assms(3)]] split_exp_form [OF assms(3)] assms(4)
  by (simp add: strtod_dec_def)

lemma lower_digit: "is_digit b \<Longrightarrow> lower b = b"
  by (auto simp: is_digit_def lower_def word_le_nat_alt)

lemma strtod_body_dec:
  assumes "is_digit b \<or> b = 46" "r = [] \<or> lower (hd r) \<noteq> 120"
  shows "strtod_body (b # r) = strtod_dec (b # r)"
proof -
  have b: "lower b = b" "b \<noteq> 105" "b \<noteq> 110"
    using assms(1) by (auto simp: lower_digit lower_def is_digit_def word_le_nat_alt)
  then show ?thesis using assms(2) by (cases r) (auto simp: strtod_body_def has_prefix_def cstr_def)
qed

lemma strtod_body_form:
  assumes "list_all is_digit i" "point_form pt f" "exp_form ex e" "i @ f \<noteq> []"
  shows "strtod_body (i @ pt @ ex) = Some (dbl_scale 10 (digits_val (i @ f)) (e - int (length f)), [])"
proof -
  obtain b r where br: "i @ pt @ ex = b # r" using assms(2,4) by (cases i) (auto simp: point_form_def)
  have form: "\<forall>c \<in> set (i @ pt). is_digit c \<or> c = 46"
    using assms(1,2) by (auto simp: point_form_def list_all_iff)
  have "is_digit b \<or> b = 46" using form br assms(2,4) by (cases i) (auto simp: point_form_def)
  moreover have "r = [] \<or> lower (hd r) \<noteq> 120"
  proof -
    have ok: "c = 46 \<or> is_digit c \<or> c \<in> {69, 101} \<Longrightarrow> lower c \<noteq> 120" for c
      by (auto simp: lower_digit lower_def) (auto simp: is_digit_def)
    have "r = [] \<or> hd r \<in> set (i @ pt) \<union> {69, 101}"
    proof (cases "tl (i @ pt) = []")
      case True
      then have "r = ex" using br assms(2,4) by (cases i) (auto simp: point_form_def)
      then show ?thesis using exp_form_head [OF assms(3)] by auto
    next
      case False
      then have "hd r = hd (tl (i @ pt))" "hd (tl (i @ pt)) \<in> set (tl (i @ pt))"
        using br by (cases "i @ pt"; auto simp flip: append_assoc)+
      then show ?thesis using list.set_sel(2) [of "i @ pt"] False by (metis UnCI list.sel(2))
    qed
    then show ?thesis using ok form by blast
  qed
  ultimately have "strtod_body (i @ pt @ ex) = strtod_dec (i @ pt @ ex)" unfolding br by (rule strtod_body_dec)
  then show ?thesis using strtod_dec_form [OF assms] by simp
qed

lemma str2dbl_form:
  assumes "list_all is_space ws" "sg \<in> {[], [45], [43]}"
    and num: "list_all is_digit i" "point_form pt f" "exp_form ex e" "i @ f \<noteq> []"
  shows "str2dbl (ws @ sg @ i @ pt @ ex) =
    Some (dbl_make (sg = [45]) (dbl_scale 10 (digits_val (i @ f)) (e - int (length f))))"
proof -
  let ?n = "i @ pt @ ex" and ?m = "dbl_scale 10 (digits_val (i @ f)) (e - int (length f))"
  obtain b r where br: "?n = b # r" using num(2,4) by (cases i) (auto simp: point_form_def)
  have b: "is_digit b \<or> b = 46" using br num by (cases i) (auto simp: point_form_def)
  then have nb: "\<not> is_space b" "b \<noteq> 45" "b \<noteq> 43" using not_space_digit [of b] by (auto simp: is_space_def)
  have sp: "dropWhile is_space (ws @ sg @ ?n) = sg @ ?n"
    by (rule dropWhile_spaces [OF assms(1)]) (use assms(2) br nb in \<open>auto simp: is_space_def\<close>)
  have sg: "split_sign (sg @ ?n) = (sg = [45], ?n)"
    using assms(2) nb unfolding br by (auto simp: split_sign_def)
  have "0 \<notin> set (ws @ sg @ ?n)"
  proof -
    have z: "\<not> is_digit 0" by (simp add: is_digit_def)
    then have "list_all is_digit ds \<Longrightarrow> 0 \<notin> set ds" for ds by (auto simp: list_all_iff)
    then have "0 \<notin> set ex" "0 \<notin> set (i @ pt)"
      using num(1,2,3) by (auto simp: exp_form_def point_form_def)
    then show ?thesis using assms(1,2) by (auto simp: list_all_iff is_space_def)
  qed
  then have c: "c_str (ws @ sg @ ?n) = ws @ sg @ ?n" by (rule c_str_id)
  have "strtod (ws @ sg @ ?n) = (dbl_make (sg = [45]) ?m, length (ws @ sg @ ?n))"
    unfolding strtod_def sp sg using strtod_body_form [OF num] by simp
  then show ?thesis unfolding str2dbl_def c
    using dbl_make_nan [OF dbl_round_le] by (simp add: dbl_scale_def)
qed

lemma str2dbl_not_nan: "str2dbl s = Some d \<Longrightarrow> \<not> dbl_isnan d"
  by (auto simp: str2dbl_def Let_def split: prod.splits if_splits)

text \<open>The distance from \<open>m * 10 ^ e\<close> to a finite magnitude, scaled by the denominator of the
  number and in units of the least positive double.\<close>

definition dbl_dist :: "nat \<Rightarrow> int \<Rightarrow> nat \<Rightarrow> int" where
  "dbl_dist m e b = \<bar>int (dbl_units b * 10 ^ nat (- e)) - int (m * 10 ^ nat e * 2 ^ 1074)\<bar>"

lemma dbl_scale_nearest:
  "dbl_scale 10 m e < dbl_inf \<Longrightarrow> dbl_dist m e (dbl_scale 10 m e) \<le> dbl_dist m e b"
  unfolding dbl_dist_def dbl_scale_def by (rule dbl_round_nearest) simp_all



text \<open>Like \<open>str2int\<close>, it takes the empty string for zero.\<close>

lemma str2dbl_empty: "str2dbl [] = Some 0"
  by (simp add: str2dbl_def c_str_def strtod_def split_sign_def strtod_body_def has_prefix_def cstr_def
    strtod_dec_def split_point_def split_exp_def dbl_isnan_def dbl_mag_def)



end
