(* ===== verification/ZSet.thy ===== *)
theory ZSet
  imports Avl HashTable Double "HOL-Library.List_Lexorder"
begin

text \<open>
  \<^verbatim>\<open>lib/server/zset.cpp\<close>: sorted sets, indexed by an AVL tree ordered by (score, name) and by a
  hash table on the name.  A \<^verbatim>\<open>ZNode\<close> at address \<open>a\<close> is the tree node at \<open>a\<close>, the hash
  node at \<open>a\<close> and the payload at \<open>a\<close> of three stores, so that \<^verbatim>\<open>container_of\<close> keeps the
  address.  The second half abstracts a sorted set to the tree of its nodes and to its map from names to scores
  (\<open>zset_ok\<close>) and shows what every operation does to them.
\<close>

section \<open>Data\<close>

record zpayload =
  zscore :: u64
  zname :: bytes

record zmem =
  ztree :: aheap
  zhash :: hheap
  zdata :: "addr \<rightharpoonup> zpayload"
  zbrk :: addr      \<comment> \<open>the allocator: no address from \<open>zbrk\<close> on is in use\<close>

record zset =
  root :: ptr
  zhmap :: hmap

definition empty_zset :: zset where
  "empty_zset = \<lparr>root = NULL, zhmap = empty_hmap\<rparr>"

section \<open>Operations\<close>

text \<open>The allocated tree node is overwritten by \<open>avl_init\<close>, so its initial contents do not
  matter.\<close>

definition znode_new :: "zmem \<Rightarrow> bytes \<Rightarrow> u64 \<Rightarrow> (addr \<times> zmem) option" where
  "znode_new m name score = do {
     let node = zbrk m;
     t \<leftarrow> avl_init ((ztree m)(node \<mapsto> \<lparr>a_parent = NULL, a_left = NULL, a_right = NULL,
       a_height = 0, a_cnt = 0\<rparr>)) (Some node);
     Some (node, m\<lparr>
       ztree := t,
       zhash := (zhash m)(node \<mapsto> \<lparr>hnext = NULL, hcode = str_hash name\<rparr>),
       zdata := (zdata m)(node \<mapsto> \<lparr>zscore = score, zname = name\<rparr>),
       zbrk := node + 1\<rparr>)
   }"

text \<open>\<^verbatim>\<open>free\<close>: the node is in no store any more.\<close>

definition znode_del :: "zmem \<Rightarrow> addr \<Rightarrow> zmem" where
  "znode_del m node = m\<lparr>ztree := (ztree m)(node := None), zhash := (zhash m)(node := None),
     zdata := (zdata m)(node := None)\<rparr>"

text \<open>\<^verbatim>\<open>memcmp\<close> on the first \<open>n\<close> bytes: the sign of the first difference.\<close>

fun memcmp :: "nat \<Rightarrow> bytes \<Rightarrow> bytes \<Rightarrow> int" where
  "memcmp (Suc n) (x # xs) (y # ys) = (if x = y then memcmp n xs ys else if x < y then - 1 else 1)"
| "memcmp n xs ys = 0"

definition zless :: "zmem \<Rightarrow> addr \<Rightarrow> u64 \<Rightarrow> bytes \<Rightarrow> bool option" where
  "zless m lhs score name = do {
     zl \<leftarrow> zdata m lhs;
     Some (if \<not> dbl_eq (zscore zl) score then dbl_lt (zscore zl) score
           else
             let rv = memcmp (min (length (zname zl)) (length name)) (zname zl) name
             in if rv \<noteq> 0 then rv < 0 else length (zname zl) < length name)
   }"

definition zless_node :: "zmem \<Rightarrow> addr \<Rightarrow> addr \<Rightarrow> bool option" where
  "zless_node m lhs rhs = do { zr \<leftarrow> zdata m rhs; zless m lhs (zscore zr) (zname zr) }"

text \<open>The tree search follows a pointer to a pointer: \<open>Local\<close> is \<^verbatim>\<open>&zset->root\<close>.\<close>

definition tslot_get :: "zmem \<Rightarrow> zset \<Rightarrow> slot \<Rightarrow> ptr option" where
  "tslot_get m z from = (case from of
     Local \<Rightarrow> Some (root z)
   | LeftOf p \<Rightarrow> map_option a_left (deref (ztree m) p)
   | RightOf p \<Rightarrow> map_option a_right (deref (ztree m) p))"

partial_function (option) tree_search ::
  "zmem \<Rightarrow> zset \<Rightarrow> addr \<Rightarrow> slot \<Rightarrow> ptr \<Rightarrow> (slot \<times> ptr) option" where
  "tree_search m z node from parent = do {
     cur \<leftarrow> tslot_get m z from;
     (case cur of
        None \<Rightarrow> Some (from, parent)
      | Some p \<Rightarrow> do {
          less \<leftarrow> zless_node m node p;
          tree_search m z node (if less then LeftOf cur else RightOf cur) cur
        })
   }"

definition tree_insert :: "zmem \<Rightarrow> zset \<Rightarrow> addr \<Rightarrow> (zmem \<times> zset) option" where
  "tree_insert m z node = do {
     (from, parent) \<leftarrow> tree_search m z node Local NULL;
     (r, t) \<leftarrow> slot_set (ztree m) from (root z) (Some node);
     t \<leftarrow> assign t (Some node) (a_parent_update (\<lambda>_. parent));
     (r, t) \<leftarrow> avl_fix t (Some node);
     Some (m\<lparr>ztree := t\<rparr>, z\<lparr>root := r\<rparr>)
   }"

definition zset_update :: "zmem \<Rightarrow> zset \<Rightarrow> addr \<Rightarrow> u64 \<Rightarrow> (zmem \<times> zset) option" where
  "zset_update m z node score = do {
     zn \<leftarrow> zdata m node;
     if dbl_eq (zscore zn) score then Some (m, z)
     else do {
       (r, t) \<leftarrow> avl_del (ztree m) (Some node);
       let z = z\<lparr>root := r\<rparr>;
       t \<leftarrow> avl_init t (Some node);
       let m = m\<lparr>ztree := t\<rparr>;
       let m = m\<lparr>zdata := (zdata m)(node \<mapsto> zn\<lparr>zscore := score\<rparr>)\<rparr>;
       tree_insert m z node
     }
   }"

definition hcmp :: "zmem \<Rightarrow> bytes \<Rightarrow> addr \<Rightarrow> bool option" where
  "hcmp m name node = do {
     zn \<leftarrow> zdata m node;
     Some (if length (zname zn) \<noteq> length name then False
           else memcmp (length (zname zn)) (zname zn) name = 0)
   }"

definition zset_lookup :: "zmem \<Rightarrow> zset \<Rightarrow> bytes \<Rightarrow> (ptr \<times> zmem \<times> zset) option" where
  "zset_lookup m z name =
     (if root z = NULL then Some (NULL, m, z)
      else do {
        (found, h, hm) \<leftarrow> hm_lookup (zhash m) (zhmap z) (str_hash name) (hcmp m name);
        Some (found, m\<lparr>zhash := h\<rparr>, z\<lparr>zhmap := hm\<rparr>)
      })"

definition zset_insert :: "zmem \<Rightarrow> zset \<Rightarrow> bytes \<Rightarrow> u64 \<Rightarrow> (bool \<times> zmem \<times> zset) option" where
  "zset_insert m z name score = do {
     (node, m, z) \<leftarrow> zset_lookup m z name;
     (case node of
        Some node \<Rightarrow> do {
          (m, z) \<leftarrow> zset_update m z node score;
          Some (False, m, z)
        }
      | None \<Rightarrow> do {
          (node, m) \<leftarrow> znode_new m name score;
          (h, hm) \<leftarrow> hm_insert (zhash m) (zhmap z) node;
          let m = m\<lparr>zhash := h\<rparr>;
          let z = z\<lparr>zhmap := hm\<rparr>;
          (m, z) \<leftarrow> tree_insert m z node;
          Some (True, m, z)
        })
   }"

definition zset_delete :: "zmem \<Rightarrow> zset \<Rightarrow> addr \<Rightarrow> (zmem \<times> zset) option" where
  "zset_delete m z node = do {
     hn \<leftarrow> zhash m node;
     zn \<leftarrow> zdata m node;
     (found, h, hm) \<leftarrow> hm_delete (zhash m) (zhmap z) (hcode hn) (hcmp m (zname zn));
     let m = m\<lparr>zhash := h\<rparr>;
     let z = z\<lparr>zhmap := hm\<rparr>;
     c_assert (found \<noteq> NULL);
     (r, t) \<leftarrow> avl_del (ztree m) (Some node);
     let m = m\<lparr>ztree := t\<rparr>;
     Some (znode_del m node, z\<lparr>root := r\<rparr>)
   }"

partial_function (option) seekge_loop ::
  "zmem \<Rightarrow> u64 \<Rightarrow> bytes \<Rightarrow> ptr \<Rightarrow> ptr \<Rightarrow> ptr option" where
  "seekge_loop m score name node found = (case node of
     None \<Rightarrow> Some found
   | Some a \<Rightarrow> do {
       less \<leftarrow> zless m a score name;
       n \<leftarrow> ztree m a;
       if less then seekge_loop m score name (a_right n) found
       else seekge_loop m score name (a_left n) node
     })"

definition zset_seekge :: "zmem \<Rightarrow> zset \<Rightarrow> u64 \<Rightarrow> bytes \<Rightarrow> ptr option" where
  "zset_seekge m z score name = seekge_loop m score name (root z) NULL"

definition znode_offset :: "zmem \<Rightarrow> ptr \<Rightarrow> i64 \<Rightarrow> ptr option" where
  "znode_offset m node offset =
     (if node \<noteq> NULL then avl_offset (ztree m) node offset else Some NULL)"

partial_function (option) tree_dispose :: "zmem \<Rightarrow> ptr \<Rightarrow> zmem option" where
  "tree_dispose m node = (case node of
     None \<Rightarrow> Some m
   | Some a \<Rightarrow> do {
       n \<leftarrow> ztree m a;
       m \<leftarrow> tree_dispose m (a_left n);
       n \<leftarrow> ztree m a;
       m \<leftarrow> tree_dispose m (a_right n);
       Some (znode_del m a)
     })"

definition zset_clear :: "zmem \<Rightarrow> zset \<Rightarrow> (zmem \<times> zset) option" where
  "zset_clear m z = do {
     let z = z\<lparr>zhmap := hm_clear (zhmap z)\<rparr>;
     m \<leftarrow> tree_dispose m (root z);
     Some (m, z\<lparr>root := NULL\<rparr>)
   }"

section \<open>The order of the nodes\<close>

text \<open>The (score, name) tuple, with the score as its order key.\<close>

datatype zkey = ZKey int bytes

instantiation zkey :: linorder
begin

fun less_zkey :: "zkey \<Rightarrow> zkey \<Rightarrow> bool" where
  "ZKey s m < ZKey t n \<longleftrightarrow> s < t \<or> s = t \<and> m < n"

definition less_eq_zkey :: "zkey \<Rightarrow> zkey \<Rightarrow> bool" where
  "x \<le> y \<longleftrightarrow> x < y \<or> x = (y :: zkey)"

instance
proof
  fix x y z :: zkey
  show "x < y \<longleftrightarrow> x \<le> y \<and> \<not> y \<le> x"
    by (cases x; cases y) (auto simp: less_eq_zkey_def)
  show "x \<le> x" by (simp add: less_eq_zkey_def)
  show "x \<le> z" if "x \<le> y" "y \<le> z"
    using that by (cases x; cases y; cases z) (auto simp: less_eq_zkey_def)
  show "x = y" if "x \<le> y" "y \<le> x"
    using that by (cases x; cases y) (auto simp: less_eq_zkey_def)
  show "x \<le> y \<or> y \<le> x"
    by (cases x; cases y) (auto simp: less_eq_zkey_def)
qed

end

lemma memcmp_less:
  "(let rv = memcmp (min (length x) (length y)) x y in if rv \<noteq> 0 then rv < 0 else length x < length y)
    \<longleftrightarrow> x < y"
proof (induction x arbitrary: y)
  case Nil
  show ?case by (cases y) auto
next
  case (Cons a x)
  show ?case
  proof (cases y)
    case (Cons b y')
    then show ?thesis using Cons.IH [of y'] by (auto simp: Let_def)
  qed simp
qed

lemma memcmp_refl [simp]: "memcmp n x x = 0"
proof (induction n arbitrary: x)
  case (Suc n)
  then show ?case by (cases x) auto
qed simp

lemma memcmp_eq: "length x = length y \<Longrightarrow> memcmp (length x) x y = 0 \<longleftrightarrow> x = y"
proof (induction x arbitrary: y)
  case (Cons a x)
  then show ?case by (cases y) auto
qed simp

definition zkey_of :: "zpayload \<Rightarrow> zkey" where
  "zkey_of p = ZKey (dbl_key (zscore p)) (zname p)"

text \<open>The payload of a node that is known to have one.\<close>

definition zpay :: "zmem \<Rightarrow> addr \<Rightarrow> zpayload" where
  "zpay m a = the (zdata m a)"

definition znode_ok :: "zmem \<Rightarrow> addr \<Rightarrow> bool" where
  "znode_ok m a \<longleftrightarrow> (\<exists>p. zdata m a = Some p \<and> \<not> dbl_isnan (zscore p))"

lemma znode_okD: "znode_ok m a \<Longrightarrow> zdata m a = Some (zpay m a) \<and> \<not> dbl_isnan (zscore (zpay m a))"
  by (auto simp: znode_ok_def zpay_def)

abbreviation nkey :: "zmem \<Rightarrow> addr \<Rightarrow> zkey" where
  "nkey m a \<equiv> zkey_of (zpay m a)"

lemma zless_key:
  assumes "znode_ok m a" "\<not> dbl_isnan s"
  shows "zless m a s n = Some (nkey m a < ZKey (dbl_key s) n)"
  using znode_okD [OF assms(1)] assms(2) memcmp_less [of "zname (zpay m a)" n]
  by (auto simp: zless_def zkey_of_def dbl_less_key)

lemma zless_node_key:
  assumes "znode_ok m a" "znode_ok m b"
  shows "zless_node m a b = Some (nkey m a < nkey m b)"
  using znode_okD [OF assms(2)] zless_key [OF assms(1)] by (simp add: zless_node_def zkey_of_def)

lemma hcmp_name: "znode_ok m a \<Longrightarrow> hcmp m name a = Some (zname (zpay m a) = name)"
  using znode_okD [of m a] memcmp_eq [of "zname (zpay m a)" name] by (auto simp: hcmp_def)

section \<open>Searching the tree\<close>

text \<open>An ordered tree: the nodes in inorder have strictly increasing keys.\<close>

definition ordered :: "(addr \<Rightarrow> 'k :: linorder) \<Rightarrow> addr list \<Rightarrow> bool" where
  "ordered key xs \<longleftrightarrow> sorted_wrt (\<lambda>x y. key x < key y) xs"

lemma ordered_append:
  "ordered key (xs @ ys) \<longleftrightarrow> ordered key xs \<and> ordered key ys \<and> (\<forall>x \<in> set xs. \<forall>y \<in> set ys. key x < key y)"
  by (simp add: ordered_def sorted_wrt_append)

lemma ordered_Cons: "ordered key (x # xs) \<longleftrightarrow> (\<forall>y \<in> set xs. key x < key y) \<and> ordered key xs"
  by (simp add: ordered_def)

lemma ordered_Nil [simp]: "ordered key []"
  by (simp add: ordered_def)

lemma ordered_mid: "ordered key (xs @ ys @ zs) \<Longrightarrow> ordered key ys"
  by (simp add: ordered_append)

lemma ordered_cong: "\<forall>x \<in> set xs. key' x = key x \<Longrightarrow> ordered key xs \<Longrightarrow> ordered key' xs"
  unfolding ordered_def by (rule sorted_wrt_mono_rel) auto

lemma ordered_remove1: "ordered key xs \<Longrightarrow> ordered key (remove1 a xs)"
  by (induction xs) (auto simp: ordered_Cons dest: set_remove1_subset [THEN subsetD])

lemma tslot_get_at:
  assumes "avl_at (ztree m) NULL (plug c t)" "root z = rt (plug c t)"
  shows "tslot_get m z (from_of c) = Some (rt t)"
  using assms by (cases c rule: par_of.cases) (auto simp: tslot_get_def avl_at_plug_iff)

text \<open>The search ends at the empty child pointer where the new node belongs.\<close>

lemma tree_search_at:
  assumes "avl_at (ztree m) NULL (plug c t)" "root z = rt (plug c t)"
    and "ordered (nkey m) (inorder (plug c t))" "\<forall>x \<in> set_tree t. znode_ok m x"
    and "znode_ok m a" "\<forall>x \<in> set_tree t. nkey m x \<noteq> nkey m a"
    and "\<forall>x \<in> set (ctx_pre c). nkey m x < nkey m a" "\<forall>x \<in> set (ctx_post c). nkey m a < nkey m x"
  shows "\<exists>c'. tree_search m z a (from_of c) (par_of c) = Some (from_of c', par_of c') \<and>
           plug c' Leaf = plug c t \<and>
           (\<forall>x \<in> set (ctx_pre c'). nkey m x < nkey m a) \<and> (\<forall>x \<in> set (ctx_post c'). nkey m a < nkey m x)"
  using assms
proof (induction t arbitrary: c)
  case Leaf
  have "tree_search m z a (from_of c) (par_of c) = Some (from_of c, par_of c)"
    using tslot_get_at [OF Leaf(1,2)] by (subst tree_search.simps) simp
  with Leaf show ?case by blast
next
  case (Node l x r)
  have get: "tslot_get m z (from_of c) = Some (Some x)" using tslot_get_at [OF Node.prems(1,2)] by simp
  have less: "zless_node m a x = Some (nkey m a < nkey m x)"
    using zless_node_key Node.prems(4,5) by simp
  have ord: "ordered (nkey m) (inorder l @ x # inorder r)"
    by (rule ordered_mid [of _ "ctx_pre c" _ "ctx_post c"])
      (use Node.prems(3) in \<open>simp add: inorder_plug ctx_inorder_split\<close>)
  show ?case
  proof (cases "nkey m a < nkey m x")
    case True
    have "tree_search m z a (from_of c) (par_of c) =
        tree_search m z a (from_of (InLeft x r # c)) (par_of (InLeft x r # c))"
      using get less True by (subst tree_search.simps) simp
    moreover have "\<forall>y \<in> set (ctx_post (InLeft x r # c)). nkey m a < nkey m y"
      using True ord Node.prems(8) by (auto simp: ordered_append ordered_Cons)
    ultimately show ?thesis using Node.IH(1) [of "InLeft x r # c"] Node.prems by simp
  next
    case False
    then have gt: "nkey m x < nkey m a" using Node.prems(6) by (simp add: neq_iff)
    have "tree_search m z a (from_of c) (par_of c) =
        tree_search m z a (from_of (InRight l x # c)) (par_of (InRight l x # c))"
      using get less False by (subst tree_search.simps) simp
    moreover have "\<forall>y \<in> set (ctx_pre (InRight l x # c)). nkey m y < nkey m a"
      using gt ord Node.prems(7) by (auto simp: ordered_append ordered_Cons)
    ultimately show ?thesis using Node.IH(2) [of "InRight l x # c"] Node.prems by simp
  qed
qed

text \<open>The index on (score, name): a balanced, ordered tree of nodes with payloads.\<close>

definition ztree_ok :: "zmem \<Rightarrow> ptr \<Rightarrow> addr tree \<Rightarrow> bool" where
  "ztree_ok m r t \<longleftrightarrow> avl_tree (ztree m) r t \<and> ordered (nkey m) (inorder t) \<and>
     (\<forall>x \<in> set_tree t. znode_ok m x)"

abbreviation fresh_avl :: avlnode where
  "fresh_avl \<equiv> \<lparr>a_parent = NULL, a_left = NULL, a_right = NULL, a_height = 1, a_cnt = 1\<rparr>"

lemma tree_insert_at:
  assumes t: "ztree_ok m (root z) t" and n: "ztree m a = Some fresh_avl" "znode_ok m a"
    and a: "a \<notin> set_tree t" "\<forall>x \<in> set_tree t. nkey m x \<noteq> nkey m a" and sz: "size t + 1 < 2 ^ 31"
  obtains r h t' where
    "tree_insert m z a = Some (m\<lparr>ztree := h\<rparr>, z\<lparr>root := r\<rparr>)" "ztree_ok (m\<lparr>ztree := h\<rparr>) r t'"
    "set_tree t' = insert a (set_tree t)" "agree_off (insert a (set_tree t)) (ztree m) h"
proof -
  have T: "avl_tree (ztree m) (root z) t" "ordered (nkey m) (inorder t)" "\<forall>x \<in> set_tree t. znode_ok m x"
    using t by (simp_all add: ztree_ok_def)
  note A = avl_treeD [OF T(1)]
  from tree_search_at [of m "[]" t z a] A(1,2) T(2,3) n(2) a(2) obtain c where
    s: "tree_search m z a Local NULL = Some (from_of c, par_of c)" "plug c Leaf = t"
      "\<forall>x \<in> set (ctx_pre c). nkey m x < nkey m a" "\<forall>x \<in> set (ctx_post c). nkey m a < nkey m x" by auto
  have ctx: "ctx_at (ztree m) NULL c" and cn: "distinct (ctx_nodes c)" "a \<notin> set (ctx_nodes c)"
    using A(2,4) a(1) ctx_full_at by (auto simp: s(2) [symmetric] avl_at_plug_iff inorder_plug_nodes set_plug)
  from slot_set_ctx [OF ctx cn(1), of "root z" "Some a"] obtain h2 where
    w: "slot_set (ztree m) (from_of c) (root z) (Some a) = Some (if c = [] then Some a else root z, h2)"
      "ctx_at h2 (Some a) c" "agree_off (set (ctx_nodes c)) (ztree m) h2" by blast
  have h2a: "h2 a = Some fresh_avl" using agree_offD [OF w(3)] cn(2) n(1) by simp
  let ?h3 = "h2(a \<mapsto> fresh_avl\<lparr>a_parent := par_of c\<rparr>)"
  have ctx3: "ctx_at ?h3 (Some a) c" using w(2) cn(2) by simp
  have avlc: "avl_tree (ztree m) (root z) (plug c Leaf)" "a \<notin> set_tree (plug c Leaf)"
    "size (plug c Leaf) + 1 < 2 ^ 31" using T(1) a(1) sz s(2) by simp_all
  have h3a: "?h3 a = Some \<lparr>a_parent = par_of c, a_left = NULL, a_right = NULL, a_height = 1, a_cnt = 1\<rparr>"
    by simp
  from avl_fix_leaf_tree [OF avlc h3a ctx3] obtain r h' t' where
    f: "avl_fix ?h3 (Some a) = Some (r, h')" "avl_tree h' r t'" "inorder t' = ctx_inorder c [a]"
      "agree_off (insert a (set_tree (plug c Leaf))) ?h3 h'" .
  have run: "tree_insert m z a = Some (m\<lparr>ztree := h'\<rparr>, z\<lparr>root := r\<rparr>)"
    using s(1) w(1) h2a f(1) by (simp add: tree_insert_def)
  have set: "set_tree t' = insert a (set_tree t)"
    using arg_cong [OF f(3), of set] by (auto simp: set_ctx_inorder s(2) [symmetric] set_plug)
  have "ordered (nkey m) (inorder t')"
    using T(2) s(3,4) unfolding f(3) ctx_inorder_split
    by (auto simp: s(2) [symmetric] inorder_plug ctx_inorder_split ordered_append ordered_Cons)
  then have ok: "ztree_ok (m\<lparr>ztree := h'\<rparr>) r t'"
    using f(2) T(3) n(2) set by (auto simp: ztree_ok_def zpay_def znode_ok_def)
  have "agree_off (insert a (set_tree t)) (ztree m) h'"
    using w(3) f(4) by (auto simp: frame_defs s(2) [symmetric] set_plug)
  then show thesis using that run ok set by blast
qed

section \<open>Sorted sets\<close>

abbreviation nname :: "zmem \<Rightarrow> addr \<Rightarrow> bytes" where
  "nname m a \<equiv> zname (zpay m a)"

definition zset_ok :: "zmem \<Rightarrow> zset \<Rightarrow> addr tree \<Rightarrow> bool" where
  "zset_ok m z t \<longleftrightarrow> ztree_ok m (root z) t \<and>
     hmap_set (zhash m) (\<lambda>a. str_hash (nname m a)) (zhmap z) (set_tree t) \<and>
     inj_on (nname m) (set_tree t) \<and> (\<forall>a \<in> set_tree t. a < zbrk m)"

text \<open>The abstraction: a finite map from names to scores.\<close>

definition zabs :: "zmem \<Rightarrow> addr tree \<Rightarrow> bytes \<rightharpoonup> u64" where
  "zabs m t = map_of (map (\<lambda>a. (nname m a, zscore (zpay m a))) (inorder t))"

text \<open>From \<open>m\<close> to \<open>m'\<close> only nodes of \<open>S\<close> and newly allocated ones have changed.\<close>

definition zframe :: "addr set \<Rightarrow> zmem \<Rightarrow> zmem \<Rightarrow> bool" where [frame_defs]:
  "zframe S m m' \<longleftrightarrow> zbrk m \<le> zbrk m' \<and>
     (\<forall>a. a \<notin> S \<and> a < zbrk m \<longrightarrow> ztree m' a = ztree m a \<and> zhash m' a = zhash m a \<and> zdata m' a = zdata m a)"

lemma zframe_refl [simp]: "zframe S m m"
  by (simp add: zframe_def)

lemma zframe_trans: "zframe S m m' \<Longrightarrow> zframe T m' m'' \<Longrightarrow> (\<forall>a \<in> T. a \<in> S \<or> zbrk m \<le> a) \<Longrightarrow> zframe S m m''"
  unfolding zframe_def by (metis leD le_trans less_le_trans)

lemma zset_okD:
  assumes "zset_ok m z t"
  shows "ztree_ok m (root z) t" "avl_tree (ztree m) (root z) t" "ordered (nkey m) (inorder t)"
    "hmap_set (zhash m) (\<lambda>a. str_hash (nname m a)) (zhmap z) (set_tree t)"
    "inj_on (nname m) (set_tree t)" "a \<in> set_tree t \<Longrightarrow> znode_ok m a" "a \<in> set_tree t \<Longrightarrow> a < zbrk m"
  using assms by (auto simp: zset_ok_def ztree_ok_def)

lemma znode_ok_cong: "zdata m' a = zdata m a \<Longrightarrow> znode_ok m' a = znode_ok m a \<and> zpay m' a = zpay m a"
  by (simp add: znode_ok_def zpay_def)

lemma avl_tree_frame:
  "avl_tree h r t \<Longrightarrow> \<forall>a \<in> set_tree t. h' a = h a \<Longrightarrow> avl_tree h' r t"
  using avl_at_frame [of h NULL t h'] by (simp add: avl_tree_def)

lemma ztree_ok_frame:
  assumes "ztree_ok m r t" "\<forall>a \<in> set_tree t. ztree m' a = ztree m a \<and> zdata m' a = zdata m a"
  shows "ztree_ok m' r t"
proof -
  have same: "\<forall>a \<in> set_tree t. znode_ok m' a = znode_ok m a \<and> zpay m' a = zpay m a"
    using assms(2) znode_ok_cong by blast
  then have "ordered (nkey m') (inorder t)"
    using assms(1) by (intro ordered_cong [of "inorder t" "nkey m'" "nkey m"]) (auto simp: ztree_ok_def)
  then show ?thesis using assms same avl_tree_frame [of "ztree m" r t "ztree m'"]
    by (auto simp: ztree_ok_def)
qed

lemma hmap_set_names:
  assumes "hmap_set h (\<lambda>a. str_hash (nname m a)) z S" "\<forall>a \<in> S. h' a = h a" "\<forall>a \<in> S. zpay m' a = zpay m a"
  shows "hmap_set h' (\<lambda>a. str_hash (nname m' a)) z S"
  by (rule hm.rep_hc [OF hm.rep_frame [OF assms(1,2)]]) (simp add: assms(3))

lemma zset_ok_frame:
  assumes "zset_ok m z t" "zframe S m m'" "S \<inter> set_tree t = {}"
  shows "zset_ok m' z t" "zabs m' t = zabs m t"
proof -
  have same: "\<forall>a \<in> set_tree t. ztree m' a = ztree m a \<and> zhash m' a = zhash m a \<and> zdata m' a = zdata m a"
    using assms zset_okD(7) [OF assms(1)] by (auto simp: zframe_def)
  then have pay: "\<forall>a \<in> set_tree t. zpay m' a = zpay m a" by (simp add: zpay_def)
  have "ztree_ok m' (root z) t" using ztree_ok_frame [OF zset_okD(1) [OF assms(1)]] same by blast
  moreover have "hmap_set (zhash m') (\<lambda>a. str_hash (nname m' a)) (zhmap z) (set_tree t)"
    using hmap_set_names [OF zset_okD(4) [OF assms(1)]] same pay by blast
  moreover have "inj_on (nname m') (set_tree t)"
    using zset_okD(5) [OF assms(1)] pay by (simp add: inj_on_def)
  moreover have "\<forall>a \<in> set_tree t. a < zbrk m'"
    using zset_okD(7) [OF assms(1)] assms(2) by (auto simp: zframe_def intro: less_le_trans)
  ultimately show "zset_ok m' z t" by (simp add: zset_ok_def)
  show "zabs m' t = zabs m t" unfolding zabs_def using pay by (intro arg_cong [of _ _ map_of]) simp
qed

lemma zset_ok_empty: "zset_ok m empty_zset Leaf"
  by (simp add: zset_ok_def ztree_ok_def avl_tree_def empty_zset_def hmap_set_empty)

text \<open>Reading the abstraction.\<close>

lemma zabs_None:
  "zabs m t n = None \<longleftrightarrow> (\<forall>a \<in> set_tree t. nname m a \<noteq> n)"
  unfolding zabs_def map_of_eq_None_iff by (auto simp: image_image)

lemma zabs_eq:
  assumes "inj_on (nname m) (set_tree t)"
  shows "zabs m t n = Some s \<longleftrightarrow> (\<exists>a \<in> set_tree t. nname m a = n \<and> zscore (zpay m a) = s)"
proof -
  show ?thesis
  proof
    assume "zabs m t n = Some s"
    then show "\<exists>a \<in> set_tree t. nname m a = n \<and> zscore (zpay m a) = s"
      unfolding zabs_def by (auto dest!: map_of_SomeD)
  next
    assume "\<exists>a \<in> set_tree t. nname m a = n \<and> zscore (zpay m a) = s"
    then obtain a where a: "a \<in> set_tree t" "nname m a = n" "zscore (zpay m a) = s" by blast
    then have "zabs m t n \<noteq> None" using zabs_None [of m t n] by blast
    then obtain s' where s': "zabs m t n = Some s'" by auto
    then obtain b where "b \<in> set_tree t" "nname m b = n" "zscore (zpay m b) = s'"
      unfolding zabs_def by (auto dest!: map_of_SomeD)
    with a assms s' show "zabs m t n = Some s" by (auto simp: inj_on_def)
  qed
qed

lemma zset_lookup_ok:
  assumes z: "zset_ok m z t"
  obtains r h hm where
    "zset_lookup m z name = Some (r, m\<lparr>zhash := h\<rparr>, z\<lparr>zhmap := hm\<rparr>)"
    "zset_ok (m\<lparr>zhash := h\<rparr>) (z\<lparr>zhmap := hm\<rparr>) t" "agree_off (set_tree t) (zhash m) h"
    "\<forall>a. r = Some a \<longleftrightarrow> a \<in> set_tree t \<and> nname m a = name"
proof (cases "root z = NULL")
  case True
  then have "set_tree t = {}" using avl_treeD(1) [OF zset_okD(2) [OF z]] by simp
  moreover have "zset_lookup m z name = Some (NULL, m\<lparr>zhash := zhash m\<rparr>, z\<lparr>zhmap := zhmap z\<rparr>)"
    using True by (simp add: zset_lookup_def)
  ultimately show thesis using that [of NULL "zhash m" "zhmap z"] z by simp
next
  case False
  have "\<forall>a \<in> set_tree t. hcmp m name a = Some (nname m a = name)"
    using zset_okD(6) [OF z] hcmp_name by blast
  from hm.keyed_lookup [where hash = str_hash, OF zset_okD(4) [OF z] _ zset_okD(5) [OF z] this] obtain r h hm where
    r: "hm_lookup (zhash m) (zhmap z) (str_hash name) (hcmp m name) = Some (r, h, hm)"
      "hmap_set h (\<lambda>a. str_hash (nname m a)) hm (set_tree t)" "agree_off (set_tree t) (zhash m) h"
      "\<forall>a. r = Some a \<longleftrightarrow> a \<in> set_tree t \<and> nname m a = name" by auto
  have "zset_ok (m\<lparr>zhash := h\<rparr>) (z\<lparr>zhmap := hm\<rparr>) t"
    using z r(2) by (auto simp: zset_ok_def ztree_ok_def zpay_def znode_ok_def)
  then show thesis using that r False by (simp add: zset_lookup_def)
qed

text \<open>A tree node that has been initialised again.\<close>

lemma avl_init_fresh:
  assumes "h a \<noteq> None"
  shows "avl_init h (Some a) = Some (h(a \<mapsto> fresh_avl))"
proof -
  obtain n where "h a = Some n" using assms by blast
  then have "avl_init h (Some a) = Some (h(a \<mapsto>
      n\<lparr>a_left := NULL, a_right := NULL, a_parent := NULL, a_height := 1, a_cnt := 1\<rparr>))"
    by (simp add: avl_init_def)
  moreover have "n\<lparr>a_left := NULL, a_right := NULL, a_parent := NULL, a_height := 1, a_cnt := 1\<rparr> = fresh_avl"
    by simp
  ultimately show ?thesis by (simp only:)
qed

text \<open>The value an existing member gets: the code keeps the old bits when the two scores
  compare equal.\<close>

definition new_score :: "(bytes \<rightharpoonup> u64) \<Rightarrow> bytes \<Rightarrow> u64 \<Rightarrow> u64" where
  "new_score A name score = (case A name of
     Some old \<Rightarrow> if dbl_eq old score then old else score
   | None \<Rightarrow> score)"

lemma zabs_upd:
  assumes inj: "inj_on (nname m') (set_tree t')" "inj_on (nname m) (set_tree t)"
    and a: "a \<in> set_tree t'" "nname m' a = n" "zscore (zpay m' a) = s"
    and keep: "\<forall>b \<in> set_tree t' - {a}. b \<in> set_tree t \<and> zpay m' b = zpay m b"
      "\<forall>b \<in> set_tree t. nname m b \<noteq> n \<longrightarrow> b \<in> set_tree t'"
      "\<forall>b \<in> set_tree t. nname m b \<noteq> n \<longrightarrow> b \<noteq> a"
  shows "zabs m' t' = (zabs m t)(n \<mapsto> s)"
proof
  fix x
  show "zabs m' t' x = ((zabs m t)(n \<mapsto> s)) x"
  proof (cases "x = n")
    case True
    then show ?thesis using a zabs_eq [OF inj(1)] by auto
  next
    case False
    have "zabs m' t' x = Some v \<longleftrightarrow> zabs m t x = Some v" for v
      unfolding zabs_eq [OF inj(1)] zabs_eq [OF inj(2)] using False a keep by (metis Diff_iff singletonD)
    then have "zabs m' t' x = zabs m t x" by (metis option.exhaust)
    then show ?thesis using False by simp
  qed
qed

lemma zkey_inj: "zname p \<noteq> zname q \<Longrightarrow> zkey_of p \<noteq> zkey_of q"
  by (simp add: zkey_of_def)

text \<open>A node out of the tree index.\<close>

lemma ztree_remove:
  assumes t: "ztree_ok m r t" and a: "a \<in> set_tree t"
  obtains r' h t1 where
    "avl_del (ztree m) (Some a) = Some (r', h)" "ztree_ok (m\<lparr>ztree := h\<rparr>) r' t1"
    "set_tree t1 = set_tree t - {a}" "size t1 + 1 < 2 ^ 31" "agree_off (set_tree t) (ztree m) h" "h a \<noteq> None"
proof -
  have tr: "avl_tree (ztree m) r t" and o: "ordered (nkey m) (inorder t)"
    and n: "\<forall>x \<in> set_tree t. znode_ok m x" using t by (simp_all add: ztree_ok_def)
  from avl_del_tree [OF tr a] obtain r' h t1 where
    d: "avl_del (ztree m) (Some a) = Some (r', h)" "avl_tree h r' t1" "inorder t1 = remove1 a (inorder t)"
      "agree_off (set_tree t) (ztree m) h" "h a \<noteq> None" .
  have t1: "set_tree t1 = set_tree t - {a}"
    using arg_cong [OF d(3), of set] avl_treeD(4) [OF tr] by (simp add: set_remove1_eq)
  have "size t1 = size t - 1" using arg_cong [OF d(3), of length] a by (simp add: length_remove1)
  then have sz: "size t1 + 1 < 2 ^ 31" using avl_treeD(5) [OF tr] a by (cases t) auto
  have pay: "zpay (m\<lparr>ztree := h\<rparr>) b = zpay m b" "znode_ok (m\<lparr>ztree := h\<rparr>) b = znode_ok m b" for b
    by (simp_all add: zpay_def znode_ok_def)
  have "ordered (nkey m) (inorder t1)" unfolding d(3) by (rule ordered_remove1 [OF o])
  then have "ztree_ok (m\<lparr>ztree := h\<rparr>) r' t1" using d(2) n t1 by (simp add: ztree_ok_def pay)
  then show thesis by (rule that [OF d(1) _ t1 sz d(4,5)])
qed

text \<open>A score that differs from the old one: the node goes out of the tree and in again.\<close>

lemma zset_move_ok:
  assumes z: "zset_ok m z t" and a: "a \<in> set_tree t" and s: "\<not> dbl_isnan score"
    and ne: "\<not> dbl_eq (zscore (zpay m a)) score"
  obtains m' z' t' where
    "zset_update m z a score = Some (m', z')" "zset_ok m' z' t'" "set_tree t' = set_tree t"
    "zabs m' t' = (zabs m t)(nname m a \<mapsto> score)" "zframe (set_tree t) m m'" "zbrk m' = zbrk m"
proof -
  note Z = zset_okD [OF z]
  let ?p = "zpay m a"
  have p: "zdata m a = Some ?p" using znode_okD [OF Z(6) [OF a]] by simp
  from ztree_remove [OF Z(1) a] obtain r h t1 where
    d: "avl_del (ztree m) (Some a) = Some (r, h)" "ztree_ok (m\<lparr>ztree := h\<rparr>) r t1"
      "set_tree t1 = set_tree t - {a}" "size t1 + 1 < 2 ^ 31" "agree_off (set_tree t) (ztree m) h" "h a \<noteq> None" .
  let ?m = "m\<lparr>ztree := h(a \<mapsto> fresh_avl), zdata := (zdata m)(a \<mapsto> ?p\<lparr>zscore := score\<rparr>)\<rparr>"
  let ?z = "z\<lparr>root := r\<rparr>"
  have pay: "zpay ?m a = ?p\<lparr>zscore := score\<rparr>" "\<And>b. b \<noteq> a \<Longrightarrow> zpay ?m b = zpay m b"
    by (simp_all add: zpay_def)
  have names: "nname ?m b = nname m b" for b by (cases "b = a") (simp_all add: pay)
  have ok: "ztree_ok ?m (root ?z) t1" using ztree_ok_frame [OF d(2), of ?m] d(3) by simp
  have nk: "\<forall>x \<in> set_tree t1. nkey ?m x \<noteq> nkey ?m a"
    using Z(5) a d(3) names by (intro ballI zkey_inj) (auto simp: inj_on_def)
  have an: "ztree ?m a = Some fresh_avl" "znode_ok ?m a" "a \<notin> set_tree t1"
    using s d(3) by (auto simp: znode_ok_def)
  from tree_insert_at [OF ok an(1,2,3) nk d(4)] obtain r' h' t' where
    i: "tree_insert ?m ?z a = Some (?m\<lparr>ztree := h'\<rparr>, ?z\<lparr>root := r'\<rparr>)" "ztree_ok (?m\<lparr>ztree := h'\<rparr>) r' t'"
      "set_tree t' = insert a (set_tree t1)" "agree_off (insert a (set_tree t1)) (ztree ?m) h'" .
  let ?m' = "?m\<lparr>ztree := h'\<rparr>" and ?z' = "?z\<lparr>root := r'\<rparr>"
  have set: "set_tree t' = set_tree t" using i(3) d(3) a by auto
  have run: "zset_update m z a score = Some (?m', ?z')"
    using p ne d(1) avl_init_fresh [of h a, OF d(6)] i(1) by (simp add: zset_update_def Let_def)
  have pay': "zpay ?m' b = zpay ?m b" for b by (simp add: zpay_def)
  have names': "nname ?m' b = nname m b" for b using names pay' by simp
  have "hmap_set (zhash ?m') (\<lambda>b. str_hash (nname ?m' b)) (zhmap ?z') (set_tree t')"
    unfolding names' set using Z(4) by simp
  moreover have "inj_on (nname ?m') (set_tree t')"
    unfolding inj_on_def names' set using Z(5) unfolding inj_on_def .
  moreover have "\<forall>b \<in> set_tree t'. b < zbrk ?m'" using Z(7) set by simp
  ultimately have ok': "zset_ok ?m' ?z' t'" using i(2) unfolding zset_ok_def by simp
  have "zabs ?m' t' = (zabs m t)(nname m a \<mapsto> score)"
  proof (rule zabs_upd [OF zset_okD(5) [OF ok'] Z(5)])
    show "\<forall>b \<in> set_tree t' - {a}. b \<in> set_tree t \<and> zpay ?m' b = zpay m b"
      using pay' pay(2) set by auto
  qed (use a set names' pay' pay in auto)
  moreover have "zframe (set_tree t) m ?m'"
    using d(5) i(4) a d(3) by (auto simp: frame_defs)
  ultimately show thesis using that [OF run ok' set] by simp
qed

lemma zset_update_ok:
  assumes z: "zset_ok m z t" and a: "a \<in> set_tree t" and s: "\<not> dbl_isnan score"
  obtains m' z' t' where
    "zset_update m z a score = Some (m', z')" "zset_ok m' z' t'" "set_tree t' = set_tree t"
    "zabs m' t' = (zabs m t)(nname m a \<mapsto> new_score (zabs m t) (nname m a) score)"
    "zframe (set_tree t) m m'" "zbrk m' = zbrk m"
proof -
  note Z = zset_okD [OF z]
  have p: "zdata m a = Some (zpay m a)" using znode_okD [OF Z(6) [OF a]] by simp
  have old: "zabs m t (nname m a) = Some (zscore (zpay m a))" using a zabs_eq [OF Z(5)] by auto
  show thesis
  proof (cases "dbl_eq (zscore (zpay m a)) score")
    case True
    have "zset_update m z a score = Some (m, z)" using p True by (simp add: zset_update_def)
    moreover have "zabs m t = (zabs m t)(nname m a \<mapsto> new_score (zabs m t) (nname m a) score)"
      using True old by (simp add: new_score_def map_upd_triv)
    ultimately show thesis using that z by simp
  next
    case False
    then have "new_score (zabs m t) (nname m a) score = score" using old by (simp add: new_score_def)
    with zset_move_ok [OF z a s False] that show thesis by metis
  qed
qed

lemma hmap_set_names_upd:
  assumes "hmap_set h (\<lambda>a. str_hash (nname m a)) z S" "\<forall>a \<in> S. zpay m' a = zpay m a"
  shows "hmap_set h (\<lambda>a. str_hash (nname m' a)) z S"
  by (rule hmap_set_names [OF assms(1) _ assms(2)]) simp

lemma znode_new_ok:
  assumes "\<not> dbl_isnan score"
  obtains m' where
    "znode_new m name score = Some (zbrk m, m')"
    "ztree m' = (ztree m)(zbrk m \<mapsto> fresh_avl)"
    "zhash m' = (zhash m)(zbrk m \<mapsto> \<lparr>hnext = NULL, hcode = str_hash name\<rparr>)"
    "zdata m' = (zdata m)(zbrk m \<mapsto> \<lparr>zscore = score, zname = name\<rparr>)" "zbrk m' = zbrk m + 1"
    "znode_ok m' (zbrk m)" "zpay m' (zbrk m) = \<lparr>zscore = score, zname = name\<rparr>"
    "\<And>b. b \<noteq> zbrk m \<Longrightarrow> zpay m' b = zpay m b"
proof (rule that)
  let ?m' = "m\<lparr>ztree := (ztree m)(zbrk m \<mapsto> fresh_avl),
    zhash := (zhash m)(zbrk m \<mapsto> \<lparr>hnext = NULL, hcode = str_hash name\<rparr>),
    zdata := (zdata m)(zbrk m \<mapsto> \<lparr>zscore = score, zname = name\<rparr>), zbrk := zbrk m + 1\<rparr>"
  show "znode_new m name score = Some (zbrk m, ?m')"
    by (simp add: znode_new_def avl_init_fresh Let_def)
qed (use assms in \<open>simp_all add: znode_ok_def zpay_def\<close>)

text \<open>A name that the lookup did not find: the new node goes into both indexes.\<close>

lemma zset_link_ok:
  assumes z: "zset_ok m z t" and s: "\<not> dbl_isnan score" and sz: "size t + 1 < 2 ^ 31" and ex: "zabs m t name = None"
  obtains m1 h2 hm2 h' r' t' where
    "znode_new m name score = Some (zbrk m, m1)" "hm_insert (zhash m1) (zhmap z) (zbrk m) = Some (h2, hm2)"
    "tree_insert (m1\<lparr>zhash := h2\<rparr>) (z\<lparr>zhmap := hm2\<rparr>) (zbrk m) =
       Some (m1\<lparr>zhash := h2, ztree := h'\<rparr>, z\<lparr>zhmap := hm2, root := r'\<rparr>)"
    "zset_ok (m1\<lparr>zhash := h2, ztree := h'\<rparr>) (z\<lparr>zhmap := hm2, root := r'\<rparr>) t'"
    "set_tree t' = insert (zbrk m) (set_tree t)"
    "zabs (m1\<lparr>zhash := h2, ztree := h'\<rparr>) t' = (zabs m t)(name \<mapsto> score)"
    "zframe (set_tree t) m (m1\<lparr>zhash := h2, ztree := h'\<rparr>)"
proof -
  from znode_new_ok [OF s, of m name] obtain m1 where
    n: "znode_new m name score = Some (zbrk m, m1)" "ztree m1 = (ztree m)(zbrk m \<mapsto> fresh_avl)"
      "zhash m1 = (zhash m)(zbrk m \<mapsto> \<lparr>hnext = NULL, hcode = str_hash name\<rparr>)"
      "zdata m1 = (zdata m)(zbrk m \<mapsto> \<lparr>zscore = score, zname = name\<rparr>)" "zbrk m1 = zbrk m + 1"
      "znode_ok m1 (zbrk m)" "zpay m1 (zbrk m) = \<lparr>zscore = score, zname = name\<rparr>"
      "\<And>b. b \<noteq> zbrk m \<Longrightarrow> zpay m1 b = zpay m b" by auto
  let ?a = "zbrk m"
  note Z = zset_okD [OF z]
  have a_new: "?a \<notin> set_tree t" using Z(7) by auto
  have fr1: "zframe {} m m1" using n by (simp add: zframe_def)
  have z1: "zset_ok m1 z t" "zabs m1 t = zabs m t"
    using zset_ok_frame [OF z fr1] by simp_all
  note Z1 = zset_okD [OF z1(1)]
  have "card (set_tree t) + 1 < 2 ^ 56"
    using sz distinct_card [OF avl_treeD(4) [OF Z(2)]] by simp
  with hm.insert_law [OF Z1(4), of ?a NULL] a_new n(3,7) obtain h2 hm2 where
    h: "hm_insert (zhash m1) (zhmap z) ?a = Some (h2, hm2)"
      "hmap_set h2 (\<lambda>a. str_hash (nname m1 a)) hm2 (insert ?a (set_tree t))"
      "agree_off (insert ?a (set_tree t)) (zhash m1) h2" by auto
  let ?m2 = "m1\<lparr>zhash := h2\<rparr>" and ?z2 = "z\<lparr>zhmap := hm2\<rparr>"
  have pay2: "zpay ?m2 b = zpay m1 b" "znode_ok ?m2 b = znode_ok m1 b" for b
    by (simp_all add: zpay_def znode_ok_def)
  have t2: "ztree_ok ?m2 (root ?z2) t"
    using Z1(1) by (simp add: ztree_ok_def pay2)
  have keys: "\<forall>x \<in> set_tree t. nkey ?m2 x \<noteq> nkey ?m2 ?a"
  proof (intro ballI zkey_inj)
    fix x assume x: "x \<in> set_tree t"
    have "zpay m1 x = zpay m x" using n(8) [of x] a_new x by auto
    moreover have "nname m x \<noteq> name" using ex zabs_None x by blast
    ultimately show "nname ?m2 x \<noteq> nname ?m2 ?a" by (simp add: pay2 n(7))
  qed
  have a2: "ztree ?m2 ?a = Some fresh_avl" "znode_ok ?m2 ?a" using n(2,6) pay2(2) by simp_all
  from tree_insert_at [OF t2 a2 a_new keys sz] obtain r' h' t' where
    i: "tree_insert ?m2 ?z2 ?a = Some (?m2\<lparr>ztree := h'\<rparr>, ?z2\<lparr>root := r'\<rparr>)"
      "ztree_ok (?m2\<lparr>ztree := h'\<rparr>) r' t'" "set_tree t' = insert ?a (set_tree t)"
      "agree_off (insert ?a (set_tree t)) (ztree ?m2) h'" .
  let ?m3 = "?m2\<lparr>ztree := h'\<rparr>" and ?z3 = "?z2\<lparr>root := r'\<rparr>"
  have pay3: "zpay ?m3 b = zpay m1 b" for b by (simp add: zpay_def)
  have old: "zpay m1 b = zpay m b" if "b \<in> set_tree t" for b
    using n(8) [of b] a_new that by auto
  have "inj_on (nname ?m3) (set_tree t')"
    using Z1(5) keys a_new ex by (auto simp: i(3) pay3 n(7) inj_on_insert old zabs_None)
  then have ok: "zset_ok ?m3 ?z3 t'"
    using i(2,3) h(2) Z(7) by (auto simp: zset_ok_def pay3 n(5) intro: less_SucI)
  have abs': "zabs ?m3 t' = (zabs m t)(name \<mapsto> score)"
  proof (rule zabs_upd [OF zset_okD(5) [OF ok]])
    show "inj_on (nname m) (set_tree t)" using zset_okD(5) [OF z] .
  qed (use i(3) ex a_new in \<open>auto simp: pay3 n(7) old zabs_None\<close>)
  have "zframe (set_tree t) m ?m3"
    using n(2-5) h(3) i(4) by (auto simp: frame_defs)
  then show thesis using that [OF n(1) h(1) _ _ i(3)] i(1) ok abs' by simp
qed

lemma zset_insert_ok:
  assumes z: "zset_ok m z t" and s: "\<not> dbl_isnan score" and sz: "size t + 1 < 2 ^ 31"
  obtains m' z' t' where
    "zset_insert m z name score = Some (zabs m t name = None, m', z')" "zset_ok m' z' t'"
    "zabs m' t' = (zabs m t)(name \<mapsto> new_score (zabs m t) name score)"
    "zframe (set_tree t) m m'"
    "set_tree t' = (if zabs m t name = None then insert (zbrk m) (set_tree t) else set_tree t)"
proof -
  from zset_lookup_ok [OF z, of name] obtain r h hmp where
    l: "zset_lookup m z name = Some (r, m\<lparr>zhash := h\<rparr>, z\<lparr>zhmap := hmp\<rparr>)"
      "zset_ok (m\<lparr>zhash := h\<rparr>) (z\<lparr>zhmap := hmp\<rparr>) t" "agree_off (set_tree t) (zhash m) h"
      "\<forall>a. r = Some a \<longleftrightarrow> a \<in> set_tree t \<and> nname m a = name" .
  let ?m = "m\<lparr>zhash := h\<rparr>" and ?z = "z\<lparr>zhmap := hmp\<rparr>"
  have pay: "zpay ?m b = zpay m b" for b by (simp add: zpay_def)
  have abs: "zabs ?m t = zabs m t" by (simp add: zabs_def pay)
  have fr: "zframe (set_tree t) m ?m" using l(3) by (simp add: frame_defs)
  show thesis
  proof (cases r)
    case (Some a)
    then have a: "a \<in> set_tree t" "nname m a = name" using l(4) by auto
    then have ex: "zabs m t name \<noteq> None" using zabs_None by blast
    from zset_update_ok [OF l(2) a(1) s] obtain m' z' t' where
      u: "zset_update ?m ?z a score = Some (m', z')" "zset_ok m' z' t'" "set_tree t' = set_tree t"
        "zabs m' t' = (zabs ?m t)(nname ?m a \<mapsto> new_score (zabs ?m t) (nname ?m a) score)"
        "zframe (set_tree t) ?m m'" "zbrk m' = zbrk ?m" .
    have "zset_insert m z name score = Some (zabs m t name = None, m', z')"
      unfolding zset_insert_def l(1) Some using ex by (simp add: u(1))
    moreover have "zframe (set_tree t) m m'" by (rule zframe_trans [OF fr u(5)]) simp
    ultimately show thesis using that u ex a(2) by (simp add: abs pay)
  next
    case None
    then have ex: "zabs m t name = None" using l(4) zabs_None by auto
    from zset_link_ok [OF l(2) s sz, of name] ex abs obtain m1 h2 hm2 h' r' t' where
      n: "znode_new ?m name score = Some (zbrk ?m, m1)" "hm_insert (zhash m1) (zhmap ?z) (zbrk ?m) = Some (h2, hm2)"
        "tree_insert (m1\<lparr>zhash := h2\<rparr>) (?z\<lparr>zhmap := hm2\<rparr>) (zbrk ?m) =
           Some (m1\<lparr>zhash := h2, ztree := h'\<rparr>, ?z\<lparr>zhmap := hm2, root := r'\<rparr>)"
        "zset_ok (m1\<lparr>zhash := h2, ztree := h'\<rparr>) (?z\<lparr>zhmap := hm2, root := r'\<rparr>) t'"
        "set_tree t' = insert (zbrk ?m) (set_tree t)"
        "zabs (m1\<lparr>zhash := h2, ztree := h'\<rparr>) t' = (zabs ?m t)(name \<mapsto> score)"
        "zframe (set_tree t) ?m (m1\<lparr>zhash := h2, ztree := h'\<rparr>)" by (metis abs)
    let ?m3 = "m1\<lparr>zhash := h2, ztree := h'\<rparr>" and ?z3 = "?z\<lparr>zhmap := hm2, root := r'\<rparr>"
    have "zset_insert m z name score = Some (zabs m t name = None, ?m3, ?z3)"
      using l(1) None n(1,2,3) ex by (simp add: zset_insert_def Let_def)
    moreover have "zframe (set_tree t) m ?m3" by (rule zframe_trans [OF fr n(7)]) simp
    ultimately show thesis using that n(4,5,6) ex abs by (simp add: new_score_def)
  qed
qed

subsection \<open>Removal\<close>

lemma zabs_del:
  assumes inj: "inj_on (nname m') (set_tree t')" "inj_on (nname m) (set_tree t)"
    and sub: "set_tree t' = set_tree t - {a}" "a \<in> set_tree t" "\<forall>b \<in> set_tree t'. zpay m' b = zpay m b"
  shows "zabs m' t' = (zabs m t)(nname m a := None)"
proof
  fix x
  have "zabs m' t' x = Some v \<longleftrightarrow> ((zabs m t)(nname m a := None)) x = Some v" for v
  proof (cases "x = nname m a")
    case True
    then show ?thesis using sub inj(2) by (auto simp: zabs_eq [OF inj(1)] inj_on_def)
  next
    case False
    then show ?thesis using sub by (auto simp: zabs_eq [OF inj(1)] zabs_eq [OF inj(2)])
  qed
  then show "zabs m' t' x = ((zabs m t)(nname m a := None)) x" by (metis option.exhaust)
qed

lemma zset_delete_ok:
  assumes z: "zset_ok m z t" and a: "a \<in> set_tree t"
  obtains m' z' t' where
    "zset_delete m z a = Some (m', z')" "zset_ok m' z' t'" "set_tree t' = set_tree t - {a}"
    "zabs m' t' = (zabs m t)(nname m a := None)" "zframe (set_tree t) m m'" "zbrk m' = zbrk m"
proof -
  note Z = zset_okD [OF z]
  let ?n = "nname m a"
  have p: "zdata m a = Some (zpay m a)" using znode_okD [OF Z(6) [OF a]] by simp
  obtain q where q: "zhash m a = Some \<lparr>hnext = q, hcode = str_hash ?n\<rparr>"
    using hm.rep_node [OF Z(4) a] by blast
  have cmp: "\<forall>b \<in> set_tree t. hcmp m ?n b = Some (nname m b = ?n)" using Z(6) hcmp_name by blast
  have rest: "{b \<in> set_tree t. nname m b \<noteq> ?n} = set_tree t - {a}"
    using Z(5) a by (auto simp: inj_on_def)
  from hm.keyed_delete [where hash = str_hash, OF Z(4) _ Z(5) cmp] obtain r h hmp where
    d: "hm_delete (zhash m) (zhmap z) (str_hash ?n) (hcmp m ?n) = Some (r, h, hmp)"
      "agree_off (set_tree t) (zhash m) h"
      "hmap_set h (\<lambda>b. str_hash (nname m b)) hmp (set_tree t - {a})"
      "\<forall>b. r = Some b \<longleftrightarrow> b \<in> set_tree t \<and> nname m b = ?n"
    unfolding rest by auto
  have r: "r \<noteq> NULL" using d(4) a by auto
  from ztree_remove [OF Z(1) a] obtain rt' h' t' where
    e: "avl_del (ztree m) (Some a) = Some (rt', h')" "ztree_ok (m\<lparr>ztree := h'\<rparr>) rt' t'"
      "set_tree t' = set_tree t - {a}" "size t' + 1 < 2 ^ 31" "agree_off (set_tree t) (ztree m) h'" "h' a \<noteq> None" .
  note t' = e(3)
  let ?m = "znode_del (m\<lparr>zhash := h, ztree := h'\<rparr>) a"
  let ?z = "z\<lparr>zhmap := hmp, root := rt'\<rparr>"
  have run: "zset_delete m z a = Some (?m, ?z)"
    using q p d(1) r e(1) by (auto simp: zset_delete_def Let_def)
  have pay: "\<forall>b \<in> set_tree t'. zpay ?m b = zpay m b"
    using t' by (auto simp: zpay_def znode_del_def)
  have tok: "ztree_ok ?m (root ?z) t'"
    using ztree_ok_frame [OF e(2), of ?m] t' by (simp add: znode_del_def)
  have hok: "hmap_set (zhash ?m) (\<lambda>b. str_hash (nname ?m b)) (zhmap ?z) (set_tree t')"
    using hmap_set_names [OF d(3), of "zhash ?m" ?m] pay by (simp add: t' znode_del_def)
  have inj: "inj_on (nname ?m) (set_tree t')"
    using Z(5) pay by (auto simp: inj_on_def t')
  have "\<forall>b \<in> set_tree t'. b < zbrk ?m" using Z(7) t' by (simp add: znode_del_def)
  with tok hok inj have ok: "zset_ok ?m ?z t'" unfolding zset_ok_def by blast
  have "zabs ?m t' = (zabs m t)(?n := None)"
    by (rule zabs_del [OF inj Z(5) t' a pay])
  moreover have "zframe (set_tree t) m ?m"
    using d(2) e(5) a by (auto simp: frame_defs znode_del_def)
  moreover have "zbrk ?m = zbrk m" by (simp add: znode_del_def)
  ultimately show thesis using that run ok t' by blast
qed

subsection \<open>Range queries\<close>

lemma find_append:
  "List.find P (xs @ ys) = (case List.find P xs of None \<Rightarrow> List.find P ys | Some b \<Rightarrow> Some b)"
  by (induction xs) auto

lemma seekge_loop_at:
  assumes "avl_at (ztree m) par t" "ordered (nkey m) (inorder t)" "\<forall>a \<in> set_tree t. znode_ok m a"
    and "\<not> dbl_isnan score"
  shows "seekge_loop m score name (rt t) found =
    Some (case List.find (\<lambda>a. \<not> nkey m a < ZKey (dbl_key score) name) (inorder t) of
            None \<Rightarrow> found | Some b \<Rightarrow> Some b)"
  using assms
proof (induction t arbitrary: par found)
  case Leaf
  then show ?case by (subst seekge_loop.simps) simp
next
  case (Node l x r)
  let ?P = "\<lambda>a. \<not> nkey m a < ZKey (dbl_key score) name"
  have o: "ordered (nkey m) (inorder l)" "ordered (nkey m) (inorder r)" "\<forall>a \<in> set_tree l. nkey m a < nkey m x"
    using Node.prems(2) by (auto simp: ordered_append ordered_Cons)
  have less: "zless m x score name = Some (\<not> ?P x)" using zless_key Node.prems(3,4) by simp
  have find: "List.find ?P (inorder l @ x # inorder r) =
      (case List.find ?P (inorder l) of None \<Rightarrow> if ?P x then Some x else List.find ?P (inorder r) | Some b \<Rightarrow> Some b)"
    by (simp add: find_append split: option.splits)
  show ?case
  proof (cases "?P x")
    case True
    have "seekge_loop m score name (Some x) found = seekge_loop m score name (rt l) (Some x)"
      using less True Node.prems(1) by (subst seekge_loop.simps) simp
    then show ?thesis using Node.IH(1) [of "Some x" "Some x"] Node.prems o True find
      by (auto split: option.splits)
  next
    case False
    then have "\<forall>a \<in> set_tree l. \<not> ?P a" using o(3) by (auto intro: less_trans)
    then have "List.find ?P (inorder l) = None" by (simp add: find_None_iff)
    moreover have "seekge_loop m score name (Some x) found = seekge_loop m score name (rt r) found"
      using less False Node.prems(1) by (subst seekge_loop.simps) simp
    ultimately show ?thesis using Node.IH(2) [of "Some x" found] Node.prems o False find by simp
  qed
qed

lemma zset_seekge_ok:
  assumes "zset_ok m z t" "\<not> dbl_isnan score"
  shows "zset_seekge m z score name =
    Some (List.find (\<lambda>a. \<not> nkey m a < ZKey (dbl_key score) name) (inorder t))"
  using seekge_loop_at [of m NULL t score name NULL] zset_okD(3,6) [OF assms(1)]
    avl_treeD(1,2) [OF zset_okD(2) [OF assms(1)]] assms(2)
  by (simp add: zset_seekge_def split: option.splits)

lemma znode_offset_ok:
  assumes "zset_ok m z t" "k < size t"
  shows "znode_offset m (Some (inorder t ! k)) off = Some (nth_ptr (inorder t) (int k + sint off))"
  using avl_offset_tree [OF zset_okD(2) [OF assms(1)] assms(2) refl] by (simp add: znode_offset_def)

lemma znode_offset_NULL [simp]: "znode_offset m NULL off = Some NULL"
  by (simp add: znode_offset_def)

subsection \<open>Disposal\<close>

definition without :: "zmem \<Rightarrow> addr set \<Rightarrow> zmem" where
  "without m S = m\<lparr>ztree := ztree m |` (- S), zhash := zhash m |` (- S), zdata := zdata m |` (- S)\<rparr>"

lemma without_sel [simp]:
  "ztree (without m S) = ztree m |` (- S)" "zhash (without m S) = zhash m |` (- S)"
  "zdata (without m S) = zdata m |` (- S)" "zbrk (without m S) = zbrk m"
  by (simp_all add: without_def)

lemma restrict_UNIV [simp]: "f |` UNIV = f"
  by (auto simp: restrict_map_def)

lemma without_empty [simp]: "without m {} = m"
  by (simp add: without_def)

lemma without_twice: "without (without m S) T = without m (S \<union> T)"
  by (auto simp: without_def restrict_restrict)

lemma without_one: "znode_del m a = without m {a}"
  by (auto simp: without_def znode_del_def restrict_map_def fun_eq_iff)

lemma tree_dispose_at:
  assumes "avl_at (ztree m) par t" "distinct (inorder t)"
  shows "tree_dispose m (rt t) = Some (without m (set_tree t))"
  using assms
proof (induction t arbitrary: m par)
  case Leaf
  then show ?case by (subst tree_dispose.simps) simp
next
  case (Node l x r)
  let ?m1 = "without m (set_tree l)"
  have l: "tree_dispose m (rt l) = Some ?m1" using Node by auto
  have "avl_at (ztree ?m1) (Some x) r"
    by (rule avl_at_frame [of "ztree m"]) (use Node.prems in \<open>auto simp: restrict_map_def\<close>)
  then have r: "tree_dispose ?m1 (rt r) = Some (without ?m1 (set_tree r))"
    using Node.IH(2) Node.prems(2) by simp
  have x: "ztree m x = Some (nd par l r)" "ztree ?m1 x = Some (nd par l r)"
    using Node.prems by auto
  have "tree_dispose m (Some x) = Some (znode_del (without ?m1 (set_tree r)) x)"
    using x l r by (subst tree_dispose.simps) simp
  then show ?case by (simp add: without_one without_twice Un_assoc [symmetric] Un_commute)
qed

lemma zset_clear_ok:
  assumes "zset_ok m z t"
  shows "zset_clear m z = Some (without m (set_tree t), empty_zset)"
proof -
  note A = avl_treeD [OF zset_okD(2) [OF assms]]
  have "z\<lparr>zhmap := hm_clear (zhmap z), root := NULL\<rparr> = empty_zset"
    by (cases z) (simp add: hm_clear_def empty_zset_def)
  then show ?thesis
    using tree_dispose_at [OF A(2,4)] A(1) by (simp add: zset_clear_def)
qed

section \<open>Properties\<close>

text \<open>An example: a (1.0) and b (2.0), in a table of four slots.\<close>

definition ex_zmem :: zmem where
  "ex_zmem = \<lparr>
     ztree = [1 \<mapsto> \<lparr>a_parent = NULL, a_left = NULL, a_right = Some 2, a_height = 2, a_cnt = 2\<rparr>,
       2 \<mapsto> \<lparr>a_parent = Some 1, a_left = NULL, a_right = NULL, a_height = 1, a_cnt = 1\<rparr>],
     zhash = [1 \<mapsto> \<lparr>hnext = NULL, hcode = 1712125394\<rparr>, 2 \<mapsto> \<lparr>hnext = NULL, hcode = 1728903013\<rparr>],
     zdata = [1 \<mapsto> \<lparr>zscore = 0x3FF0000000000000, zname = [97]\<rparr>,
       2 \<mapsto> \<lparr>zscore = 0x4000000000000000, zname = [98]\<rparr>],
     zbrk = 3\<rparr>"

definition ex_zset :: zset where
  "ex_zset = \<lparr>root = Some 1, zhmap = \<lparr>
     newer = \<lparr>tab = Some [NULL, Some 2, Some 1, NULL], hmask = 3, hsize = 2\<rparr>,
     older = empty_htab, migrate_pos = 0\<rparr>\<rparr>"

abbreviation ex_ztree :: "addr tree" where
  "ex_ztree \<equiv> Node Leaf 1 (Node Leaf 2 Leaf)"

lemma str_hash_a: "str_hash [97] = 1712125394" and str_hash_b: "str_hash [98] = 1728903013"
  by (simp_all add: str_hash_def)

lemma ex_zpay: "zpay ex_zmem 1 = \<lparr>zscore = 0x3FF0000000000000, zname = [97]\<rparr>"
  "zpay ex_zmem 2 = \<lparr>zscore = 0x4000000000000000, zname = [98]\<rparr>"
  by (simp_all add: zpay_def ex_zmem_def)

lemma ex_dbl_key: "dbl_key 0x3FF0000000000000 = 0x3FF0000000000000" "dbl_key 0x4000000000000000 = 0x4000000000000000"
    "\<not> dbl_isnan 0x3FF0000000000000" "\<not> dbl_isnan 0x4000000000000000"
  by (simp_all add: dbl_key_def dbl_isnan_def dbl_inf_def dbl_neg_def dbl_mag_def)

lemma ex_zset_tree: "ztree_ok ex_zmem (root ex_zset) ex_ztree"
  unfolding ztree_ok_def avl_tree_def ordered_def
  by (simp add: zkey_of_def zpay_def ex_zmem_def ex_dbl_key ex_zset_def nd_def znode_ok_def)

lemma ex_zset_hash:
  "hmap_set (zhash ex_zmem) (\<lambda>a. str_hash (nname ex_zmem a)) (zhmap ex_zset) (set_tree ex_ztree)"
proof (rule hmap_setI)
  have "htab_rep (zhash ex_zmem) (\<lambda>a. str_hash (nname ex_zmem a)) (newer (zhmap ex_zset)) [[], [2], [1], []]"
    by (rule htab_rep_eval [of _ _ 2])
      (simp_all add: ex_zset_def ex_zmem_def slot_of_def zpay_def str_hash_a str_hash_b)
  then show "hmap_rep (zhash ex_zmem) (\<lambda>a. str_hash (nname ex_zmem a)) (zhmap ex_zset) [[], [2], [1], []] []"
    by (simp add: hmap_rep_def ex_zset_def htab_rep_def empty_htab_def)
qed (auto simp: load_ok_def)

lemma ex_zset_ok: "zset_ok ex_zmem ex_zset ex_ztree"
  unfolding zset_ok_def using ex_zset_tree ex_zset_hash
  by (simp add: zpay_def inj_on_def ex_zmem_def)

text \<open>C24: insertion.  On a sorted set, \<open>zset_insert\<close> of a score that is not a NaN terminates
  without an invalid access and leaves a sorted set whose map from names to scores is the old
  one with the name set to the score; it reports whether the name is new, keeps the stored
  score when the new one compares equal (0 and -0), links one new node exactly when the name
  is new, and touches no node outside the set.\<close>

theorem zset_insert_correct:
  assumes "zset_ok m z t" "\<not> dbl_isnan score" "size t + 1 < 2 ^ 31"
  shows "\<exists>m' z' t'. zset_insert m z name score = Some (zabs m t name = None, m', z') \<and>
    zset_ok m' z' t' \<and> zabs m' t' = (zabs m t)(name \<mapsto> new_score (zabs m t) name score) \<and>
    set_tree t' = set_tree t \<union> (if zabs m t name = None then {zbrk m} else {}) \<and>
    zframe (set_tree t) m m'"
proof -
  from zset_insert_ok [OF assms, of name] obtain m' z' t' where
    "zset_insert m z name score = Some (zabs m t name = None, m', z')" "zset_ok m' z' t'"
    "zabs m' t' = (zabs m t)(name \<mapsto> new_score (zabs m t) name score)"
    "zframe (set_tree t) m m'"
    "set_tree t' = (if zabs m t name = None then insert (zbrk m) (set_tree t) else set_tree t)" .
  then show ?thesis by (intro exI [of _ m'] exI [of _ z'] exI [of _ t']) auto
qed

theorem zset_insert_witness:
  "\<exists>m' z' t'. zset_insert ex_zmem ex_zset [99] 0 = Some (zabs ex_zmem ex_ztree [99] = None, m', z') \<and>
    zset_ok m' z' t' \<and>
    zabs m' t' = (zabs ex_zmem ex_ztree)([99] \<mapsto> new_score (zabs ex_zmem ex_ztree) [99] 0) \<and>
    set_tree t' = set_tree ex_ztree \<union> (if zabs ex_zmem ex_ztree [99] = None then {zbrk ex_zmem} else {}) \<and>
    zframe (set_tree ex_ztree) ex_zmem m'"
  by (rule zset_insert_correct [OF ex_zset_ok]) (simp_all add: dbl_isnan_def dbl_mag_def)

section \<open>The contract of lookup and deletion\<close>

text \<open>What the commands may rely on, whatever the two indexes do internally: \<open>rep m z t\<close> says that the
  set \<open>z\<close> in memory \<open>m\<close> is well formed with the nodes \<open>nodes t\<close>, and \<open>scores m t\<close> is the map
  from names to scores it stands for.\<close>

locale score_map =
  fixes rep :: "'m \<Rightarrow> 'z \<Rightarrow> 't \<Rightarrow> bool"
    and scores :: "'m \<Rightarrow> 't \<Rightarrow> bytes \<rightharpoonup> u64"
    and nodes :: "'t \<Rightarrow> addr set"
    and frame :: "addr set \<Rightarrow> 'm \<Rightarrow> 'm \<Rightarrow> bool"
    and name_of :: "'m \<Rightarrow> addr \<Rightarrow> bytes"
    and score_at :: "'m \<Rightarrow> addr \<Rightarrow> u64 option"
    and lookup :: "'m \<Rightarrow> 'z \<Rightarrow> bytes \<Rightarrow> (ptr \<times> 'm \<times> 'z) option"
    and del :: "'m \<Rightarrow> 'z \<Rightarrow> addr \<Rightarrow> ('m \<times> 'z) option"
  assumes frame_step: "frame S m m1 \<Longrightarrow> frame S m1 m2 \<Longrightarrow> frame S m m2"
    and node_score: "rep m z t \<Longrightarrow> a \<in> nodes t \<Longrightarrow> \<exists>s. score_at m a = Some s \<and> scores m t (name_of m a) = Some s"
    and lookup_law: "rep m z t \<Longrightarrow> \<exists>r m1 z1. lookup m z n = Some (r, m1, z1) \<and> rep m1 z1 t \<and>
      scores m1 t = scores m t \<and> frame (nodes t) m m1 \<and>
      (case r of None \<Rightarrow> scores m t n = None | Some a \<Rightarrow> a \<in> nodes t \<and> name_of m1 a = n)"
    and delete_law: "rep m z t \<Longrightarrow> a \<in> nodes t \<Longrightarrow> \<exists>m1 z1 t1. del m z a = Some (m1, z1) \<and> rep m1 z1 t1 \<and>
      nodes t1 = nodes t - {a} \<and> scores m1 t1 = (scores m t)(name_of m a := None) \<and> frame (nodes t) m m1"
begin

text \<open>Looking a name up finds a node with its score exactly when it has one.\<close>

lemma find:
  assumes "rep m z t"
  obtains r m1 z1 where "lookup m z n = Some (r, m1, z1)" "rep m1 z1 t" "scores m1 t = scores m t"
    "frame (nodes t) m m1" "r = None \<longleftrightarrow> scores m t n = None"
    "\<forall>a. r = Some a \<longrightarrow> a \<in> nodes t \<and> name_of m1 a = n \<and> score_at m1 a = scores m t n"
proof -
  from lookup_law [OF assms, of n] obtain r m1 z1 where
    l: "lookup m z n = Some (r, m1, z1)" "rep m1 z1 t" "scores m1 t = scores m t" "frame (nodes t) m m1"
      "case r of None \<Rightarrow> scores m t n = None | Some a \<Rightarrow> a \<in> nodes t \<and> name_of m1 a = n" by blast
  show thesis
  proof (cases r)
    case None
    then show thesis using that [OF l(1-4)] l(5) by simp
  next
    case (Some a)
    then have a: "a \<in> nodes t" "name_of m1 a = n" using l(5) by simp_all
    from node_score [OF l(2) a(1)] obtain s where "score_at m1 a = Some s" "scores m t n = Some s"
      using a(2) l(3) by auto
    then show thesis using that [OF l(1-4)] Some a by simp
  qed
qed

text \<open>Looking a name up and deleting what was found removes exactly that name.\<close>

lemma remove:
  assumes "rep m z t"
  obtains r m1 z1 m2 z2 t2 where "lookup m z n = Some (r, m1, z1)"
    "(case r of None \<Rightarrow> Some (m1, z1) | Some a \<Rightarrow> del m1 z1 a) = Some (m2, z2)" "rep m2 z2 t2" "nodes t2 \<subseteq> nodes t"
    "scores m2 t2 = (scores m t)(n := None)" "frame (nodes t) m m2" "r = None \<longleftrightarrow> scores m t n = None"
proof -
  from find [OF assms, of n] obtain r m1 z1 where
    f: "lookup m z n = Some (r, m1, z1)" "rep m1 z1 t" "scores m1 t = scores m t" "frame (nodes t) m m1"
      "r = None \<longleftrightarrow> scores m t n = None"
      "\<forall>a. r = Some a \<longrightarrow> a \<in> nodes t \<and> name_of m1 a = n \<and> score_at m1 a = scores m t n" .
  show thesis
  proof (cases r)
    case None
    then have "scores m1 t = (scores m t)(n := None)" using f(3,5) by (simp add: fun_upd_idem)
    then show thesis using that [OF f(1) _ f(2) _ _ f(4,5)] None by simp
  next
    case (Some a)
    then have a: "a \<in> nodes t" "name_of m1 a = n" using f(6) by simp_all
    from delete_law [OF f(2) a(1)] obtain m2 z2 t2 where
      d: "del m1 z1 a = Some (m2, z2)" "rep m2 z2 t2" "nodes t2 = nodes t - {a}"
        "scores m2 t2 = (scores m1 t)(name_of m1 a := None)" "frame (nodes t) m1 m2" by blast
    show thesis
      using that [OF f(1) _ d(2) _ _ frame_step [OF f(4) d(5)] f(5)] Some d(1,3,4) f(3) a(2) by simp
  qed
qed

end

interpretation zs: score_map zset_ok zabs set_tree zframe nname "\<lambda>m a. map_option zscore (zdata m a)" zset_lookup zset_delete
proof
  fix S m m1 m2 assume "zframe S m m1" "zframe S m1 m2"
  then show "zframe S m m2" by (rule zframe_trans) simp
next
  fix m z t a assume z: "zset_ok m z t" and a: "a \<in> set_tree t"
  then show "\<exists>s. map_option zscore (zdata m a) = Some s \<and> zabs m t (nname m a) = Some s"
    using znode_okD [OF zset_okD(6) [OF z a]] zabs_eq [OF zset_okD(5) [OF z]] by auto
next
  fix m z t n assume z: "zset_ok m z t"
  from zset_lookup_ok [OF z, of n] obtain r h hm where
    l: "zset_lookup m z n = Some (r, m\<lparr>zhash := h\<rparr>, z\<lparr>zhmap := hm\<rparr>)"
      "zset_ok (m\<lparr>zhash := h\<rparr>) (z\<lparr>zhmap := hm\<rparr>) t" "agree_off (set_tree t) (zhash m) h"
      "\<forall>a. r = Some a \<longleftrightarrow> a \<in> set_tree t \<and> nname m a = n" .
  have pay: "zpay (m\<lparr>zhash := h\<rparr>) = zpay m" by (simp add: zpay_def fun_eq_iff)
  then have "zabs (m\<lparr>zhash := h\<rparr>) t = zabs m t" by (simp add: zabs_def)
  moreover have "zframe (set_tree t) m (m\<lparr>zhash := h\<rparr>)" using l(3) by (simp add: frame_defs)
  moreover have "case r of None \<Rightarrow> zabs m t n = None | Some a \<Rightarrow> a \<in> set_tree t \<and> nname (m\<lparr>zhash := h\<rparr>) a = n"
    using l(4) unfolding pay by (cases r) (auto simp: zabs_None)
  ultimately show "\<exists>r m1 z1. zset_lookup m z n = Some (r, m1, z1) \<and> zset_ok m1 z1 t \<and> zabs m1 t = zabs m t \<and>
      zframe (set_tree t) m m1 \<and> (case r of None \<Rightarrow> zabs m t n = None | Some a \<Rightarrow> a \<in> set_tree t \<and> nname m1 a = n)"
    using l(1,2) by blast
next
  fix m z t a assume z: "zset_ok m z t" and a: "a \<in> set_tree t"
  from zset_delete_ok [OF z a] obtain m' z' t' where
    "zset_delete m z a = Some (m', z')" "zset_ok m' z' t'" "set_tree t' = set_tree t - {a}"
    "zabs m' t' = (zabs m t)(nname m a := None)" "zframe (set_tree t) m m'" "zbrk m' = zbrk m" .
  then show "\<exists>m1 z1 t1. zset_delete m z a = Some (m1, z1) \<and> zset_ok m1 z1 t1 \<and> set_tree t1 = set_tree t - {a} \<and>
      zabs m1 t1 = (zabs m t)(nname m a := None) \<and> zframe (set_tree t) m m1" by blast
qed



text \<open>The rank of a pair in the tree: how many nodes are smaller.\<close>

definition zrank :: "zmem \<Rightarrow> addr tree \<Rightarrow> u64 \<Rightarrow> bytes \<Rightarrow> nat" where
  "zrank m t score name = length (takeWhile (\<lambda>a. nkey m a < ZKey (dbl_key score) name) (inorder t))"

lemma zset_seekge_rank:
  assumes "zset_ok m z t" "\<not> dbl_isnan score"
  shows "zset_seekge m z score name = Some (nth_ptr (inorder t) (int (zrank m t score name)))"
proof -
  let ?P = "\<lambda>a. nkey m a < ZKey (dbl_key score) name"
  have "List.find (\<lambda>a. \<not> ?P a) xs = nth_ptr xs (int (length (takeWhile ?P xs)))" for xs
    by (induction xs) (auto simp: nth_ptr_def nat_add_distrib)
  then show ?thesis using zset_seekge_ok [OF assms] by (simp add: zrank_def)
qed

lemma zset_seek_offset:
  assumes "zset_ok m z t"
  shows "znode_offset m (nth_ptr (inorder t) (int k)) off =
    Some (if k < size t then nth_ptr (inorder t) (int k + sint off) else NULL)"
  using znode_offset_ok [OF assms, of k off] by (simp add: nth_ptr_def)

text \<open>C26: range queries.  The nodes in tree order are strictly increasing in (score, name);
  \<open>zset_seekge\<close> finds the first of them that is not below the given pair, and
  \<open>znode_offset\<close> from there reaches the node whose rank is the number of smaller nodes plus
  the offset, or returns a null pointer when there is no such rank or nothing was found.\<close>

theorem zset_query_correct:
  assumes "zset_ok m z t" "\<not> dbl_isnan score"
  shows "sorted_wrt (\<lambda>a b. nkey m a < nkey m b) (inorder t) \<and>
    (\<exists>p. zset_seekge m z score name = Some p \<and>
      znode_offset m p off = Some (if zrank m t score name < size t
        then nth_ptr (inorder t) (int (zrank m t score name) + sint off) else NULL))"
  using zset_seekge_rank [OF assms, of name] zset_seek_offset [OF assms(1), of "zrank m t score name" off]
    zset_okD(3) [OF assms(1)] by (simp add: ordered_def)

theorem zset_query_witness:
  "zset_seekge ex_zmem ex_zset 0x3FF0000000000000 [98] = Some (Some 2) \<and>
   znode_offset ex_zmem (Some 2) (- 1) = Some (Some 1)"
proof -
  have k: "zrank ex_zmem ex_ztree 0x3FF0000000000000 [98] = 1"
    by (simp add: zrank_def zkey_of_def zpay_def ex_zmem_def ex_dbl_key)
  have q: "\<exists>p. zset_seekge ex_zmem ex_zset 0x3FF0000000000000 [98] = Some p \<and>
      znode_offset ex_zmem p off = Some (nth_ptr [1, 2] (1 + sint off))" for off
    using zset_query_correct [OF ex_zset_ok ex_dbl_key(3), of "[98]" off] k by simp
  have off0: "znode_offset ex_zmem p 0 = Some p" for p
    by (cases p) (simp_all add: znode_offset_def avl_offset_def avl_offset_loop.simps)
  show ?thesis using q [of 0] q [of "- 1"] by (auto simp: off0 nth_ptr_def)
qed

end
