(* ===== verification/TimerHeap.thy ===== *)
theory TimerHeap
  imports Prelude "HOL-Library.Multiset"
begin

text \<open>
  \<^verbatim>\<open>lib/server/heap.cpp\<close>: the binary min-heap of expiry times.  Every item
  carries the address of a \<^verbatim>\<open>size_t\<close> (the \<open>heap_idx\<close> field of the entry it
  belongs to), through which the heap keeps the entry informed of its position.  The state is
  the array of items and the store of these back references.  Positions are \<^verbatim>\<open>size_t\<close>
  values as natural numbers, with the wrap-around of the index arithmetic written out.
\<close>

section \<open>Data and operations\<close>

record heapitem =
  hi_val :: u64
  hi_ref :: ptr

type_synonym refs = "addr \<rightharpoonup> size_t"

definition heap_parent :: "nat \<Rightarrow> nat" where
  "heap_parent i = ((i + 1) mod 2 ^ 64 div 2 + (2 ^ 64 - 1)) mod 2 ^ 64"

definition heap_left :: "nat \<Rightarrow> nat" where
  "heap_left i = (i * 2 + 1) mod 2 ^ 64"

definition heap_right :: "nat \<Rightarrow> nat" where
  "heap_right i = (i * 2 + 2) mod 2 ^ 64"

partial_function (option) heap_up_loop ::
  "heapitem list \<Rightarrow> refs \<Rightarrow> heapitem \<Rightarrow> nat \<Rightarrow> (heapitem list \<times> refs \<times> nat) option" where
  "heap_up_loop a h t pos = do {
     go \<leftarrow> (if pos > 0
           then do { p \<leftarrow> arr_get a (heap_parent pos); Some (hi_val p > hi_val t) }
           else Some False);
     if go then do {
       p \<leftarrow> arr_get a (heap_parent pos);
       a \<leftarrow> arr_set a pos p;
       h \<leftarrow> assign h (hi_ref p) (\<lambda>_. of_nat pos);
       heap_up_loop a h t (heap_parent pos)
     }
     else Some (a, h, pos)
   }"

definition heap_up :: "heapitem list \<Rightarrow> refs \<Rightarrow> nat \<Rightarrow> (heapitem list \<times> refs) option" where
  "heap_up a h pos = do {
     t \<leftarrow> arr_get a pos;
     (a, h, pos) \<leftarrow> heap_up_loop a h t pos;
     a \<leftarrow> arr_set a pos t;
     h \<leftarrow> assign h (hi_ref t) (\<lambda>_. of_nat pos);
     Some (a, h)
   }"

partial_function (option) heap_down_loop ::
  "heapitem list \<Rightarrow> refs \<Rightarrow> heapitem \<Rightarrow> nat \<Rightarrow> nat \<Rightarrow> (heapitem list \<times> refs \<times> nat) option" where
  "heap_down_loop a h t pos len = do {
     let l = heap_left pos;
     let r = heap_right pos;
     let min_pos = pos;
     let min_val = hi_val t;
     (min_pos, min_val) \<leftarrow>
       (if l < len
        then do { x \<leftarrow> arr_get a l;
                  Some (if hi_val x < min_val then (l, hi_val x) else (min_pos, min_val)) }
        else Some (min_pos, min_val));
     min_pos \<leftarrow>
       (if r < len
        then do { x \<leftarrow> arr_get a r; Some (if hi_val x < min_val then r else min_pos) }
        else Some min_pos);
     if min_pos = pos then Some (a, h, pos)
     else do {
       m \<leftarrow> arr_get a min_pos;
       a \<leftarrow> arr_set a pos m;
       h \<leftarrow> assign h (hi_ref m) (\<lambda>_. of_nat pos);
       heap_down_loop a h t min_pos len
     }
   }"

definition heap_down :: "heapitem list \<Rightarrow> refs \<Rightarrow> nat \<Rightarrow> nat \<Rightarrow> (heapitem list \<times> refs) option" where
  "heap_down a h pos len = do {
     t \<leftarrow> arr_get a pos;
     (a, h, pos) \<leftarrow> heap_down_loop a h t pos len;
     a \<leftarrow> arr_set a pos t;
     h \<leftarrow> assign h (hi_ref t) (\<lambda>_. of_nat pos);
     Some (a, h)
   }"

definition heap_update :: "heapitem list \<Rightarrow> refs \<Rightarrow> nat \<Rightarrow> nat \<Rightarrow> (heapitem list \<times> refs) option" where
  "heap_update a h pos len = do {
     up \<leftarrow> (if pos > 0
           then do { p \<leftarrow> arr_get a (heap_parent pos); x \<leftarrow> arr_get a pos; Some (hi_val p > hi_val x) }
           else Some False);
     if up then heap_up a h pos else heap_down a h pos len
   }"

definition heap_delete :: "heapitem list \<Rightarrow> refs \<Rightarrow> nat \<Rightarrow> (heapitem list \<times> refs) option" where
  "heap_delete a h pos = do {
     c_assert (a \<noteq> []);
     a \<leftarrow> arr_set a pos (last a);
     let a = butlast a;
     if pos < length a then heap_update a h pos (length a) else Some (a, h)
   }"

definition heap_upsert ::
  "heapitem list \<Rightarrow> refs \<Rightarrow> nat \<Rightarrow> heapitem \<Rightarrow> (heapitem list \<times> refs) option" where
  "heap_upsert a h pos t = do {
     (a, pos) \<leftarrow> (if pos < length a
                 then do { a \<leftarrow> arr_set a pos t; Some (a, pos) }
                 else Some (a @ [t], length a));
     heap_update a h pos (length a)
   }"

section \<open>The heap invariant\<close>

definition par :: "nat \<Rightarrow> nat" where
  "par i = (i - 1) div 2"

lemma heap_parent_simp: "0 < i \<Longrightarrow> i < 2 ^ 60 \<Longrightarrow> heap_parent i = par i"
  by (cases i) (auto simp: heap_parent_def par_def)

lemma heap_left_simp: "i < 2 ^ 60 \<Longrightarrow> heap_left i = 2 * i + 1"
  and heap_right_simp: "i < 2 ^ 60 \<Longrightarrow> heap_right i = 2 * i + 2"
  by (auto simp: heap_left_def heap_right_def)

lemma par_eq: "0 < i \<Longrightarrow> par i = p \<longleftrightarrow> i = 2 * p + 1 \<or> i = 2 * p + 2"
  by (cases i) (auto simp: par_def)

lemma par_less: "0 < i \<Longrightarrow> par i < i"
  by (cases i) (auto simp: par_def)

lemma par_bound: "0 < i \<Longrightarrow> i < n \<Longrightarrow> par i < n"
  by (meson par_less less_trans)

text \<open>\<open>ord_at a i\<close>: item \<open>i\<close> is not smaller than its parent.\<close>

definition ord_at :: "heapitem list \<Rightarrow> nat \<Rightarrow> bool" where
  "ord_at a i \<longleftrightarrow> hi_val (a ! par i) \<le> hi_val (a ! i)"

definition heap_order :: "heapitem list \<Rightarrow> bool" where
  "heap_order a \<longleftrightarrow> (\<forall>i. 0 < i \<and> i < length a \<longrightarrow> ord_at a i)"

text \<open>The heap order around one position that may hold any value.\<close>

definition ord_around :: "heapitem list \<Rightarrow> nat \<Rightarrow> bool" where
  "ord_around a pos \<longleftrightarrow>
     (\<forall>i. 0 < i \<and> i < length a \<and> i \<noteq> pos \<and> par i \<noteq> pos \<longrightarrow> ord_at a i) \<and>
     (\<forall>i. 0 < i \<and> i < length a \<and> par i = pos \<and> 0 < pos \<longrightarrow> hi_val (a ! par pos) \<le> hi_val (a ! i))"

definition up_ok :: "heapitem list \<Rightarrow> nat \<Rightarrow> bool" where
  "up_ok a pos \<longleftrightarrow> ord_around a pos \<and> (\<forall>i. 0 < i \<and> i < length a \<and> par i = pos \<longrightarrow> ord_at a i)"

definition down_ok :: "heapitem list \<Rightarrow> nat \<Rightarrow> bool" where
  "down_ok a pos \<longleftrightarrow> ord_around a pos \<and> (0 < pos \<longrightarrow> ord_at a pos)"

definition swap :: "heapitem list \<Rightarrow> nat \<Rightarrow> nat \<Rightarrow> heapitem list" where
  "swap a i j = a[i := a ! j, j := a ! i]"

lemma length_swap [simp]: "length (swap a i j) = length a"
  by (simp add: swap_def)

lemma mset_swap_eq: "i < length a \<Longrightarrow> j < length a \<Longrightarrow> mset (swap a i j) = mset a"
  by (simp add: swap_def Multiset.mset_swap)

lemma nth_swap: "i < length a \<Longrightarrow> j < length a \<Longrightarrow> k < length a \<Longrightarrow>
  swap a i j ! k = (if k = i then a ! j else if k = j then a ! i else a ! k)"
  by (auto simp: swap_def nth_list_update)

lemma up_swap:
  assumes u: "up_ok a pos" and p: "0 < pos" "pos < length a" and g: "hi_val (a ! pos) < hi_val (a ! par pos)"
  shows "up_ok (swap a pos (par pos)) (par pos)"
proof -
  let ?q = "par pos" and ?b = "swap a pos (par pos)"
  have q: "?q < pos" "?q < length a" using p par_less par_bound by auto
  have nth: "k < length a \<Longrightarrow> ?b ! k = (if k = pos then a ! ?q else if k = ?q then a ! pos else a ! k)" for k
    using nth_swap p q by blast
  have old: "ord_at a i" if "0 < i" "i < length a" "i \<noteq> pos" for i
    using u that by (auto simp: up_ok_def ord_around_def)
  have kids: "hi_val (a ! ?q) \<le> hi_val (a ! i)" if "0 < i" "i < length a" "par i = pos" for i
    using u that p by (auto simp: up_ok_def ord_around_def)
  have ord: "ord_at ?b i" if i: "0 < i" "i < length a" "i \<noteq> ?q" for i
  proof -
    have pi: "par i < length a" "par i < i" using i par_less par_bound by auto
    consider "i = pos" | "i \<noteq> pos" "par i = pos" | "i \<noteq> pos" "par i = ?q"
      | "i \<noteq> pos" "par i \<noteq> pos" "par i \<noteq> ?q" by blast
    then show ?thesis
    proof cases
      case 1
      then show ?thesis using g q p by (simp add: ord_at_def nth)
    next
      case 2
      then show ?thesis using kids [of i] i q p pi by (simp add: ord_at_def nth)
    next
      case 3
      then have "hi_val (a ! ?q) \<le> hi_val (a ! i)" using old [of i] i by (simp add: ord_at_def)
      then show ?thesis using 3 g i q p pi by (simp add: ord_at_def nth)
    next
      case 4
      then show ?thesis using old [of i] i q p pi by (simp add: ord_at_def nth)
    qed
  qed
  have grand: "hi_val (?b ! par ?q) \<le> hi_val (?b ! i)" if i: "0 < i" "i < length a" "par i = ?q" "0 < ?q" for i
  proof -
    have le: "hi_val (a ! par ?q) \<le> hi_val (a ! ?q)" using old [of ?q] q i(4) by (simp add: ord_at_def)
    have pq: "par ?q < ?q" using par_less i(4) by blast
    show ?thesis
    proof (cases "i = pos")
      case True
      then show ?thesis using le q p pq by (simp add: nth)
    next
      case False
      then have "hi_val (a ! ?q) \<le> hi_val (a ! i)" using old [of i] i by (simp add: ord_at_def)
      moreover have "i \<noteq> ?q" using i par_less [of i] by auto
      ultimately show ?thesis using False le q i pq by (simp add: nth)
    qed
  qed
  have ne: "i \<noteq> ?q" if "0 < i" "par i = ?q" for i using par_less [of i] that by auto
  show ?thesis using ord grand ne by (auto simp: up_ok_def ord_around_def)
qed

lemma up_done:
  assumes "up_ok a pos" "pos = 0 \<or> \<not> hi_val (a ! pos) < hi_val (a ! par pos)"
  shows "heap_order a"
  unfolding heap_order_def
proof (intro allI impI)
  fix i assume i: "0 < i \<and> i < length a"
  show "ord_at a i"
  proof (cases "i = pos")
    case True
    with assms(2) i show ?thesis by (auto simp: ord_at_def)
  next
    case False
    with assms(1) i show ?thesis by (cases "par i = pos") (auto simp: up_ok_def ord_around_def)
  qed
qed

lemma down_swap:
  assumes d: "down_ok a pos" and p: "pos < length a" and c: "0 < c" "c < length a" "par c = pos"
    and g: "hi_val (a ! c) < hi_val (a ! pos)"
    and m: "\<forall>i. 0 < i \<and> i < length a \<and> par i = pos \<longrightarrow> hi_val (a ! c) \<le> hi_val (a ! i)"
  shows "down_ok (swap a pos c) c"
proof -
  let ?b = "swap a pos c"
  have pc: "pos < c" using c par_less by auto
  have nth: "k < length a \<Longrightarrow> ?b ! k = (if k = pos then a ! c else if k = c then a ! pos else a ! k)" for k
    using nth_swap p c(2) by blast
  have old: "ord_at a i" if "0 < i" "i < length a" "par i \<noteq> pos" for i
    using d that by (auto simp: down_ok_def ord_around_def)
  have kids: "hi_val (a ! par pos) \<le> hi_val (a ! i)" if "0 < i" "i < length a" "par i = pos" "0 < pos" for i
    using d that p by (auto simp: down_ok_def ord_around_def)
  have ord: "ord_at ?b i" if i: "0 < i" "i < length a" "par i \<noteq> c" for i
  proof -
    have pi: "par i < length a" "par i < i" using i par_less par_bound by auto
    consider "i = pos" | "i = c" | "i \<noteq> pos" "i \<noteq> c" "par i = pos" | "i \<noteq> pos" "i \<noteq> c" "par i \<noteq> pos" by blast
    then show ?thesis
    proof cases
      case 1
      then show ?thesis using kids [of c] c i p pi pc by (simp add: ord_at_def nth)
    next
      case 2
      then show ?thesis using g c p pc by (simp add: ord_at_def nth)
    next
      case 3
      then show ?thesis using m i c p pi by (simp add: ord_at_def nth)
    next
      case 4
      then show ?thesis using old [of i] i c p pi by (simp add: ord_at_def nth)
    qed
  qed
  have grand: "hi_val (?b ! par c) \<le> hi_val (?b ! i)" if i: "0 < i" "i < length a" "par i = c" for i
  proof -
    have "ord_at a i" using old [of i] i c(3) pc by simp
    moreover have "i \<noteq> c" "i \<noteq> pos" using i par_less [of i] pc by auto
    ultimately show ?thesis using i c p pc by (simp add: ord_at_def nth)
  qed
  have "c \<noteq> par c" using c pc by simp
  with ord [OF c(1,2)] ord grand show ?thesis by (auto simp: down_ok_def ord_around_def)
qed

lemma down_done:
  assumes "down_ok a pos" "\<forall>i. 0 < i \<and> i < length a \<and> par i = pos \<longrightarrow> \<not> hi_val (a ! i) < hi_val (a ! pos)"
  shows "heap_order a"
  unfolding heap_order_def
proof (intro allI impI)
  fix i assume i: "0 < i \<and> i < length a"
  show "ord_at a i"
  proof (cases "par i = pos")
    case True
    with assms(2) i show ?thesis by (auto simp: ord_at_def)
  next
    case False
    with assms(1) i show ?thesis by (cases "i = pos") (auto simp: down_ok_def ord_around_def)
  qed
qed

lemma around_up:
  assumes a: "ord_around a pos" and p: "0 < pos" "hi_val (a ! pos) < hi_val (a ! par pos)"
  shows "up_ok a pos"
  unfolding up_ok_def
proof (intro conjI allI impI, rule a)
  fix i assume i: "0 < i \<and> i < length a \<and> par i = pos"
  then have "hi_val (a ! par pos) \<le> hi_val (a ! i)" using a p by (simp add: ord_around_def)
  with p(2) i show "ord_at a i" by (auto simp: ord_at_def)
qed

lemma around_down:
  assumes "ord_around a pos" "pos = 0 \<or> \<not> hi_val (a ! pos) < hi_val (a ! par pos)"
  shows "down_ok a pos"
  using assms by (auto simp: down_ok_def ord_at_def)

lemma heap_order_around: "heap_order a \<Longrightarrow> ord_around a pos"
proof (unfold ord_around_def, intro conjI allI impI)
  assume h: "heap_order a"
  fix i
  show "ord_at a i" if "0 < i \<and> i < length a \<and> i \<noteq> pos \<and> par i \<noteq> pos"
    using h that by (simp add: heap_order_def)
  assume i: "0 < i \<and> i < length a \<and> par i = pos \<and> 0 < pos"
  then have "pos < i" using par_less [of i] by blast
  with h i have "ord_at a i" "ord_at a pos" by (auto simp: heap_order_def)
  with i show "hi_val (a ! par pos) \<le> hi_val (a ! i)" by (auto simp: ord_at_def)
qed

text \<open>Only the order around the position matters for another value there.\<close>

lemma ord_around_cong:
  assumes "ord_around a pos" "length b \<le> length a" "\<forall>i < length b. i \<noteq> pos \<longrightarrow> b ! i = a ! i"
  shows "ord_around b pos"
  unfolding ord_around_def
proof (intro conjI allI impI)
  fix i
  assume i: "0 < i \<and> i < length b \<and> i \<noteq> pos \<and> par i \<noteq> pos"
  then have "par i < length b" using par_less [of i] by linarith
  with i assms show "ord_at b i" by (auto simp: ord_around_def ord_at_def)
next
  fix i
  assume i: "0 < i \<and> i < length b \<and> par i = pos \<and> 0 < pos"
  then have p: "pos < i" "par pos < pos" using par_less by blast+
  with i assms(2,3) have "b ! i = a ! i" "b ! par pos = a ! par pos" by auto
  with i assms(1,2) show "hi_val (b ! par pos) \<le> hi_val (b ! i)" by (simp add: ord_around_def)
qed

section \<open>The back references\<close>

definition refs_of :: "heapitem list \<Rightarrow> addr set" where
  "refs_of a = {x. Some x \<in> hi_ref ` set a}"

definition refs_ok :: "heapitem list \<Rightarrow> refs \<Rightarrow> bool" where
  "refs_ok a h \<longleftrightarrow> (\<forall>i < length a. deref h (hi_ref (a ! i)) = Some (of_nat i))"

definition heap_ok :: "heapitem list \<Rightarrow> refs \<Rightarrow> bool" where
  "heap_ok a h \<longleftrightarrow> heap_order a \<and> refs_ok a h \<and> length a < 2 ^ 60"

text \<open>The state inside the loops: the item \<open>t\<close> is out of the array, and position \<open>pos\<close> is free.\<close>

definition hole :: "heapitem list \<Rightarrow> refs \<Rightarrow> heapitem \<Rightarrow> nat \<Rightarrow> bool" where
  "hole a h t pos \<longleftrightarrow> pos < length a \<and> length a < 2 ^ 60 \<and> distinct (map hi_ref (a[pos := t])) \<and>
     (\<forall>i < length a. i \<noteq> pos \<longrightarrow> deref h (hi_ref (a ! i)) = Some (of_nat i)) \<and>
     deref h (hi_ref t) \<noteq> None"

lemma refs_of_mset: "mset a = mset b \<Longrightarrow> refs_of a = refs_of b"
  by (metis refs_of_def set_mset_mset)

lemma refs_ok_distinct:
  assumes "refs_ok a h" "length a < 2 ^ 60"
  shows "distinct (map hi_ref a)"
proof (subst distinct_conv_nth, intro allI impI)
  fix i j assume ij: "i < length (map hi_ref a)" "j < length (map hi_ref a)" "i \<noteq> j"
  then have "(of_nat i :: u64) \<noteq> of_nat j" using assms(2) by (subst of_nat_u64_inject) auto
  moreover have "deref h (map hi_ref a ! i) = Some (of_nat i)" "deref h (map hi_ref a ! j) = Some (of_nat j)"
    using assms(1) ij by (auto simp: refs_ok_def)
  ultimately show "map hi_ref a ! i \<noteq> map hi_ref a ! j" by auto
qed

lemma hole_swap:
  assumes "pos < length a" "q < length a" "q \<noteq> pos"
  shows "(a[pos := a ! q])[q := t] = swap (a[pos := t]) pos q"
  using assms by (simp add: swap_def list_update_swap)

lemma hole_step:
  assumes h: "hole a h t pos" and q: "q < length a" "q \<noteq> pos"
  obtains h' where
    "assign h (hi_ref (a ! q)) (\<lambda>_. of_nat pos) = Some h'" "hole (a[pos := a ! q]) h' t q"
    "agree_off (refs_of (a[pos := t])) h h'"
proof -
  have pos: "pos < length a" "length a < 2 ^ 60" and d: "distinct (map hi_ref (a[pos := t]))"
    and r: "\<And>i. i < length a \<Longrightarrow> i \<noteq> pos \<Longrightarrow> deref h (hi_ref (a ! i)) = Some (of_nat i)"
    and t: "deref h (hi_ref t) \<noteq> None"
    using h by (auto simp: hole_def)
  obtain x where x: "hi_ref (a ! q) = Some x" "h x = Some (of_nat q)"
    using r [OF q] by (cases "hi_ref (a ! q)") auto
  let ?h = "h(x \<mapsto> of_nat pos)"
  have run: "assign h (hi_ref (a ! q)) (\<lambda>_. of_nat pos) = Some ?h" using x by simp
  have other: "hi_ref (a ! i) \<noteq> Some x" if "i < length a" "i \<noteq> pos" "i \<noteq> q" for i
  proof
    assume "hi_ref (a ! i) = Some x"
    then have "map hi_ref (a[pos := t]) ! i = map hi_ref (a[pos := t]) ! q"
      using that q x by simp
    then show False using nth_eq_iff_index_eq [OF d, of i q] that q by simp
  qed
  have "mset ((a[pos := a ! q])[q := t]) = mset (a[pos := t])"
    using hole_swap [OF pos(1) q] mset_swap_eq [of pos "a[pos := t]" q] pos q by simp
  then have "distinct (map hi_ref ((a[pos := a ! q])[q := t]))"
    using d by (metis mset_eq_imp_distinct_iff mset_map)
  moreover have "deref ?h (hi_ref (a[pos := a ! q] ! i)) = Some (of_nat i)"
    if "i < length a" "i \<noteq> q" for i
  proof (cases "i = pos")
    case True then show ?thesis using x pos by simp
  next
    case False
    then show ?thesis using r [OF that(1)] other [OF that(1) _ that(2)]
      by (cases "hi_ref (a ! i)") auto
  qed
  moreover have "deref ?h (hi_ref t) \<noteq> None" using t by (cases "hi_ref t") auto
  ultimately have "hole (a[pos := a ! q]) ?h t q" using q pos by (simp add: hole_def)
  moreover have "agree_off (refs_of (a[pos := t])) h ?h"
  proof (rule agree_off_upd)
    have "a ! q \<in> set (a[pos := t])" using q pos by (metis length_list_update nth_list_update_neq nth_mem)
    then show "x \<in> refs_of (a[pos := t])" using x(1) by (force simp: refs_of_def)
  qed
  ultimately show thesis using that run by blast
qed

lemma hole_fill:
  assumes h: "hole a h t pos"
  obtains h' where
    "arr_set a pos t = Some (a[pos := t])" "assign h (hi_ref t) (\<lambda>_. of_nat pos) = Some h'"
    "refs_ok (a[pos := t]) h'" "agree_off (refs_of (a[pos := t])) h h'"
proof -
  have pos: "pos < length a" and d: "distinct (map hi_ref (a[pos := t]))"
    and r: "\<And>i. i < length a \<Longrightarrow> i \<noteq> pos \<Longrightarrow> deref h (hi_ref (a ! i)) = Some (of_nat i)"
    and t: "deref h (hi_ref t) \<noteq> None"
    using h by (auto simp: hole_def)
  from t obtain x v where x: "hi_ref t = Some x" "h x = Some v" by (cases "hi_ref t") auto
  let ?h = "h(x \<mapsto> of_nat pos)"
  have "deref ?h (hi_ref (a[pos := t] ! i)) = Some (of_nat i)" if "i < length a" for i
  proof (cases "i = pos")
    case True then show ?thesis using x pos by simp
  next
    case False
    have "map hi_ref (a[pos := t]) ! i \<noteq> map hi_ref (a[pos := t]) ! pos"
      using nth_eq_iff_index_eq [OF d, of i pos] that pos False by simp
    then have "hi_ref (a ! i) \<noteq> Some x" using x that pos False by simp
    then show ?thesis using r [OF that False] False by (cases "hi_ref (a ! i)") auto
  qed
  moreover have "agree_off (refs_of (a[pos := t])) h ?h"
  proof (rule agree_off_upd)
    have "t \<in> set (a[pos := t])" using pos by (rule set_update_memI)
    then show "x \<in> refs_of (a[pos := t])" using x(1) by (force simp: refs_of_def)
  qed
  ultimately show thesis using that x pos by (simp add: refs_ok_def)
qed

lemma heap_up_loop_ok:
  assumes "hole a h t pos" "up_ok (a[pos := t]) pos"
  shows "\<exists>a' h' pos'. heap_up_loop a h t pos = Some (a', h', pos') \<and> hole a' h' t pos' \<and>
           heap_order (a'[pos' := t]) \<and> mset (a'[pos' := t]) = mset (a[pos := t]) \<and>
           agree_off (refs_of (a[pos := t])) h h'"
  using assms
proof (induction pos arbitrary: a h rule: less_induct)
  case (less pos)
  have pos: "pos < length a" "pos < 2 ^ 60" using less.prems(1) by (auto simp: hole_def)
  show ?case
  proof (cases "0 < pos \<and> hi_val t < hi_val (a ! par pos)")
    case False
    then have "heap_up_loop a h t pos = Some (a, h, pos)"
      using pos par_bound [of pos "length a"]
      by (subst heap_up_loop.simps) (auto simp: heap_parent_simp)
    moreover have "heap_order (a[pos := t])"
      by (rule up_done [OF less.prems(2)]) (use False pos par_less [of pos] in auto)
    ultimately show ?thesis using less.prems(1) by auto
  next
    case True
    let ?q = "par pos"
    have q: "?q < length a" "?q \<noteq> pos" "?q < pos" using True pos par_less [of pos] by auto
    from hole_step [OF less.prems(1) q(1,2)] obtain h1 where
      s: "assign h (hi_ref (a ! ?q)) (\<lambda>_. of_nat pos) = Some h1" "hole (a[pos := a ! ?q]) h1 t ?q"
        "agree_off (refs_of (a[pos := t])) h h1" .
    have sw: "(a[pos := a ! ?q])[?q := t] = swap (a[pos := t]) pos ?q"
      by (rule hole_swap [OF pos(1) q(1,2)])
    have ms: "mset ((a[pos := a ! ?q])[?q := t]) = mset (a[pos := t])"
      unfolding sw by (rule mset_swap_eq) (use pos q in auto)
    have "up_ok (swap (a[pos := t]) pos ?q) ?q"
      by (rule up_swap [OF less.prems(2)]) (use True pos q in auto)
    with less.IH [OF q(3) s(2)] sw obtain a' h' pos' where
      r: "heap_up_loop (a[pos := a ! ?q]) h1 t ?q = Some (a', h', pos')" "hole a' h' t pos'"
        "heap_order (a'[pos' := t])" "mset (a'[pos' := t]) = mset ((a[pos := a ! ?q])[?q := t])"
        "agree_off (refs_of ((a[pos := a ! ?q])[?q := t])) h1 h'" by auto
    have "heap_up_loop a h t pos = heap_up_loop (a[pos := a ! ?q]) h1 t ?q"
      using True pos q s(1) by (subst heap_up_loop.simps) (simp add: heap_parent_simp)
    moreover have "agree_off (refs_of (a[pos := t])) h h'"
      using s(3) r(5) refs_of_mset [OF ms] by (simp add: agree_off_trans)
    ultimately show ?thesis using r ms by auto
  qed
qed

text \<open>The smallest of the free position and its children.\<close>

definition min_kid :: "heapitem list \<Rightarrow> u64 \<Rightarrow> nat \<Rightarrow> nat" where
  "min_kid a v pos =
     (let l = 2 * pos + 1; r = 2 * pos + 2;
          (mp, mv) = (if l < length a \<and> hi_val (a ! l) < v then (l, hi_val (a ! l)) else (pos, v))
      in if r < length a \<and> hi_val (a ! r) < mv then r else mp)"

lemma min_kid_self:
  "min_kid a v pos = pos \<Longrightarrow> 0 < i \<Longrightarrow> i < length a \<Longrightarrow> par i = pos \<Longrightarrow> \<not> hi_val (a ! i) < v"
  by (auto simp: min_kid_def Let_def par_eq split: if_splits)

lemma min_kid_kid:
  assumes "min_kid a v pos \<noteq> pos"
  shows "0 < min_kid a v pos" "min_kid a v pos < length a" "par (min_kid a v pos) = pos"
    "hi_val (a ! min_kid a v pos) < v"
    "0 < i \<Longrightarrow> i < length a \<Longrightarrow> par i = pos \<Longrightarrow> hi_val (a ! min_kid a v pos) \<le> hi_val (a ! i)"
  using assms by (auto simp: min_kid_def Let_def par_eq split: if_splits)

lemma heap_down_loop_step:
  assumes "pos < length a" "length a < 2 ^ 60"
  shows "heap_down_loop a h t pos (length a) =
     (if min_kid a (hi_val t) pos = pos then Some (a, h, pos)
      else do {
        let m = min_kid a (hi_val t) pos;
        h \<leftarrow> assign h (hi_ref (a ! m)) (\<lambda>_. of_nat pos);
        heap_down_loop (a[pos := a ! m]) h t m (length a)
      })"
  using assms
  by (subst heap_down_loop.simps)
    (auto simp: min_kid_def Let_def heap_left_simp heap_right_simp cong: if_cong split: if_splits)

lemma heap_down_loop_ok:
  assumes "hole a h t pos" "down_ok (a[pos := t]) pos"
  shows "\<exists>a' h' pos'. heap_down_loop a h t pos (length a) = Some (a', h', pos') \<and> hole a' h' t pos' \<and>
           heap_order (a'[pos' := t]) \<and> mset (a'[pos' := t]) = mset (a[pos := t]) \<and>
           agree_off (refs_of (a[pos := t])) h h'"
  using assms
proof (induction "length a - pos" arbitrary: a h pos rule: less_induct)
  case less
  have pos: "pos < length a" "length a < 2 ^ 60" using less.prems(1) by (auto simp: hole_def)
  let ?q = "min_kid a (hi_val t) pos"
  show ?case
  proof (cases "?q = pos")
    case True
    have "heap_order (a[pos := t])"
    proof (rule down_done [OF less.prems(2)], intro allI impI)
      fix i assume i: "0 < i \<and> i < length (a[pos := t]) \<and> par i = pos"
      then have "i \<noteq> pos" using par_less [of i] by auto
      then show "\<not> hi_val (a[pos := t] ! i) < hi_val (a[pos := t] ! pos)"
        using min_kid_self [OF True, of i] i pos by simp
    qed
    then show ?thesis using True less.prems(1) by (simp add: heap_down_loop_step [OF pos])
  next
    case False
    note k = min_kid_kid [OF False]
    have q: "?q < length a" "?q \<noteq> pos" "pos < ?q" using k(1-3) False par_less [of ?q] by auto
    from hole_step [OF less.prems(1) q(1,2)] obtain h1 where
      s: "assign h (hi_ref (a ! ?q)) (\<lambda>_. of_nat pos) = Some h1" "hole (a[pos := a ! ?q]) h1 t ?q"
        "agree_off (refs_of (a[pos := t])) h h1" .
    have sw: "(a[pos := a ! ?q])[?q := t] = swap (a[pos := t]) pos ?q"
      by (rule hole_swap [OF pos(1) q(1,2)])
    have ms: "mset ((a[pos := a ! ?q])[?q := t]) = mset (a[pos := t])"
      unfolding sw by (rule mset_swap_eq) (use pos q in auto)
    have "down_ok (swap (a[pos := t]) pos ?q) ?q"
    proof (rule down_swap [OF less.prems(2) _ k(1) _ k(3)])
      show "\<forall>i. 0 < i \<and> i < length (a[pos := t]) \<and> par i = pos \<longrightarrow>
          hi_val (a[pos := t] ! ?q) \<le> hi_val (a[pos := t] ! i)"
      proof (intro allI impI)
        fix i assume i: "0 < i \<and> i < length (a[pos := t]) \<and> par i = pos"
        then have "i \<noteq> pos" using par_less [of i] by auto
        then show "hi_val (a[pos := t] ! ?q) \<le> hi_val (a[pos := t] ! i)" using k(5) [of i] i q by simp
      qed
    qed (use pos q k(4) in auto)
    moreover have "length (a[pos := a ! ?q]) - ?q < length a - pos" using q pos by simp
    ultimately obtain a' h' pos' where
      r: "heap_down_loop (a[pos := a ! ?q]) h1 t ?q (length a) = Some (a', h', pos')" "hole a' h' t pos'"
        "heap_order (a'[pos' := t])" "mset (a'[pos' := t]) = mset ((a[pos := a ! ?q])[?q := t])"
        "agree_off (refs_of ((a[pos := a ! ?q])[?q := t])) h1 h'"
      using less.hyps [OF _ s(2)] sw by auto
    have "heap_down_loop a h t pos (length a) = heap_down_loop (a[pos := a ! ?q]) h1 t ?q (length a)"
      using False s(1) by (simp add: heap_down_loop_step [OF pos] Let_def)
    moreover have "agree_off (refs_of (a[pos := t])) h h'"
      using s(3) r(5) refs_of_mset [OF ms] by (simp add: agree_off_trans)
    ultimately show ?thesis using r ms by auto
  qed
qed

section \<open>The operations\<close>

text \<open>Restoring the invariant when the item at one position is arbitrary.\<close>

lemma heap_update_ok:
  assumes "ord_around a pos" "pos < length a" "length a < 2 ^ 60" "distinct (map hi_ref a)"
    and "\<forall>i < length a. i \<noteq> pos \<longrightarrow> deref h (hi_ref (a ! i)) = Some (of_nat i)"
    and "deref h (hi_ref (a ! pos)) \<noteq> None"
  obtains a' h' where
    "heap_update a h pos (length a) = Some (a', h')" "heap_ok a' h'" "mset a' = mset a"
    "agree_off (refs_of a) h h'"
proof -
  let ?t = "a ! pos"
  have hl: "hole a h ?t pos" using assms by (simp add: hole_def)
  obtain a' h' pos' where
    r: "heap_update a h pos (length a) = do {
          a \<leftarrow> arr_set a' pos' ?t; h \<leftarrow> assign h' (hi_ref ?t) (\<lambda>_. of_nat pos'); Some (a, h) }"
      "hole a' h' ?t pos'" "heap_order (a'[pos' := ?t])" "mset (a'[pos' := ?t]) = mset a"
      "agree_off (refs_of a) h h'"
  proof (cases "0 < pos \<and> hi_val ?t < hi_val (a ! par pos)")
    case True
    have up: "heap_update a h pos (length a) = heap_up a h pos"
      using True assms(2,3) par_bound [of pos "length a"] by (simp add: heap_update_def heap_parent_simp)
    have "up_ok (a[pos := ?t]) pos" using around_up [OF assms(1)] True by simp
    from heap_up_loop_ok [OF hl this] show thesis
      using that assms(2) by (auto simp: up heap_up_def)
  next
    case False
    have down: "heap_update a h pos (length a) = heap_down a h pos (length a)"
      using False assms(2,3) par_bound [of pos "length a"] by (auto simp: heap_update_def heap_parent_simp)
    have "down_ok (a[pos := ?t]) pos" using around_down [OF assms(1)] False by simp
    from heap_down_loop_ok [OF hl this] show thesis
      using that assms(2) by (auto simp: down heap_down_def)
  qed
  from hole_fill [OF r(2)] obtain h2 where
    f: "arr_set a' pos' ?t = Some (a'[pos' := ?t])" "assign h' (hi_ref ?t) (\<lambda>_. of_nat pos') = Some h2"
      "refs_ok (a'[pos' := ?t]) h2" "agree_off (refs_of (a'[pos' := ?t])) h' h2" .
  have "heap_update a h pos (length a) = Some (a'[pos' := ?t], h2)" using r(1) f(1,2) by simp
  moreover have "length (a'[pos' := ?t]) < 2 ^ 60" using r(2) by (simp add: hole_def)
  moreover have "agree_off (refs_of a) h h2"
    using r(5) f(4) refs_of_mset [OF r(4)] by (simp add: agree_off_trans)
  ultimately show thesis using that r(3,4) f(3) by (auto simp: heap_ok_def)
qed

lemma heap_okD:
  assumes "heap_ok a h"
  shows "heap_order a" "refs_ok a h" "length a < 2 ^ 60" "distinct (map hi_ref a)"
    "i < length a \<Longrightarrow> deref h (hi_ref (a ! i)) = Some (of_nat i)"
  using assms refs_ok_distinct by (auto simp: heap_ok_def refs_ok_def)

lemma heap_order_prefix: "heap_order a \<Longrightarrow> heap_order (take n a)"
  using par_bound unfolding heap_order_def ord_at_def by auto

text \<open>Replacing the item at a position, by one whose reference is not used elsewhere.\<close>

lemma heap_replace_ok:
  assumes "heap_ok a h" "pos < length a" "deref h (hi_ref t) \<noteq> None"
    and "\<forall>i < length a. i \<noteq> pos \<longrightarrow> hi_ref (a ! i) \<noteq> hi_ref t"
  obtains a' h' where
    "heap_update (a[pos := t]) h pos (length a) = Some (a', h')" "heap_ok a' h'"
    "mset a' = mset (a[pos := t])" "agree_off (refs_of (a[pos := t])) h h'"
proof -
  note h = heap_okD [OF assms(1)]
  have o: "ord_around (a[pos := t]) pos"
    by (rule ord_around_cong [OF heap_order_around [OF h(1)]]) auto
  have "hi_ref t \<notin> set (map hi_ref a) - {map hi_ref a ! pos}"
  proof
    assume "hi_ref t \<in> set (map hi_ref a) - {map hi_ref a ! pos}"
    then obtain i where "i < length a" "hi_ref t = hi_ref (a ! i)" "hi_ref t \<noteq> hi_ref (a ! pos)"
      using assms(2) by (auto simp: in_set_conv_nth)
    then show False using assms(4) by (cases "i = pos") auto
  qed
  then have d: "distinct (map hi_ref (a[pos := t]))"
    unfolding map_update by (rule distinct_list_update [OF h(4)])
  show thesis
    by (rule heap_update_ok [OF o _ _ d]) (use assms(2,3) h that in auto)
qed

lemma mset_update_swap:
  assumes "pos < length a"
  shows "add_mset (a ! pos) (mset (a[pos := t])) = add_mset t (mset a)"
  using assms by (simp add: mset_update)

lemma heap_ok_butlast: "heap_ok a h \<Longrightarrow> heap_ok (butlast a) h"
  using heap_order_prefix [of a "length a - 1"]
  by (auto simp: heap_ok_def butlast_conv_take refs_ok_def)

lemma mset_butlast: "a \<noteq> [] \<Longrightarrow> mset a = add_mset (last a) (mset (butlast a))"
  by (metis append_butlast_last_id mset.simps(1,2) mset_append union_mset_add_mset_right add.right_neutral)

lemma heap_delete_ok:
  assumes "heap_ok a h" "pos < length a"
  obtains a' h' where
    "heap_delete a h pos = Some (a', h')" "heap_ok a' h'" "mset a = add_mset (a ! pos) (mset a')"
    "agree_off (refs_of a') h h'"
proof -
  note h = heap_okD [OF assms(1)] and b = heap_ok_butlast [OF assms(1)]
  have ne: "a \<noteq> []" using assms(2) by auto
  show thesis
  proof (cases "pos < length a - 1")
    case False
    then have p: "pos = length a - 1" using assms(2) by simp
    then have "heap_delete a h pos = Some (butlast a, h)"
      using assms(2) ne by (simp add: heap_delete_def Let_def butlast_list_update)
    moreover have "a ! pos = last a" using p ne by (simp add: last_conv_nth)
    ultimately show thesis using that b mset_butlast [OF ne] by simp
  next
    case True
    have nth: "butlast a ! i = a ! i" if "i < length a - 1" for i using that by (simp add: nth_butlast)
    have last: "last a = a ! (length a - 1)" using ne by (simp add: last_conv_nth)
    have uniq: "hi_ref (a ! i) \<noteq> hi_ref (last a)" if "i < length a - 1" for i
      using nth_eq_iff_index_eq [OF h(4), of i "length a - 1"] that by (simp add: last)
    obtain a' h' where
      r: "heap_update ((butlast a)[pos := last a]) h pos (length (butlast a)) = Some (a', h')" "heap_ok a' h'"
        "mset a' = mset ((butlast a)[pos := last a])" "agree_off (refs_of ((butlast a)[pos := last a])) h h'"
      by (rule heap_replace_ok [OF b, of pos "last a"]) (use True uniq nth last h(5) in auto)
    have "heap_delete a h pos = Some (a', h')"
      using True ne r(1) by (simp add: heap_delete_def Let_def butlast_list_update)
    moreover have "mset a = add_mset (a ! pos) (mset a')"
      using mset_update_swap [of pos "butlast a" "last a"] mset_butlast [OF ne] True nth r(3) by simp
    moreover have "agree_off (refs_of a') h h'" using r(4) refs_of_mset [OF r(3)] by simp
    ultimately show thesis using that r(2) by blast
  qed
qed

lemma heap_upsert_ok:
  assumes "heap_ok a h" "length a + 1 < 2 ^ 60" "deref h (hi_ref t) \<noteq> None"
    and "\<forall>i < length a. i \<noteq> pos \<longrightarrow> hi_ref (a ! i) \<noteq> hi_ref t"
  obtains a' h' where
    "heap_upsert a h pos t = Some (a', h')" "heap_ok a' h'"
    "mset a' = mset (if pos < length a then a[pos := t] else a @ [t])" "agree_off (refs_of a') h h'"
proof (cases "pos < length a")
  case True
  obtain a' h' where
    "heap_update (a[pos := t]) h pos (length a) = Some (a', h')" "heap_ok a' h'"
    "mset a' = mset (a[pos := t])" "agree_off (refs_of (a[pos := t])) h h'"
    by (rule heap_replace_ok [OF assms(1) True assms(3,4)])
  moreover from this have "heap_upsert a h pos t = Some (a', h')" using True by (simp add: heap_upsert_def)
  moreover have "agree_off (refs_of a') h h'"
    using calculation(4) refs_of_mset [OF calculation(3)] by simp
  ultimately show thesis using that True by simp
next
  case False
  note h = heap_okD [OF assms(1)]
  have o: "ord_around (a @ [t]) (length a)"
    unfolding ord_around_def
  proof (intro conjI allI impI)
    fix i assume i: "0 < i \<and> i < length (a @ [t]) \<and> i \<noteq> length a \<and> par i \<noteq> length a"
    then have "par i < length a" "i < length a" using par_less [of i] by auto
    then show "ord_at (a @ [t]) i" using h(1) i by (simp add: heap_order_def ord_at_def nth_append)
  next
    fix i assume i: "0 < i \<and> i < length (a @ [t]) \<and> par i = length a \<and> 0 < length a"
    then show "hi_val ((a @ [t]) ! par (length a)) \<le> hi_val ((a @ [t]) ! i)"
      using par_less [of i] by auto
  qed
  have d: "distinct (map hi_ref (a @ [t]))"
    using h(4) assms(4) False by (auto simp: in_set_conv_nth)
  obtain a' h' where
    r: "heap_update (a @ [t]) h (length a) (length (a @ [t])) = Some (a', h')" "heap_ok a' h'"
      "mset a' = mset (a @ [t])" "agree_off (refs_of (a @ [t])) h h'"
    by (rule heap_update_ok [OF o _ _ d]) (use assms(2,3) h(5) in \<open>auto simp: nth_append\<close>)
  have "heap_upsert a h pos t = Some (a', h')" using r(1) False by (simp add: heap_upsert_def)
  moreover have "agree_off (refs_of a') h h'" using r(4) refs_of_mset [OF r(3)] by simp
  ultimately show thesis using that r(2,3) False by simp
qed

lemma heap_root_min:
  assumes "heap_order a" "i < length a"
  shows "hi_val (a ! 0) \<le> hi_val (a ! i)"
  using assms(2)
proof (induction i rule: less_induct)
  case (less i)
  show ?case
  proof (cases "i = 0")
    case False
    then have "hi_val (a ! 0) \<le> hi_val (a ! par i)" "ord_at a i"
      using less assms(1) par_less [of i] par_bound [of i "length a"] by (auto simp: heap_order_def)
    then show ?thesis by (simp add: ord_at_def)
  qed simp
qed

section \<open>Properties\<close>

text \<open>Two timers with their references, for the witnesses.\<close>

definition ex_items :: "heapitem list" where
  "ex_items = [\<lparr>hi_val = 10, hi_ref = Some 1\<rparr>, \<lparr>hi_val = 20, hi_ref = Some 2\<rparr>, \<lparr>hi_val = 15, hi_ref = Some 3\<rparr>]"

definition ex_refs :: refs where
  "ex_refs = [1 \<mapsto> 0, 2 \<mapsto> 1, 3 \<mapsto> 2, 4 \<mapsto> - 1]"

lemma all_less_3: "(\<forall>i < 3. P i) \<longleftrightarrow> P 0 \<and> P 1 \<and> P (2 :: nat)"
proof -
  have "i < 3 \<longleftrightarrow> i = 0 \<or> i = 1 \<or> i = 2" for i :: nat by auto
  then show ?thesis by auto
qed

lemma length_ex_items: "length ex_items = 3"
  by (simp add: ex_items_def)

lemma ex_heap_ok: "heap_ok ex_items ex_refs"
proof -
  have "\<forall>i < 3. 0 < i \<longrightarrow> ord_at ex_items i"
    by (simp add: all_less_3 ord_at_def par_def ex_items_def)
  moreover have "\<forall>i < 3. deref ex_refs (hi_ref (ex_items ! i)) = Some (of_nat i)"
    by (simp add: all_less_3 ex_refs_def ex_items_def)
  ultimately show ?thesis by (auto simp: heap_ok_def heap_order_def refs_ok_def length_ex_items)
qed

text \<open>C27: \<open>heap_upsert\<close> on an expiry heap.  Whether it overwrites the item at a position
  or adds a new one, the call is safe and terminates, the items are the old ones with that
  single change, the array is again a min-heap, and every item's back reference again holds the
  position of the item; no other reference is written.\<close>

theorem heap_upsert_correct:
  assumes "heap_ok a h" "length a + 1 < 2 ^ 60" "deref h (hi_ref t) \<noteq> None"
    and "\<forall>i < length a. i \<noteq> pos \<longrightarrow> hi_ref (a ! i) \<noteq> hi_ref t"
  shows "\<exists>a' h'. heap_upsert a h pos t = Some (a', h') \<and> heap_ok a' h' \<and>
           mset a' = mset (if pos < length a then a[pos := t] else a @ [t]) \<and>
           agree_off (refs_of a') h h'"
  by (rule heap_upsert_ok [OF assms]) blast

theorem heap_upsert_correct_witness:
  "\<exists>a' h'. heap_upsert ex_items ex_refs (2 ^ 64 - 1) \<lparr>hi_val = 5, hi_ref = Some 4\<rparr> = Some (a', h') \<and>
     heap_ok a' h' \<and> mset a' = mset (ex_items @ [\<lparr>hi_val = 5, hi_ref = Some 4\<rparr>]) \<and>
     agree_off (refs_of a') ex_refs h'"
proof -
  have "\<forall>i < 3. hi_ref (ex_items ! i) \<noteq> Some 4" by (simp add: all_less_3 ex_items_def)
  with heap_upsert_correct [OF ex_heap_ok, of "\<lparr>hi_val = 5, hi_ref = Some 4\<rparr>" "2 ^ 64 - 1"]
  show ?thesis by (simp add: length_ex_items ex_refs_def)
qed

text \<open>C28: \<open>heap_delete\<close> removes exactly the item at the given position, wherever it is, and
  keeps the heap order and all back references right.\<close>

theorem heap_delete_correct:
  assumes "heap_ok a h" "pos < length a"
  shows "\<exists>a' h'. heap_delete a h pos = Some (a', h') \<and> heap_ok a' h' \<and>
           mset a = add_mset (a ! pos) (mset a') \<and> agree_off (refs_of a') h h'"
  by (rule heap_delete_ok [OF assms]) blast

theorem heap_delete_correct_witness:
  "\<exists>a' h'. heap_delete ex_items ex_refs 0 = Some (a', h') \<and> heap_ok a' h' \<and>
     mset ex_items = add_mset (ex_items ! 0) (mset a') \<and> agree_off (refs_of a') ex_refs h'"
  by (rule heap_delete_correct [OF ex_heap_ok]) (simp add: ex_items_def)

end
