(* ===== verification/KeyValue.thy ===== *)
theory KeyValue
  imports ZSet TimerHeap
begin

text \<open>
  \<^verbatim>\<open>lib/server/key_value.cpp\<close> and the dispatcher \<^verbatim>\<open>do_request\<close> of
  \<^verbatim>\<open>lib/server/response.cpp\<close>: the keyspace.  An \<^verbatim>\<open>Entry\<close> at address \<open>a\<close> is the hash node
  at \<open>a\<close>, the data at \<open>a\<close> and the heap index at \<open>a\<close> of three stores.  What the operations promise
  is in \<^verbatim>\<open>Keyspace\<close>; \<^verbatim>\<open>KeyInv\<close> and \<^verbatim>\<open>KeyRefine\<close> prove it.
\<close>

section \<open>Data\<close>

datatype ValueType = T_INIT | T_STR | T_ZSET

record entry =
  e_key :: bytes
  e_type :: ValueType
  e_str :: bytes
  e_zset :: zset

text \<open>The fields of \<^verbatim>\<open>g_data\<close> that commands use, with the memory they point to.\<close>

record kvs =
  db :: hmap
  enode :: hheap                \<comment> \<open>\<^verbatim>\<open>Entry::node\<close>\<close>
  ents :: "addr \<rightharpoonup> entry"
  hidx :: refs                  \<comment> \<open>\<^verbatim>\<open>Entry::heap_idx\<close>\<close>
  theap :: "heapitem list"      \<comment> \<open>\<^verbatim>\<open>g_data.heap\<close>\<close>
  zm :: zmem
  pool :: "addr list"           \<comment> \<open>the queue of the thread pool: arguments of \<^verbatim>\<open>entry_del_func\<close>\<close>
  ebrk :: addr                  \<comment> \<open>the allocator of entries\<close>

definition kvs_init :: "zmem \<Rightarrow> kvs" where
  "kvs_init m = \<lparr>db = empty_hmap, enode = Map.empty, ents = Map.empty, hidx = Map.empty,
     theap = [], zm = m, pool = [], ebrk = 1\<rparr>"

section \<open>Entries\<close>

definition entry_eq :: "kvs \<Rightarrow> bytes \<Rightarrow> addr \<Rightarrow> bool option" where
  "entry_eq s key node = do { ent \<leftarrow> ents s node; Some (e_key ent = key) }"

definition entry_new :: "kvs \<Rightarrow> ValueType \<Rightarrow> addr \<times> kvs" where
  "entry_new s type =
     (let ent = ebrk s
      in (ent, s\<lparr>
        enode := (enode s)(ent \<mapsto> \<lparr>hnext = NULL, hcode = 0\<rparr>),
        ents := (ents s)(ent \<mapsto> \<lparr>e_key = [], e_type = type, e_str = [], e_zset = empty_zset\<rparr>),
        hidx := (hidx s)(ent \<mapsto> - 1),
        ebrk := ent + 1\<rparr>))"

text \<open>\<^verbatim>\<open>delete ent\<close>\<close>

definition entry_free :: "kvs \<Rightarrow> addr \<Rightarrow> kvs" where
  "entry_free s ent = s\<lparr>enode := (enode s)(ent := None), ents := (ents s)(ent := None),
     hidx := (hidx s)(ent := None)\<rparr>"

definition entry_del_sync :: "kvs \<Rightarrow> addr \<Rightarrow> kvs option" where
  "entry_del_sync s ent = do {
     e \<leftarrow> ents s ent;
     s \<leftarrow> (if e_type e = T_ZSET
          then do {
            (m, z) \<leftarrow> zset_clear (zm s) (e_zset e);
            Some (s\<lparr>zm := m, ents := (ents s)(ent \<mapsto> e\<lparr>e_zset := z\<rparr>)\<rparr>)
          }
          else Some s);
     Some (entry_free s ent)
   }"

definition entry_del_func :: "kvs \<Rightarrow> addr \<Rightarrow> kvs option" where
  "entry_del_func s arg = entry_del_sync s arg"

text \<open>\<open>now\<close> is what \<^verbatim>\<open>get_monotonic_msec\<close> returns during the command.\<close>

definition entry_set_ttl :: "u64 \<Rightarrow> kvs \<Rightarrow> addr \<Rightarrow> i64 \<Rightarrow> kvs option" where
  "entry_set_ttl now s ent ttl_ms = do {
     idx \<leftarrow> hidx s ent;
     if sint ttl_ms < 0 \<and> idx \<noteq> - 1 then do {
       (a, h) \<leftarrow> heap_delete (theap s) (hidx s) (unat idx);
       h \<leftarrow> assign h (Some ent) (\<lambda>_. - 1);
       Some (s\<lparr>theap := a, hidx := h\<rparr>)
     }
     else if sint ttl_ms \<ge> 0 then do {
       let expire_at = now + ttl_ms;
       (a, h) \<leftarrow> heap_upsert (theap s) (hidx s) (unat idx) \<lparr>hi_val = expire_at, hi_ref = Some ent\<rparr>;
       Some (s\<lparr>theap := a, hidx := h\<rparr>)
     }
     else Some s
   }"

definition entry_del :: "u64 \<Rightarrow> kvs \<Rightarrow> addr \<Rightarrow> kvs option" where
  "entry_del now s ent = do {
     s \<leftarrow> entry_set_ttl now s ent (- 1);
     e \<leftarrow> ents s ent;
     let set_size = (if e_type e = T_ZSET then hm_size (zhmap (e_zset e)) else 0);
     let k_large_container_size = 1000;
     if set_size > k_large_container_size then Some (s\<lparr>pool := pool s @ [ent]\<rparr>)
     else entry_del_sync s ent
   }"

text \<open>The look-up every command starts with: a \<^verbatim>\<open>LookupKey\<close> on the stack that holds the key
  and its hash code.\<close>

definition db_lookup :: "kvs \<Rightarrow> bytes \<Rightarrow> (ptr \<times> kvs) option" where
  "db_lookup s key = do {
     (node, h, m) \<leftarrow> hm_lookup (enode s) (db s) (str_hash key) (entry_eq s key);
     Some (node, s\<lparr>enode := h, db := m\<rparr>)
   }"

section \<open>Commands\<close>

definition do_get :: "kvs \<Rightarrow> bytes list \<Rightarrow> bytes \<Rightarrow> (kvs \<times> bytes) option" where
  "do_get s cmd out = do {
     key \<leftarrow> arr_get cmd 1;
     (node, s) \<leftarrow> db_lookup s key;
     (case node of
        None \<Rightarrow> Some (s, out_nil out)
      | Some ent \<Rightarrow> do {
          e \<leftarrow> ents s ent;
          if e_type e \<noteq> T_STR
          then Some (s, out_err out (err_code ERR_BAD_TYP) (cstr ''not a string value''))
          else Some (s, out_str out (e_str e))
        })
   }"

text \<open>A new entry takes the key and its hash code before it is inserted.\<close>

definition db_insert_new :: "kvs \<Rightarrow> ValueType \<Rightarrow> bytes \<Rightarrow> bytes \<Rightarrow> (addr \<times> kvs) option" where
  "db_insert_new s type key str = do {
     let (ent, s) = entry_new s type;
     e \<leftarrow> ents s ent;
     let s = s\<lparr>ents := (ents s)(ent \<mapsto> e\<lparr>e_key := key, e_str := str\<rparr>)\<rparr>;
     h \<leftarrow> assign (enode s) (Some ent) (hcode_update (\<lambda>_. str_hash key));
     (h, m) \<leftarrow> hm_insert h (db s) ent;
     Some (ent, s\<lparr>enode := h, db := m\<rparr>)
   }"

definition do_set :: "kvs \<Rightarrow> bytes list \<Rightarrow> bytes \<Rightarrow> (kvs \<times> bytes) option" where
  "do_set s cmd out = do {
     key \<leftarrow> arr_get cmd 1;
     (node, s) \<leftarrow> db_lookup s key;
     val \<leftarrow> arr_get cmd 2;
     (case node of
        Some ent \<Rightarrow> do {
          e \<leftarrow> ents s ent;
          if e_type e \<noteq> T_STR
          then Some (s, out_err out (err_code ERR_BAD_TYP) (cstr ''a non-string value exists''))
          else Some (s\<lparr>ents := (ents s)(ent \<mapsto> e\<lparr>e_str := val\<rparr>)\<rparr>, out_nil out)
        }
      | None \<Rightarrow> do {
          (ent, s) \<leftarrow> db_insert_new s T_STR key val;
          Some (s, out_nil out)
        })
   }"

definition do_del :: "u64 \<Rightarrow> kvs \<Rightarrow> bytes list \<Rightarrow> bytes \<Rightarrow> (kvs \<times> bytes) option" where
  "do_del now s cmd out = do {
     key \<leftarrow> arr_get cmd 1;
     (node, h, m) \<leftarrow> hm_delete (enode s) (db s) (str_hash key) (entry_eq s key);
     let s = s\<lparr>enode := h, db := m\<rparr>;
     s \<leftarrow> (case node of Some ent \<Rightarrow> entry_del now s ent | None \<Rightarrow> Some s);
     Some (s, out_int out (if node \<noteq> NULL then 1 else 0))
   }"

definition cb_keys :: "kvs \<Rightarrow> addr \<Rightarrow> bytes \<Rightarrow> (bool \<times> bytes) option" where
  "cb_keys s node out = do { e \<leftarrow> ents s node; Some (True, out_str out (e_key e)) }"

definition do_keys :: "kvs \<Rightarrow> bytes list \<Rightarrow> bytes \<Rightarrow> (kvs \<times> bytes) option" where
  "do_keys s cmd out = do {
     let out = out_arr out (ucast (hm_size (db s)));
     out \<leftarrow> hm_foreach (enode s) (db s) (cb_keys s) out;
     Some (s, out)
   }"

definition do_zadd :: "kvs \<Rightarrow> bytes list \<Rightarrow> bytes \<Rightarrow> (kvs \<times> bytes) option" where
  "do_zadd s cmd out = do {
     sc \<leftarrow> arr_get cmd 2;
     (case str2dbl sc of
        None \<Rightarrow> Some (s, out_err out (err_code ERR_BAD_ARG) (cstr ''expect float''))
      | Some score \<Rightarrow> do {
          key \<leftarrow> arr_get cmd 1;
          (hnode, s) \<leftarrow> db_lookup s key;
          (ok, ent, s) \<leftarrow> (case hnode of
             None \<Rightarrow> do { (ent, s) \<leftarrow> db_insert_new s T_ZSET key []; Some (True, ent, s) }
           | Some ent \<Rightarrow> do { e \<leftarrow> ents s ent; Some (e_type e = T_ZSET, ent, s) });
          if \<not> ok then Some (s, out_err out (err_code ERR_BAD_TYP) (cstr ''expect zset''))
          else do {
            name \<leftarrow> arr_get cmd 3;
            e \<leftarrow> ents s ent;
            (added, m, z) \<leftarrow> zset_insert (zm s) (e_zset e) name score;
            Some (s\<lparr>zm := m, ents := (ents s)(ent \<mapsto> e\<lparr>e_zset := z\<rparr>)\<rparr>,
              out_int out (if added then 1 else 0))
          }
        })
   }"

text \<open>A \<^verbatim>\<open>ZSet *\<close> is the address of the entry that holds it, or that of the empty set
  \<^verbatim>\<open>k_empty_zset\<close>, which no caller changes.\<close>

datatype zref = ZNull | ZEmpty | ZOf addr

definition expect_zset :: "kvs \<Rightarrow> bytes \<Rightarrow> (zref \<times> kvs) option" where
  "expect_zset s str = do {
     (hnode, s) \<leftarrow> db_lookup s str;
     (case hnode of
        None \<Rightarrow> Some (ZEmpty, s)
      | Some ent \<Rightarrow> do {
          e \<leftarrow> ents s ent;
          Some (if e_type e = T_ZSET then ZOf ent else ZNull, s)
        })
   }"

definition zref_get :: "kvs \<Rightarrow> zref \<Rightarrow> zset option" where
  "zref_get s zr = (case zr of
     ZNull \<Rightarrow> UB
   | ZEmpty \<Rightarrow> Some empty_zset
   | ZOf ent \<Rightarrow> map_option e_zset (ents s ent))"

definition zref_put :: "kvs \<Rightarrow> zref \<Rightarrow> zset \<Rightarrow> kvs option" where
  "zref_put s zr z = (case zr of
     ZNull \<Rightarrow> UB
   | ZEmpty \<Rightarrow> (if z = empty_zset then Some s else UB)
   | ZOf ent \<Rightarrow> do { h \<leftarrow> assign (ents s) (Some ent) (e_zset_update (\<lambda>_. z)); Some (s\<lparr>ents := h\<rparr>) })"

definition do_zrem :: "kvs \<Rightarrow> bytes list \<Rightarrow> bytes \<Rightarrow> (kvs \<times> bytes) option" where
  "do_zrem s cmd out = do {
     key \<leftarrow> arr_get cmd 1;
     (zset, s) \<leftarrow> expect_zset s key;
     if zset = ZNull then Some (s, out_err out (err_code ERR_BAD_TYP) (cstr ''expect zset''))
     else do {
       name \<leftarrow> arr_get cmd 2;
       z \<leftarrow> zref_get s zset;
       (znode, m, z) \<leftarrow> zset_lookup (zm s) z name;
       (m, z) \<leftarrow> (case znode of Some a \<Rightarrow> zset_delete m z a | None \<Rightarrow> Some (m, z));
       s \<leftarrow> zref_put (s\<lparr>zm := m\<rparr>) zset z;
       Some (s, out_int out (if znode \<noteq> NULL then 1 else 0))
     }
   }"

definition do_zscore :: "kvs \<Rightarrow> bytes list \<Rightarrow> bytes \<Rightarrow> (kvs \<times> bytes) option" where
  "do_zscore s cmd out = do {
     key \<leftarrow> arr_get cmd 1;
     (zset, s) \<leftarrow> expect_zset s key;
     if zset = ZNull then Some (s, out_err out (err_code ERR_BAD_TYP) (cstr ''expect zset''))
     else do {
       name \<leftarrow> arr_get cmd 2;
       z \<leftarrow> zref_get s zset;
       (znode, m, z) \<leftarrow> zset_lookup (zm s) z name;
       s \<leftarrow> zref_put (s\<lparr>zm := m\<rparr>) zset z;
       (case znode of
          Some a \<Rightarrow> do { zn \<leftarrow> zdata m a; Some (s, out_dbl out (zscore zn)) }
        | None \<Rightarrow> Some (s, out_nil out))
     }
   }"

text \<open>\<open>n\<close> counts the elements of the array, two for each node.\<close>

partial_function (option) zquery_loop ::
  "zmem \<Rightarrow> i64 \<Rightarrow> ptr \<Rightarrow> int \<Rightarrow> bytes \<Rightarrow> (int \<times> bytes) option" where
  "zquery_loop m limit znode n out = (case znode of
     None \<Rightarrow> Some (n, out)
   | Some a \<Rightarrow>
       if n < sint limit then do {
         zn \<leftarrow> zdata m a;
         let out = out_str out (zname zn);
         let out = out_dbl out (zscore zn);
         znode \<leftarrow> znode_offset m znode 1;
         n \<leftarrow> i64_chk (n + 2);
         zquery_loop m limit znode n out
       }
       else Some (n, out))"

definition do_zquery :: "kvs \<Rightarrow> bytes list \<Rightarrow> bytes \<Rightarrow> (kvs \<times> bytes) option" where
  "do_zquery s cmd out = do {
     sc \<leftarrow> arr_get cmd 2;
     (case str2dbl sc of
        None \<Rightarrow> Some (s, out_err out (err_code ERR_BAD_ARG) (cstr ''expect fp number''))
      | Some score \<Rightarrow> do {
          name \<leftarrow> arr_get cmd 3;
          a4 \<leftarrow> arr_get cmd 4;
          a5 \<leftarrow> arr_get cmd 5;
          let (ok4, offset) = str2int a4;
          let (ok5, limit) = str2int a5;
          if \<not> ok4 \<or> \<not> ok5 then Some (s, out_err out (err_code ERR_BAD_ARG) (cstr ''expect int''))
          else do {
            key \<leftarrow> arr_get cmd 1;
            (zset, s) \<leftarrow> expect_zset s key;
            if zset = ZNull then Some (s, out_err out (err_code ERR_BAD_TYP) (cstr ''expect zset''))
            else if sint limit \<le> 0 then Some (s, out_arr out 0)
            else do {
              z \<leftarrow> zref_get s zset;
              znode \<leftarrow> zset_seekge (zm s) z score name;
              znode \<leftarrow> znode_offset (zm s) znode offset;
              let (out, ctx) = out_begin_arr out;
              (n, out) \<leftarrow> zquery_loop (zm s) limit znode 0 out;
              out \<leftarrow> out_end_arr out ctx (of_int n);
              Some (s, out)
            }
          }
        })
   }"

definition do_expire :: "u64 \<Rightarrow> kvs \<Rightarrow> bytes list \<Rightarrow> bytes \<Rightarrow> (kvs \<times> bytes) option" where
  "do_expire now s cmd out = do {
     arg \<leftarrow> arr_get cmd 2;
     let (ok, ttl_ms) = str2int arg;
     if \<not> ok then Some (s, out_err out (err_code ERR_BAD_ARG) (cstr ''expect int64''))
     else do {
       key \<leftarrow> arr_get cmd 1;
       (node, s) \<leftarrow> db_lookup s key;
       s \<leftarrow> (case node of Some ent \<Rightarrow> entry_set_ttl now s ent ttl_ms | None \<Rightarrow> Some s);
       Some (s, out_int out (if node \<noteq> NULL then 1 else 0))
     }
   }"

definition do_ttl :: "u64 \<Rightarrow> kvs \<Rightarrow> bytes list \<Rightarrow> bytes \<Rightarrow> (kvs \<times> bytes) option" where
  "do_ttl now_ms s cmd out = do {
     key \<leftarrow> arr_get cmd 1;
     (node, s) \<leftarrow> db_lookup s key;
     (case node of
        None \<Rightarrow> Some (s, out_int out (- 2))
      | Some ent \<Rightarrow> do {
          idx \<leftarrow> hidx s ent;
          if idx = - 1 then Some (s, out_int out (- 1))
          else do {
            item \<leftarrow> arr_get (theap s) (unat idx);
            let expire_at = hi_val item;
            Some (s, out_int out (if expire_at > now_ms then expire_at - now_ms else 0))
          }
        })
   }"

text \<open>\<^verbatim>\<open>do_request\<close>, without the echo of the command on the standard output.\<close>

definition do_request :: "u64 \<Rightarrow> kvs \<Rightarrow> bytes list \<Rightarrow> bytes \<Rightarrow> (kvs \<times> bytes) option" where
  "do_request now s cmd out =
     (let size = length cmd; name = (\<lambda>str. cmd ! 0 = cstr str)
      in if size = 2 \<and> name ''get'' then do_get s cmd out
         else if size = 3 \<and> name ''set'' then do_set s cmd out
         else if size = 2 \<and> name ''del'' then do_del now s cmd out
         else if size = 3 \<and> name ''pexpire'' then do_expire now s cmd out
         else if size = 2 \<and> name ''pttl'' then do_ttl now s cmd out
         else if size = 1 \<and> name ''keys'' then do_keys s cmd out
         else if size = 4 \<and> name ''zadd'' then do_zadd s cmd out
         else if size = 3 \<and> name ''zrem'' then do_zrem s cmd out
         else if size = 3 \<and> name ''zscore'' then do_zscore s cmd out
         else if size = 6 \<and> name ''zquery'' then do_zquery s cmd out
         else Some (s, out_err out (err_code ERR_UNKNOWN) (cstr ''unknown command.'')))"

end
