(* ===== verification/Keyspace.thy ===== *)
theory Keyspace
  imports ZSet
begin

text \<open>
  The abstract keyspace the commands of the server are specified on: a map from keys to a
  string or a map from names to scores, each with an optional expiry time.  \<open>kv_step\<close> relates
  a command to its reply and to the new keyspace; it is what a client may rely on, and
  mentions no pointer, table, tree or heap.
\<close>

section \<open>The keyspace\<close>

datatype kval = KStr bytes | KZSet "bytes \<rightharpoonup> u64"

type_synonym keyspace = "bytes \<rightharpoonup> kval \<times> u64 option"

abbreviation (input) wrong_type :: "string \<Rightarrow> reply" where
  "wrong_type msg \<equiv> VErr (err_code ERR_BAD_TYP) (cstr msg)"

abbreviation (input) wrong_arg :: "string \<Rightarrow> reply" where
  "wrong_arg msg \<equiv> VErr (err_code ERR_BAD_ARG) (cstr msg)"

text \<open>The sorted set under a key: a missing key counts as an empty one, a string as an error.\<close>

definition zset_of :: "keyspace \<Rightarrow> bytes \<Rightarrow> (bytes \<rightharpoonup> u64) option" where
  "zset_of A k = (case A k of
     None \<Rightarrow> Some Map.empty
   | Some (KZSet Z, _) \<Rightarrow> Some Z
   | Some (KStr _, _) \<Rightarrow> None)"

text \<open>Change the value under a key that exists, keeping its expiry time.\<close>

definition put_zset :: "keyspace \<Rightarrow> bytes \<Rightarrow> (bytes \<rightharpoonup> u64) \<Rightarrow> keyspace" where
  "put_zset A k Z = (case A k of None \<Rightarrow> A | Some (_, t) \<Rightarrow> A(k \<mapsto> (KZSet Z, t)))"

text \<open>The pairs of a sorted set in the order of (score, name).\<close>

definition zsorted :: "(bytes \<rightharpoonup> u64) \<Rightarrow> (bytes \<times> u64) list \<Rightarrow> bool" where
  "zsorted Z xs \<longleftrightarrow> Z = map_of xs \<and> distinct (map fst xs) \<and>
     sorted_wrt (\<lambda>(m, s) (n, t). ZKey (dbl_key s) m < ZKey (dbl_key t) n) xs"

text \<open>The pairs a query returns: from the first pair that is not below (score, name), \<open>offset\<close>
  further, half as many pairs as \<open>limit\<close> says, rounded up.\<close>

definition zrange :: "(bytes \<times> u64) list \<Rightarrow> u64 \<Rightarrow> bytes \<Rightarrow> int \<Rightarrow> int \<Rightarrow> (bytes \<times> u64) list" where
  "zrange xs score name offset limit =
     (let k = length (takeWhile (\<lambda>(n, s). ZKey (dbl_key s) n < ZKey (dbl_key score) name) xs)
      in if limit \<le> 0 \<or> k = length xs \<or> int k + offset < 0 then []
         else take (nat ((limit + 1) div 2)) (drop (nat (int k + offset)) xs))"

definition zreply :: "(bytes \<times> u64) list \<Rightarrow> reply" where
  "zreply xs = VArr (concat (map (\<lambda>(n, s). [VStr n, VDbl s]) xs))"

section \<open>The commands\<close>

definition known_shape :: "bytes list \<Rightarrow> bool" where
  "known_shape cmd \<longleftrightarrow> (length cmd, hd cmd) \<in>
     {(2, cstr ''get''), (3, cstr ''set''), (2, cstr ''del''), (3, cstr ''pexpire''), (2, cstr ''pttl''),
      (1, cstr ''keys''), (4, cstr ''zadd''), (3, cstr ''zrem''), (3, cstr ''zscore''), (6, cstr ''zquery'')}"

inductive kv_step :: "u64 \<Rightarrow> keyspace \<Rightarrow> bytes list \<Rightarrow> reply \<Rightarrow> keyspace \<Rightarrow> bool" for now A where
  get_none: "A k = None \<Longrightarrow> kv_step now A [cstr ''get'', k] VNil A"
| get_str: "A k = Some (KStr v, t) \<Longrightarrow> kv_step now A [cstr ''get'', k] (VStr v) A"
| get_type: "A k = Some (KZSet Z, t) \<Longrightarrow>
    kv_step now A [cstr ''get'', k] (wrong_type ''not a string value'') A"
| set_new: "A k = None \<Longrightarrow> kv_step now A [cstr ''set'', k, v] VNil (A(k \<mapsto> (KStr v, None)))"
| set_str: "A k = Some (KStr w, t) \<Longrightarrow> kv_step now A [cstr ''set'', k, v] VNil (A(k \<mapsto> (KStr v, t)))"
| set_type: "A k = Some (KZSet Z, t) \<Longrightarrow>
    kv_step now A [cstr ''set'', k, v] (wrong_type ''a non-string value exists'') A"
| del: "kv_step now A [cstr ''del'', k] (VInt (if A k = None then 0 else 1)) (A(k := None))"
| expire_arg: "\<not> fst (str2int ttl) \<Longrightarrow>
    kv_step now A [cstr ''pexpire'', k, ttl] (wrong_arg ''expect int64'') A"
| expire_none: "fst (str2int ttl) \<Longrightarrow> A k = None \<Longrightarrow> kv_step now A [cstr ''pexpire'', k, ttl] (VInt 0) A"
| expire_set: "str2int ttl = (True, ms) \<Longrightarrow> A k = Some (v, t) \<Longrightarrow>
    kv_step now A [cstr ''pexpire'', k, ttl] (VInt 1)
      (A(k \<mapsto> (v, if sint ms < 0 then None else Some (now + ms))))"
| ttl_none: "A k = None \<Longrightarrow> kv_step now A [cstr ''pttl'', k] (VInt (- 2)) A"
| ttl_never: "A k = Some (v, None) \<Longrightarrow> kv_step now A [cstr ''pttl'', k] (VInt (- 1)) A"
| ttl_left: "A k = Some (v, Some t) \<Longrightarrow>
    kv_step now A [cstr ''pttl'', k] (VInt (if t > now then t - now else 0)) A"
| keys: "set ks = dom A \<Longrightarrow> distinct ks \<Longrightarrow> kv_step now A [cstr ''keys''] (VArr (map VStr ks)) A"
| zadd_arg: "str2dbl sc = None \<Longrightarrow>
    kv_step now A [cstr ''zadd'', k, sc, n] (wrong_arg ''expect float'') A"
| zadd_new: "str2dbl sc = Some s \<Longrightarrow> A k = None \<Longrightarrow>
    kv_step now A [cstr ''zadd'', k, sc, n] (VInt 1) (A(k \<mapsto> (KZSet [n \<mapsto> s], None)))"
| zadd_old: "str2dbl sc = Some s \<Longrightarrow> A k = Some (KZSet Z, t) \<Longrightarrow>
    kv_step now A [cstr ''zadd'', k, sc, n] (VInt (if Z n = None then 1 else 0))
      (A(k \<mapsto> (KZSet (Z(n \<mapsto> new_score Z n s)), t)))"
| zadd_type: "str2dbl sc = Some s \<Longrightarrow> A k = Some (KStr v, t) \<Longrightarrow>
    kv_step now A [cstr ''zadd'', k, sc, n] (wrong_type ''expect zset'') A"
| zrem_type: "zset_of A k = None \<Longrightarrow> kv_step now A [cstr ''zrem'', k, n] (wrong_type ''expect zset'') A"
| zrem: "zset_of A k = Some Z \<Longrightarrow>
    kv_step now A [cstr ''zrem'', k, n] (VInt (if Z n = None then 0 else 1)) (put_zset A k (Z(n := None)))"
| zscore_type: "zset_of A k = None \<Longrightarrow>
    kv_step now A [cstr ''zscore'', k, n] (wrong_type ''expect zset'') A"
| zscore: "zset_of A k = Some Z \<Longrightarrow>
    kv_step now A [cstr ''zscore'', k, n] (case Z n of None \<Rightarrow> VNil | Some s \<Rightarrow> VDbl s) A"
| zquery_score: "str2dbl sc = None \<Longrightarrow>
    kv_step now A [cstr ''zquery'', k, sc, n, off, num] (wrong_arg ''expect fp number'') A"
| zquery_int: "str2dbl sc = Some s \<Longrightarrow> \<not> fst (str2int off) \<or> \<not> fst (str2int num) \<Longrightarrow>
    kv_step now A [cstr ''zquery'', k, sc, n, off, num] (wrong_arg ''expect int'') A"
| zquery_type: "str2dbl sc = Some s \<Longrightarrow> str2int off = (True, i) \<Longrightarrow> str2int num = (True, l) \<Longrightarrow>
    zset_of A k = None \<Longrightarrow>
    kv_step now A [cstr ''zquery'', k, sc, n, off, num] (wrong_type ''expect zset'') A"
| zquery: "str2dbl sc = Some s \<Longrightarrow> str2int off = (True, i) \<Longrightarrow> str2int num = (True, l) \<Longrightarrow>
    zset_of A k = Some Z \<Longrightarrow> zsorted Z xs \<Longrightarrow>
    kv_step now A [cstr ''zquery'', k, sc, n, off, num] (zreply (zrange xs s n (sint i) (sint l))) A"
| unknown: "\<not> known_shape cmd \<Longrightarrow>
    kv_step now A cmd (VErr (err_code ERR_UNKNOWN) (cstr ''unknown command.'')) A"

text \<open>What the machine can hold: sizes below the capacity of the tables and of the 32-bit node
  counts of the trees.\<close>

definition kv_room :: "keyspace \<Rightarrow> bool" where
  "kv_room A \<longleftrightarrow> card (dom A) + 1 < 2 ^ 56 \<and>
     (\<forall>k Z t. A k = Some (KZSet Z, t) \<longrightarrow> card (dom Z) + 1 < 2 ^ 31)"

end
