(* ===== verification/DueMap.thy ===== *)
theory DueMap
  imports TimerHeap
begin

text \<open>
  The expiry heap of \<^verbatim>\<open>TimerHeap\<close> as the keyspace uses it: a map from entries to expiry times with a first
  element.  \<open>timers_ok\<close> is the invariant of the heap together with the heap indexes of the entries in
  \<open>D\<close>, and \<open>ttl_of\<close> the time of an entry.  The interface \<open>due_map\<close> states the laws of setting and
  removing a time, \<open>timer_queue\<close> adds the law of the first element; both are interpreted on the heap
  operations as \<open>tq\<close>.
\<close>

section \<open>Expiry times\<close>

text \<open>The expiry time the heap holds for an entry.\<close>

definition ttl_of :: "heapitem list \<Rightarrow> addr \<Rightarrow> u64 option" where
  "ttl_of a x = map_of (map (\<lambda>i. (hi_ref i, hi_val i)) a) (Some x)"

definition timers_ok :: "heapitem list \<Rightarrow> refs \<Rightarrow> addr set \<Rightarrow> bool" where
  "timers_ok a h D \<longleftrightarrow> heap_ok a h \<and> (\<forall>i \<in> set a. \<exists>x \<in> D. hi_ref i = Some x) \<and>
     (\<forall>x \<in> D. x \<in> refs_of a \<or> h x = Some (- 1))"

lemma heapitem_eta [simp]: "\<lparr>hi_val = hi_val i, hi_ref = hi_ref i\<rparr> = i"
  by (cases i) simp

lemma ttl_of_Some:
  "distinct (map hi_ref a) \<Longrightarrow> ttl_of a x = Some v \<longleftrightarrow> \<lparr>hi_val = v, hi_ref = Some x\<rparr> \<in> set a"
  unfolding ttl_of_def by (subst map_of_eq_Some_iff) (auto simp: comp_def image_iff intro: bexI [of _ "\<lparr>hi_val = v, hi_ref = Some x\<rparr>"])

lemma ttl_of_cong:
  assumes "distinct (map hi_ref a')" "distinct (map hi_ref a)"
    "\<And>v. \<lparr>hi_val = v, hi_ref = Some y\<rparr> \<in> set a' \<longleftrightarrow> \<lparr>hi_val = v, hi_ref = Some y\<rparr> \<in> set a"
  shows "ttl_of a' y = ttl_of a y"
proof -
  have "ttl_of a' y = Some v \<longleftrightarrow> ttl_of a y = Some v" for v
    unfolding ttl_of_Some [OF assms(1)] ttl_of_Some [OF assms(2)] by (rule assms(3))
  then show ?thesis by (metis option.exhaust)
qed

lemma ttl_of_None: "ttl_of a x = None \<longleftrightarrow> x \<notin> refs_of a"
  unfolding ttl_of_def map_of_eq_None_iff refs_of_def by (auto simp: image_image)

lemma heap_index:
  assumes "heap_ok a h" "x \<in> refs_of a"
  obtains i where "i < length a" "h x = Some (of_nat i)" "unat (of_nat i :: size_t) = i"
    "(of_nat i :: size_t) \<noteq> - 1" "hi_ref (a ! i) = Some x"
proof -
  from assms(2) obtain i where i: "i < length a" "hi_ref (a ! i) = Some x"
    by (auto simp: refs_of_def in_set_conv_nth)
  moreover have small: "i < 2 ^ 60" using i(1) heap_okD(3) [OF assms(1)] by simp
  moreover have un: "unat (of_nat i :: size_t) = i" using small by (intro unat_of_nat_u64) simp
  moreover have "(of_nat i :: size_t) \<noteq> - 1"
  proof
    assume "(of_nat i :: size_t) = - 1"
    then have "i = unat (- 1 :: size_t)" using un by simp
    then show False using small by (simp add: unsigned_minus_1_eq_mask mask_eq_exp_minus_1)
  qed
  ultimately show thesis using that heap_okD(5) [OF assms(1) i(1)] by simp
qed

lemma timers_okD:
  assumes "timers_ok a h D"
  shows "heap_ok a h" "refs_of a \<subseteq> D" "distinct (map hi_ref a)"
    "x \<in> D \<Longrightarrow> x \<notin> refs_of a \<Longrightarrow> h x = Some (- 1)"
  using assms heap_okD(4) [of a h] by (auto simp: timers_ok_def refs_of_def image_iff)

lemma heap_ok_frame: "heap_ok a h \<Longrightarrow> \<forall>x \<in> refs_of a. h' x = h x \<Longrightarrow> heap_ok a h'"
proof -
  assume h: "heap_ok a h" "\<forall>x \<in> refs_of a. h' x = h x"
  have "deref h' (hi_ref (a ! i)) = Some (of_nat i)" if i: "i < length a" for i
  proof -
    have d: "deref h (hi_ref (a ! i)) = Some (of_nat i)" by (rule heap_okD(5) [OF h(1) i])
    then obtain x where x: "hi_ref (a ! i) = Some x" by (cases "hi_ref (a ! i)") auto
    then have "x \<in> refs_of a" using i by (auto simp: refs_of_def image_iff intro!: bexI [of _ "a ! i"])
    then show ?thesis using d x h(2) by simp
  qed
  then show "heap_ok a h'" using h(1) by (simp add: heap_ok_def refs_ok_def)
qed

lemma timers_ok_frame: "timers_ok a h D \<Longrightarrow> \<forall>x \<in> D. h' x = h x \<Longrightarrow> timers_ok a h' D"
  using heap_ok_frame [of a h h'] timers_okD(2) [of a h D] by (auto simp: timers_ok_def)

lemma timers_length: "timers_ok a h D \<Longrightarrow> finite D \<Longrightarrow> length a \<le> card D"
proof -
  assume t: "timers_ok a h D" "finite D"
  have "length a = card (set (map hi_ref a))"
    using distinct_card [OF timers_okD(3) [OF t(1)]] by simp
  also have "\<dots> \<le> card (Some ` D)"
    using t by (intro card_mono) (auto simp: timers_ok_def)
  also have "\<dots> = card D" by (simp add: card_image)
  finally show ?thesis .
qed

lemma timers_ok_drop:
  assumes t: "timers_ok q g D" "ttl_of q a = None"
  shows "timers_ok q g (D - {a})"
  unfolding timers_ok_def
proof (intro conjI ballI)
  have na: "a \<notin> refs_of q" using t(2) by (simp add: ttl_of_None)
  show "\<exists>x \<in> D - {a}. hi_ref i = Some x" if i: "i \<in> set q" for i
  proof -
    obtain x where x: "x \<in> D" "hi_ref i = Some x" using t(1) i by (auto simp: timers_ok_def)
    then have "x \<in> refs_of q" using i by (auto simp: refs_of_def image_iff intro!: bexI [of _ i])
    then show ?thesis using x na by auto
  qed
qed (use t(1) in \<open>auto simp: timers_ok_def\<close>)

text \<open>The recorded position is that of the entry's item, or beyond the array.\<close>

lemma timers_ok_enter:
  assumes t: "timers_ok q h D" and x: "x \<notin> D"
  shows "timers_ok q (h(x \<mapsto> - 1)) (insert x D)"
proof -
  have "x \<notin> refs_of q" using timers_okD(2) [OF t] x by blast
  then have "heap_ok q (h(x \<mapsto> - 1))"
    by (intro heap_ok_frame [OF timers_okD(1) [OF t]]) auto
  then show ?thesis using t by (auto simp: timers_ok_def)
qed

lemma timers_position:
  assumes t: "timers_ok a h D" and x: "x \<in> D" "h x = Some pos"
  shows "if x \<in> refs_of a then unat pos < length a \<and> hi_ref (a ! unat pos) = Some x else length a \<le> unat pos"
proof (cases "x \<in> refs_of a")
  case True
  from heap_index [OF timers_okD(1) [OF t] True] obtain i where "i < length a" "h x = Some (of_nat i)"
    "unat (of_nat i :: size_t) = i" "hi_ref (a ! i) = Some x" by metis
  then show ?thesis using x(2) True by simp
next
  case False
  then have "pos = - 1" using timers_okD(4) [OF t x(1)] x(2) by simp
  moreover have "length a \<le> unat (- 1 :: size_t)"
    using heap_okD(3) [OF timers_okD(1) [OF t]] by (simp add: unsigned_minus_1_eq_mask mask_eq_exp_minus_1)
  ultimately show ?thesis using False by simp
qed

section \<open>Changes\<close>

lemma timers_delete:
  assumes t: "timers_ok a h D" and i: "i < length a" "hi_ref (a ! i) = Some x"
  obtains a' h' where
    "heap_delete a h i = Some (a', h')" "assign h' (Some x) (\<lambda>_. - 1) = Some (h'(x \<mapsto> - 1))"
    "timers_ok a' (h'(x \<mapsto> - 1)) D" "ttl_of a' x = None" "\<forall>y. y \<noteq> x \<longrightarrow> ttl_of a' y = ttl_of a y"
    "agree_off D h (h'(x \<mapsto> - 1))"
proof -
  note T = timers_okD [OF t]
  from heap_delete_ok [OF T(1) i(1)] obtain a' h' where
    r: "heap_delete a h i = Some (a', h')" "heap_ok a' h'" "mset a = add_mset (a ! i) (mset a')"
      "agree_off (refs_of a') h h'" .
  have d': "distinct (map hi_ref a')" using heap_okD(4) [OF r(2)] .
  have "mset (map hi_ref a) = add_mset (Some x) (mset (map hi_ref a'))"
    using arg_cong [OF r(3), of "image_mset hi_ref"] i(2) by simp
  then have "mset (map hi_ref a) = mset (Some x # map hi_ref a')" by simp
  then have "distinct (Some x # map hi_ref a')" using T(3) by (metis mset_eq_imp_distinct_iff)
  then have xn: "x \<notin> refs_of a'" by (auto simp: refs_of_def)
  have sets: "set a = insert (a ! i) (set a')" using arg_cong [OF r(3), of set_mset] by simp
  have "\<exists>y \<in> D. hi_ref (a ! i) = Some y" using t nth_mem [OF i(1)] by (auto simp: timers_ok_def)
  then have xD: "x \<in> D" using i(2) by simp
  have h'x: "h' x = h x" using r(4) xn by (simp add: frame_defs)
  moreover have "h x \<noteq> None" using heap_okD(5) [OF T(1) i(1)] i(2) by simp
  ultimately have as: "assign h' (Some x) (\<lambda>_. - 1) = Some (h'(x \<mapsto> - 1))" by auto
  have ok: "heap_ok a' (h'(x \<mapsto> - 1))"
    by (rule heap_ok_frame [OF r(2)]) (use xn in auto)
  have sub: "refs_of a' \<subseteq> D" using sets T(2) by (auto simp: refs_of_def)
  have ti: "timers_ok a' (h'(x \<mapsto> - 1)) D"
    unfolding timers_ok_def
  proof (intro conjI ballI)
    show "\<exists>y \<in> D. hi_ref j = Some y" if "j \<in> set a'" for j
      using t sets that by (auto simp: timers_ok_def)
    show "y \<in> refs_of a' \<or> (h'(x \<mapsto> - 1)) y = Some (- 1)" if "y \<in> D" for y
    proof (cases "y = x \<or> y \<in> refs_of a'")
      case False
      then have "y \<notin> refs_of a" using sets i(2) by (auto simp: refs_of_def)
      then have "h y = Some (- 1)" using T(4) that by blast
      then show ?thesis using False r(4) by (simp add: frame_defs)
    qed auto
  qed (rule ok)
  have other: "ttl_of a' y = ttl_of a y" if "y \<noteq> x" for y
    by (rule ttl_of_cong [OF d' T(3)]) (use i(2) that sets in \<open>metis heapitem.select_convs(2) insert_iff option.inject\<close>)
  have "agree_off D h (h'(x \<mapsto> - 1))" using r(4) sub xD by (auto simp: frame_defs)
  moreover have "ttl_of a' x = None" using xn by (simp add: ttl_of_None)
  ultimately show thesis using that [OF r(1) as ti] other by simp
qed

text \<open>What the array holds after \<open>heap_upsert\<close>: the new item, and the items of the other entries.\<close>

lemma upsert_items:
  assumes "if x \<in> refs_of a then pos < length a \<and> hi_ref (a ! pos) = Some x else length a \<le> pos"
    "distinct (map hi_ref a)" "hi_ref i = Some x"
  shows "\<forall>j < length a. j \<noteq> pos \<longrightarrow> hi_ref (a ! j) \<noteq> Some x"
    "set (if pos < length a then a[pos := i] else a @ [i]) = insert i {k \<in> set a. hi_ref k \<noteq> Some x}"
proof -
  show others: "\<forall>j < length a. j \<noteq> pos \<longrightarrow> hi_ref (a ! j) \<noteq> Some x"
  proof (intro allI impI)
    fix j assume j: "j < length a" "j \<noteq> pos"
    show "hi_ref (a ! j) \<noteq> Some x"
    proof (cases "x \<in> refs_of a")
      case True
      then show ?thesis using assms(1) j nth_eq_iff_index_eq [OF assms(2), of j pos] by auto
    next
      case False
      then show ?thesis using nth_mem [OF j(1)] by (auto simp: refs_of_def image_iff)
    qed
  qed
  show "set (if pos < length a then a[pos := i] else a @ [i]) = insert i {k \<in> set a. hi_ref k \<noteq> Some x}"
  proof (cases "pos < length a")
    case True
    then have "k \<in> set (a[pos := i]) \<longleftrightarrow> k = i \<or> (\<exists>j < length a. j \<noteq> pos \<and> a ! j = k)" for k
      by (auto simp: in_set_conv_nth nth_list_update split: if_splits)
    moreover have "hi_ref (a ! pos) = Some x" using assms(1) True by (auto split: if_splits)
    ultimately show ?thesis using True others by (auto simp: in_set_conv_nth)
  next
    case False
    then have "x \<notin> refs_of a" using assms(1) by (auto split: if_splits)
    then show ?thesis using False by (auto simp: refs_of_def image_iff)
  qed
qed

lemma timers_upsert:
  assumes t: "timers_ok a h D" "finite D" "card D < 2 ^ 56" and x: "x \<in> D"
    and pos: "if x \<in> refs_of a then pos < length a \<and> hi_ref (a ! pos) = Some x else length a \<le> pos"
  obtains a' h' where
    "heap_upsert a h pos \<lparr>hi_val = v, hi_ref = Some x\<rparr> = Some (a', h')"
    "timers_ok a' h' D" "ttl_of a' x = Some v" "\<forall>y. y \<noteq> x \<longrightarrow> ttl_of a' y = ttl_of a y"
    "agree_off D h h'"
proof -
  note T = timers_okD [OF t(1)]
  let ?t = "\<lparr>hi_val = v, hi_ref = Some x\<rparr>"
  have len: "length a + 1 < 2 ^ 60" using timers_length [OF t(1,2)] t(3) by simp
  have hx: "deref h (hi_ref ?t) \<noteq> None"
  proof (cases "x \<in> refs_of a")
    case True
    then show ?thesis by (rule heap_index [OF T(1)]) simp
  qed (use T(4) x in simp)
  have others: "\<forall>i < length a. i \<noteq> pos \<longrightarrow> hi_ref (a ! i) \<noteq> hi_ref ?t"
    using upsert_items(1) [OF pos T(3), of ?t] by simp
  from heap_upsert_ok [OF T(1) len hx others] obtain a' h' where
    r: "heap_upsert a h pos ?t = Some (a', h')" "heap_ok a' h'"
      "mset a' = mset (if pos < length a then a[pos := ?t] else a @ [?t])" "agree_off (refs_of a') h h'" .
  have sets: "set a' = insert ?t {i \<in> set a. hi_ref i \<noteq> Some x}"
    using mset_eq_setD [OF r(3)] upsert_items(2) [OF pos T(3), of ?t] by simp
  have d': "distinct (map hi_ref a')" using heap_okD(4) [OF r(2)] .
  have sub: "refs_of a' \<subseteq> D" unfolding refs_of_def sets using T(2) x by (auto simp: refs_of_def)
  have rx: "refs_of a' = insert x (refs_of a)" unfolding refs_of_def sets by auto
  have ti: "timers_ok a' h' D"
    unfolding timers_ok_def
  proof (intro conjI ballI)
    show "\<exists>y \<in> D. hi_ref j = Some y" if "j \<in> set a'" for j
      using that t(1) x unfolding sets by (auto simp: timers_ok_def)
    show "y \<in> refs_of a' \<or> h' y = Some (- 1)" if "y \<in> D" for y
      using T(4) [OF that] rx r(4) by (auto simp: frame_defs)
  qed (rule r(2))
  have other: "ttl_of a' y = ttl_of a y" if "y \<noteq> x" for y
    by (rule ttl_of_cong [OF d' T(3)]) (use that in \<open>auto simp: sets\<close>)
  have "ttl_of a' x = Some v" unfolding ttl_of_Some [OF d'] sets by simp
  then show thesis using that [OF r(1) ti] other agree_off_mono [OF r(4) sub] by simp
qed

section \<open>The first element\<close>

lemma root_timer:
  assumes tim: "timers_ok a h D" and ne: "a \<noteq> []"
  obtains x where "x \<in> D" "hi_ref (a ! 0) = Some x" "ttl_of a x = Some (hi_val (a ! 0))"
    "\<forall>y t. ttl_of a y = Some t \<longrightarrow> hi_val (a ! 0) \<le> t"
proof -
  note T = timers_okD [OF tim]
  have i: "a ! 0 \<in> set a" using ne by simp
  then obtain x where x: "x \<in> D" "hi_ref (a ! 0) = Some x" using tim by (auto simp: timers_ok_def)
  have "\<lparr>hi_val = hi_val (a ! 0), hi_ref = Some x\<rparr> = a ! 0" using x(2) by (metis heapitem_eta)
  then have "ttl_of a x = Some (hi_val (a ! 0))" using i ttl_of_Some [OF T(3)] by simp
  moreover have "hi_val (a ! 0) \<le> t" if "ttl_of a y = Some t" for y t
  proof -
    have "\<lparr>hi_val = t, hi_ref = Some y\<rparr> \<in> set a" using that ttl_of_Some [OF T(3)] by simp
    then obtain j where "j < length a" "a ! j = \<lparr>hi_val = t, hi_ref = Some y\<rparr>" by (metis in_set_conv_nth)
    then show ?thesis using heap_root_min [OF heap_okD(1) [OF T(1)], of j] by simp
  qed
  ultimately show thesis using that x by blast
qed

section \<open>The interface\<close>

text \<open>What the rest of the program relies on: a map from entries to times that can be set and removed at a
  position \<open>pos\<close>, which the entry itself records (\<open>at q h x = Some pos\<close>), and a first element.\<close>

locale due_map =
  fixes ok :: "'q \<Rightarrow> refs \<Rightarrow> addr set \<Rightarrow> bool"
    and due :: "'q \<Rightarrow> addr \<Rightarrow> u64 option"
    and remove :: "'q \<Rightarrow> refs \<Rightarrow> nat \<Rightarrow> ('q \<times> refs) option"
    and upsert :: "'q \<Rightarrow> refs \<Rightarrow> nat \<Rightarrow> heapitem \<Rightarrow> ('q \<times> refs) option"
  assumes due_in: "ok q h D \<Longrightarrow> due q x \<noteq> None \<Longrightarrow> x \<in> D"
    and frame: "ok q h D \<Longrightarrow> \<forall>x \<in> D. h' x = h x \<Longrightarrow> ok q h' D"
    and leave: "ok q h D \<Longrightarrow> due q x = None \<Longrightarrow> ok q h (D - {x})"
    and enter: "ok q h D \<Longrightarrow> x \<notin> D \<Longrightarrow> ok q (h(x \<mapsto> - 1)) (insert x D)"
    and absent: "ok q h D \<Longrightarrow> x \<in> D \<Longrightarrow> due q x = None \<Longrightarrow> h x = Some (- 1)"
    and present: "ok q h D \<Longrightarrow> due q x \<noteq> None \<Longrightarrow> \<exists>pos. h x = Some pos \<and> pos \<noteq> - 1"
    and remove_law: "ok q h D \<Longrightarrow> due q x \<noteq> None \<Longrightarrow> h x = Some pos \<Longrightarrow>
      \<exists>q' h'. remove q h (unat pos) = Some (q', h') \<and> h' x \<noteq> None \<and> ok q' (h'(x \<mapsto> - 1)) D \<and>
        due q' x = None \<and> (\<forall>y. y \<noteq> x \<longrightarrow> due q' y = due q y) \<and> agree_off D h (h'(x \<mapsto> - 1))"
    and upsert_law: "ok q h D \<Longrightarrow> finite D \<Longrightarrow> card D < 2 ^ 56 \<Longrightarrow> x \<in> D \<Longrightarrow> h x = Some pos \<Longrightarrow>
      \<exists>q' h'. upsert q h (unat pos) \<lparr>hi_val = v, hi_ref = Some x\<rparr> = Some (q', h') \<and> ok q' h' D \<and>
        due q' x = Some v \<and> (\<forall>y. y \<noteq> x \<longrightarrow> due q' y = due q y) \<and> agree_off D h h'"
begin

text \<open>An entry's position tells whether it has a time.\<close>

lemma position:
  assumes "ok q h D" "x \<in> D"
  obtains pos where "h x = Some pos" "pos = - 1 \<longleftrightarrow> due q x = None"
  using absent [OF assms] present [OF assms(1), of x] by (cases "due q x") auto

end

locale timer_queue = due_map +
  fixes first :: "'q \<Rightarrow> heapitem option"
  assumes first_law: "ok q h D \<Longrightarrow>
    (case first q of None \<Rightarrow> \<forall>x. due q x = None
     | Some i \<Rightarrow> (\<exists>x \<in> D. hi_ref i = Some x \<and> due q x = Some (hi_val i)) \<and>
         (\<forall>y t. due q y = Some t \<longrightarrow> hi_val i \<le> t))"
begin

lemma first_in:
  assumes "ok q h D" "first q = Some i"
  obtains x where "x \<in> D" "hi_ref i = Some x" "due q x = Some (hi_val i)" "\<forall>y t. due q y = Some t \<longrightarrow> hi_val i \<le> t"
  using first_law [OF assms(1)] assms(2) by auto

text \<open>When the first element is not over, nothing is.\<close>

lemma none_over:
  assumes "ok q h D" "\<forall>i. first q = Some i \<longrightarrow> now \<le> hi_val i" "due q x = Some t"
  shows "now \<le> t"
  using first_law [OF assms(1)] assms(2,3) by (cases "first q") (auto intro: order_trans)

end

definition first_item :: "heapitem list \<Rightarrow> heapitem option" where
  "first_item a = (if a = [] then None else Some (a ! 0))"

lemma first_item_root: "a \<noteq> [] \<Longrightarrow> first_item a = Some (a ! 0)"
  by (simp add: first_item_def)

interpretation tq: timer_queue timers_ok ttl_of heap_delete heap_upsert first_item
proof unfold_locales
  fix q :: "heapitem list" and h h' :: refs and D :: "addr set" and x :: addr and pos :: size_t and v :: u64
  assume t: "timers_ok q h D"
  note T = timers_okD [OF t]
  show "x \<in> D" if "ttl_of q x \<noteq> None" using that T(2) unfolding ttl_of_None by blast
  show "timers_ok q h' D" if "\<forall>x \<in> D. h' x = h x" by (rule timers_ok_frame [OF t that])
  show "timers_ok q h (D - {x})" if "ttl_of q x = None" by (rule timers_ok_drop [OF t that])
  show "timers_ok q (h(x \<mapsto> - 1)) (insert x D)" if "x \<notin> D" by (rule timers_ok_enter [OF t that])
  show "h x = Some (- 1)" if "x \<in> D" "ttl_of q x = None" using T(4) that unfolding ttl_of_None by blast
  show pr: "\<exists>pos. h x = Some pos \<and> pos \<noteq> - 1" if "ttl_of q x \<noteq> None"
  proof -
    have "x \<in> refs_of q" using that unfolding ttl_of_None by blast
    then show ?thesis by (rule heap_index [OF T(1)]) blast
  qed
  show "\<exists>q' h'. heap_delete q h (unat pos) = Some (q', h') \<and> h' x \<noteq> None \<and> timers_ok q' (h'(x \<mapsto> - 1)) D \<and>
      ttl_of q' x = None \<and> (\<forall>y. y \<noteq> x \<longrightarrow> ttl_of q' y = ttl_of q y) \<and> agree_off D h (h'(x \<mapsto> - 1))"
    if "ttl_of q x \<noteq> None" "h x = Some pos"
  proof -
    have "x \<in> refs_of q" using that(1) unfolding ttl_of_None by blast
    from heap_index [OF T(1) this] obtain i where i: "i < length q" "h x = Some (of_nat i)"
      "unat (of_nat i :: size_t) = i" "hi_ref (q ! i) = Some x" by metis
    from timers_delete [OF t i(1,4)] obtain a' h' where "heap_delete q h i = Some (a', h')"
      "assign h' (Some x) (\<lambda>_. - 1) = Some (h'(x \<mapsto> - 1))" "timers_ok a' (h'(x \<mapsto> - 1)) D" "ttl_of a' x = None"
      "\<forall>y. y \<noteq> x \<longrightarrow> ttl_of a' y = ttl_of q y" "agree_off D h (h'(x \<mapsto> - 1))" .
    then show ?thesis using i(2,3) that(2) by (cases "h' x") (auto simp: assign_def)
  qed
  show "\<exists>q' h'. heap_upsert q h (unat pos) \<lparr>hi_val = v, hi_ref = Some x\<rparr> = Some (q', h') \<and> timers_ok q' h' D \<and>
      ttl_of q' x = Some v \<and> (\<forall>y. y \<noteq> x \<longrightarrow> ttl_of q' y = ttl_of q y) \<and> agree_off D h h'"
    if "finite D" "card D < 2 ^ 56" "x \<in> D" "h x = Some pos"
  proof -
    have "if x \<in> refs_of q then unat pos < length q \<and> hi_ref (q ! unat pos) = Some x else length q \<le> unat pos"
      by (rule timers_position [OF t that(3,4)])
    from timers_upsert [OF t that(1-3) this, of v] show ?thesis by metis
  qed
  show "case first_item q of None \<Rightarrow> \<forall>x. ttl_of q x = None
     | Some i \<Rightarrow> (\<exists>x \<in> D. hi_ref i = Some x \<and> ttl_of q x = Some (hi_val i)) \<and>
         (\<forall>y t. ttl_of q y = Some t \<longrightarrow> hi_val i \<le> t)"
  proof (cases "q = []")
    case False
    from root_timer [OF t False] obtain y where "y \<in> D" "hi_ref (q ! 0) = Some y" "ttl_of q y = Some (hi_val (q ! 0))"
      "\<forall>y t. ttl_of q y = Some t \<longrightarrow> hi_val (q ! 0) \<le> t" .
    then show ?thesis using False by (auto simp: first_item_def)
  qed (simp add: first_item_def ttl_of_def)
qed

end
