(* ===== verification/KeyInv.thy ===== *)
theory KeyInv
  imports KeyValue Keyspace DueMap
begin

text \<open>
  When the store of \<open>KeyValue\<close> represents a keyspace.  \<open>kv_inv\<close> is the invariant of the
  store: the hash table indexes the live entries by distinct keys, the expiry heap and the
  heap indexes of the entries agree (\<open>timers_ok\<close> of \<^verbatim>\<open>DueMap\<close>), every sorted set is well formed, no two
  entries share memory, and the entries queued for disposal are in no index.  \<open>kv_abs\<close>
  relates the store to a keyspace.  The lemmas say how both survive the changes commands are
  made of: a look-up (\<open>db_lookup_ok\<close>), a new string, sorted set or expiry time
  (\<open>kv_str_ok\<close>, \<open>kv_zset_ok\<close>, \<open>kv_ttl_ok\<close>), a new entry (\<open>db_insert_new_ok\<close>), the
  deletion of an entry (\<open>kv_unlink_ok\<close>) and its disposal (\<open>pool_work_ok\<close>).
\<close>

section \<open>Expiry times\<close>

lemma entry_set_ttl_ok:
  assumes t: "timers_ok (theap s) (hidx s) D" "finite D" "card D < 2 ^ 56" and x: "x \<in> D"
  obtains a h where
    "entry_set_ttl now s x ms = Some (s\<lparr>theap := a, hidx := h\<rparr>)" "timers_ok a h D"
    "ttl_of a x = (if sint ms < 0 then None else Some (now + ms))"
    "\<forall>y. y \<noteq> x \<longrightarrow> ttl_of a y = ttl_of (theap s) y" "agree_off D (hidx s) h"
proof -
  from tq.position [OF t(1) x] obtain pos where
    p: "hidx s x = Some pos" "pos = - 1 \<longleftrightarrow> ttl_of (theap s) x = None" .
  consider (remove) "sint ms < 0" "ttl_of (theap s) x \<noteq> None" | (stay) "sint ms < 0" "ttl_of (theap s) x = None"
    | (set) "\<not> sint ms < 0" by blast
  then show thesis
  proof cases
    case remove
    from tq.remove_law [OF t(1) remove(2) p(1)] obtain a h where
      r: "heap_delete (theap s) (hidx s) (unat pos) = Some (a, h)" "h x \<noteq> None" "timers_ok a (h(x \<mapsto> - 1)) D"
        "ttl_of a x = None" "\<forall>y. y \<noteq> x \<longrightarrow> ttl_of a y = ttl_of (theap s) y" "agree_off D (hidx s) (h(x \<mapsto> - 1))" by blast
    have "entry_set_ttl now s x ms = Some (s\<lparr>theap := a, hidx := h(x \<mapsto> - 1)\<rparr>)"
      unfolding entry_set_ttl_def using p remove r(1,2) by auto
    then show thesis using that r(3-6) remove(1) by simp
  next
    case stay
    then have "entry_set_ttl now s x ms = Some (s\<lparr>theap := theap s, hidx := hidx s\<rparr>)"
      unfolding entry_set_ttl_def using p by simp
    then show thesis using that [of "hidx s" "theap s"] t(1) stay by simp
  next
    case set
    from tq.upsert_law [OF t x p(1), of "now + ms"] obtain a h where
      r: "heap_upsert (theap s) (hidx s) (unat pos) \<lparr>hi_val = now + ms, hi_ref = Some x\<rparr> = Some (a, h)"
        "timers_ok a h D" "ttl_of a x = Some (now + ms)" "\<forall>y. y \<noteq> x \<longrightarrow> ttl_of a y = ttl_of (theap s) y"
        "agree_off D (hidx s) h" by blast
    have "entry_set_ttl now s x ms = Some (s\<lparr>theap := a, hidx := h\<rparr>)"
      unfolding entry_set_ttl_def using p(1) set r(1) by simp
    then show thesis using that r(2-5) set by simp
  qed
qed

section \<open>The store represents a keyspace\<close>

abbreviation ent :: "kvs \<Rightarrow> addr \<Rightarrow> entry" where
  "ent s a \<equiv> the (ents s a)"

definition val_of :: "zmem \<Rightarrow> entry \<Rightarrow> addr tree \<Rightarrow> kval" where
  "val_of m e t = (if e_type e = T_STR then KStr (e_str e) else KZSet (zabs m t))"

text \<open>One entry: a string, whose sorted set is empty, or a sorted set with the tree \<open>t\<close>.\<close>

definition entry_ok :: "zmem \<Rightarrow> addr \<Rightarrow> addr \<Rightarrow> entry option \<Rightarrow> addr tree \<Rightarrow> bool" where
  "entry_ok m brk a p t \<longleftrightarrow> a < brk \<and> (\<exists>e. p = Some e \<and>
     (e_type e = T_ZSET \<or> e_type e = T_STR \<and> t = Leaf) \<and> zset_ok m (e_zset e) t)"

definition ents_ok :: "kvs \<Rightarrow> (addr \<Rightarrow> addr tree) \<Rightarrow> addr set \<Rightarrow> bool" where
  "ents_ok s zt L \<longleftrightarrow> (\<forall>a \<in> L. entry_ok (zm s) (ebrk s) a (ents s a) (zt a)) \<and>
     (\<forall>a \<in> L. \<forall>b \<in> L. a \<noteq> b \<longrightarrow> set_tree (zt a) \<inter> set_tree (zt b) = {})"

definition index_ok :: "kvs \<Rightarrow> addr set \<Rightarrow> bool" where
  "index_ok s D \<longleftrightarrow> hmap_set (enode s) (\<lambda>a. str_hash (e_key (ent s a))) (db s) D \<and>
     inj_on (\<lambda>a. e_key (ent s a)) D"

text \<open>\<open>D\<close> holds the entries in the table; the other entries are queued for disposal.\<close>

definition kv_inv :: "kvs \<Rightarrow> addr set \<Rightarrow> (addr \<Rightarrow> addr tree) \<Rightarrow> bool" where
  "kv_inv s D zt \<longleftrightarrow> index_ok s D \<and> timers_ok (theap s) (hidx s) D \<and> ents_ok s zt (D \<union> set (pool s)) \<and>
     D \<inter> set (pool s) = {} \<and> distinct (pool s)"

definition kv_abs :: "kvs \<Rightarrow> addr set \<Rightarrow> (addr \<Rightarrow> addr tree) \<Rightarrow> keyspace \<Rightarrow> bool" where
  "kv_abs s D zt A \<longleftrightarrow> dom A = (\<lambda>a. e_key (ent s a)) ` D \<and>
     (\<forall>a \<in> D. A (e_key (ent s a)) = Some (val_of (zm s) (ent s a) (zt a), ttl_of (theap s) a))"

definition kv_rep :: "kvs \<Rightarrow> keyspace \<Rightarrow> bool" where
  "kv_rep s A \<longleftrightarrow> (\<exists>D zt. kv_inv s D zt \<and> kv_abs s D zt A)"

lemma kv_invD:
  assumes "kv_inv s D zt"
  shows "hmap_set (enode s) (\<lambda>a. str_hash (e_key (ent s a))) (db s) D"
    "inj_on (\<lambda>a. e_key (ent s a)) D" "timers_ok (theap s) (hidx s) D"
    "a \<in> D \<union> set (pool s) \<Longrightarrow> \<exists>e. ents s a = Some e"
    "a \<in> D \<union> set (pool s) \<Longrightarrow> zset_ok (zm s) (e_zset (ent s a)) (zt a)"
    "a \<in> D \<union> set (pool s) \<Longrightarrow> e_type (ent s a) = T_ZSET \<or> e_type (ent s a) = T_STR \<and> zt a = Leaf"
    "finite D" "card D < 2 ^ 56"
    "a \<in> D \<union> set (pool s) \<Longrightarrow> a < ebrk s"
proof -
  have i: "index_ok s D" "timers_ok (theap s) (hidx s) D" "ents_ok s zt (D \<union> set (pool s))"
    using assms by (simp_all add: kv_inv_def)
  show h: "hmap_set (enode s) (\<lambda>a. str_hash (e_key (ent s a))) (db s) D"
    "inj_on (\<lambda>a. e_key (ent s a)) D" "timers_ok (theap s) (hidx s) D"
    using i by (simp_all add: index_ok_def)
  show "finite D" "card D < 2 ^ 56" using hm.rep_finite [OF h(1)] by simp_all
  assume "a \<in> D \<union> set (pool s)"
  then have "entry_ok (zm s) (ebrk s) a (ents s a) (zt a)" using i(3) unfolding ents_ok_def by blast
  then show "\<exists>e. ents s a = Some e" "zset_ok (zm s) (e_zset (ent s a)) (zt a)" "a < ebrk s"
    "e_type (ent s a) = T_ZSET \<or> e_type (ent s a) = T_STR \<and> zt a = Leaf"
    by (auto simp: entry_ok_def)
qed

lemma entry_eq_key:
  assumes "kv_inv s D zt"
  shows "\<forall>a \<in> D. entry_eq s k a = Some (e_key (ent s a) = k)"
proof
  fix a assume "a \<in> D"
  then obtain e where "ents s a = Some e" using kv_invD(4) [OF assms, of a] by blast
  then show "entry_eq s k a = Some (e_key (ent s a) = k)" by (simp add: entry_eq_def)
qed

text \<open>Rehashing changes neither the invariant nor the keyspace.\<close>

lemma kv_inv_rehash:
  assumes "kv_inv s D zt" "hmap_set h (\<lambda>a. str_hash (e_key (ent s a))) m D"
  shows "kv_inv (s\<lparr>enode := h, db := m\<rparr>) D zt"
  using assms by (simp add: kv_inv_def index_ok_def ents_ok_def)

lemma kv_abs_rehash [simp]: "kv_abs (s\<lparr>enode := h, db := m\<rparr>) D zt A = kv_abs s D zt A"
  by (simp add: kv_abs_def)

lemma kv_absD:
  assumes "kv_abs s D zt A"
  shows "a \<in> D \<Longrightarrow> A (e_key (ent s a)) = Some (val_of (zm s) (ent s a) (zt a), ttl_of (theap s) a)"
    "A k = None \<longleftrightarrow> (\<forall>a \<in> D. e_key (ent s a) \<noteq> k)"
proof -
  show "a \<in> D \<Longrightarrow> A (e_key (ent s a)) = Some (val_of (zm s) (ent s a) (zt a), ttl_of (theap s) a)"
    using assms by (simp add: kv_abs_def)
  have "A k = None \<longleftrightarrow> k \<notin> (\<lambda>a. e_key (ent s a)) ` D" using assms unfolding kv_abs_def by blast
  then show "A k = None \<longleftrightarrow> (\<forall>a \<in> D. e_key (ent s a) \<noteq> k)" by auto
qed

lemma db_lookup_ok:
  assumes inv: "kv_inv s D zt" and abs: "kv_abs s D zt A"
  obtains r h m where
    "db_lookup s k = Some (r, s\<lparr>enode := h, db := m\<rparr>)" "kv_inv (s\<lparr>enode := h, db := m\<rparr>) D zt"
    "r = None \<longrightarrow> A k = None"
    "\<forall>a. r = Some a \<longrightarrow> a \<in> D \<and> e_key (ent s a) = k \<and>
       A k = Some (val_of (zm s) (ent s a) (zt a), ttl_of (theap s) a)"
proof -
  note I = kv_invD [OF inv]
  from hm.keyed_lookup [where hash = str_hash and k = k, OF I(1) _ I(2) entry_eq_key [OF inv]] obtain r h m where
    r: "hm_lookup (enode s) (db s) (str_hash k) (entry_eq s k) = Some (r, h, m)"
      "hmap_set h (\<lambda>a. str_hash (e_key (ent s a))) m D"
      "\<forall>a. r = Some a \<longleftrightarrow> a \<in> D \<and> e_key (ent s a) = k" by auto
  have "db_lookup s k = Some (r, s\<lparr>enode := h, db := m\<rparr>)" using r(1) by (simp add: db_lookup_def)
  moreover have "A k = None" if "r = None" using r(3) that kv_absD(2) [OF abs, of k] by auto
  moreover have "a \<in> D \<and> e_key (ent s a) = k \<and>
       A k = Some (val_of (zm s) (ent s a) (zt a), ttl_of (theap s) a)" if "r = Some a" for a
    proof -
    have "a \<in> D \<and> e_key (ent s a) = k" by (rule iffD1 [OF spec [OF r(3)] that])
    then show ?thesis using kv_absD(1) [OF abs, of a] by auto
  qed
  ultimately show thesis using that kv_inv_rehash [OF inv r(2)] by blast
qed

lemma index_ok_cong:
  assumes "index_ok s D" "enode s' = enode s" "db s' = db s" "\<forall>a \<in> D. e_key (ent s' a) = e_key (ent s a)"
  shows "index_ok s' D"
proof -
  have "hmap_set (enode s) (\<lambda>a. str_hash (e_key (ent s' a))) (db s) D"
    by (rule hm.rep_hc [where hc = "\<lambda>a. str_hash (e_key (ent s a))"]) (use assms in \<open>simp_all add: index_ok_def\<close>)
  moreover have "inj_on (\<lambda>a. e_key (ent s' a)) D"
    using assms by (simp add: index_ok_def cong: inj_on_cong)
  ultimately show ?thesis using assms by (simp add: index_ok_def)
qed

lemma ents_okD:
  assumes "ents_ok s zt L" "a \<in> L"
  shows "a < ebrk s" "\<exists>e. ents s a = Some e" "zset_ok (zm s) (e_zset (ent s a)) (zt a)"
    "b \<in> L \<Longrightarrow> a \<noteq> b \<Longrightarrow> set_tree (zt a) \<inter> set_tree (zt b) = {}"
  using assms unfolding ents_ok_def entry_ok_def by fastforce+

lemma ents_ok_entry: "ents_ok s zt L \<Longrightarrow> a \<in> L \<Longrightarrow> entry_ok (zm s) (ebrk s) a (ents s a) (zt a)"
  by (simp add: ents_ok_def)

text \<open>A sorted set changes: the other entries are framed.\<close>

lemma ents_ok_zset:
  assumes ok: "ents_ok s zt L" and a: "a \<in> L" "ents s a = Some e" "e_type e = T_ZSET"
    and z: "zset_ok m' z' t'" "zframe (set_tree (zt a)) (zm s) m'"
    and new: "\<forall>x \<in> set_tree t'. x \<in> set_tree (zt a) \<or> zbrk (zm s) \<le> x"
  defines "s' \<equiv> s\<lparr>zm := m', ents := (ents s)(a \<mapsto> e\<lparr>e_zset := z'\<rparr>)\<rparr>"
  shows "ents_ok s' (zt(a := t')) L"
    "b \<in> L \<Longrightarrow> b \<noteq> a \<Longrightarrow> zabs m' (zt b) = zabs (zm s) (zt b)"
proof -
  have other: "entry_ok m' (ebrk s) b (ents s b) (zt b)" "zabs m' (zt b) = zabs (zm s) (zt b)"
    "set_tree t' \<inter> set_tree (zt b) = {}" if b: "b \<in> L" "b \<noteq> a" for b
  proof -
    note old = ents_ok_entry [OF ok b(1)]
    from old obtain eb where eb: "ents s b = Some eb" "zset_ok (zm s) (e_zset eb) (zt b)" by (auto simp: entry_ok_def)
    have dis: "set_tree (zt a) \<inter> set_tree (zt b) = {}" using ents_okD(4) [OF ok a(1) b(1)] b(2) by blast
    note fr = zset_ok_frame [OF eb(2) z(2) dis]
    show "zabs m' (zt b) = zabs (zm s) (zt b)" by (rule fr(2))
    show "entry_ok m' (ebrk s) b (ents s b) (zt b)" using old eb(1) fr(1) by (simp add: entry_ok_def)
    have "\<forall>x \<in> set_tree (zt b). x < zbrk (zm s)" using zset_okD(7) [OF eb(2)] by blast
    then show "set_tree t' \<inter> set_tree (zt b) = {}" using new dis by (meson disjoint_iff leD)
  qed
  have "entry_ok m' (ebrk s) a (Some (e\<lparr>e_zset := z'\<rparr>)) t'"
    using ents_okD(1) [OF ok a(1)] a(3) z(1) by (simp add: entry_ok_def)
  then show "ents_ok s' (zt(a := t')) L"
    using other ok unfolding ents_ok_def s'_def by (auto simp: Int_commute)
  show "b \<in> L \<Longrightarrow> b \<noteq> a \<Longrightarrow> zabs m' (zt b) = zabs (zm s) (zt b)" by (rule other(2))
qed

lemma kv_zset_ok:
  assumes inv: "kv_inv s D zt" and abs: "kv_abs s D zt A"
    and a: "a \<in> D" "ents s a = Some e" "e_type e = T_ZSET"
    and z: "zset_ok m' z' t'" "zframe (set_tree (zt a)) (zm s) m'"
    and new: "\<forall>x \<in> set_tree t'. x \<in> set_tree (zt a) \<or> zbrk (zm s) \<le> x"
  defines "s' \<equiv> s\<lparr>zm := m', ents := (ents s)(a \<mapsto> e\<lparr>e_zset := z'\<rparr>)\<rparr>"
  shows "kv_inv s' D (zt(a := t'))"
    "kv_abs s' D (zt(a := t')) (A(e_key e \<mapsto> (KZSet (zabs m' t'), ttl_of (theap s) a)))"
proof -
  note I = kv_invD [OF inv]
  have e: "ents_ok s zt (D \<union> set (pool s))" using inv by (simp add: kv_inv_def)
  have aL: "a \<in> D \<union> set (pool s)" using a(1) by simp
  note E = ents_ok_zset [OF e aL a(2,3) z new]
  have key: "e_key (ent s' b) = e_key (ent s b)" for b using a(2) by (simp add: s'_def)
  have "index_ok s' D"
    by (rule index_ok_cong [where s = s]) (use inv a(2) in \<open>simp_all add: kv_inv_def s'_def\<close>)
  then show "kv_inv s' D (zt(a := t'))" using inv E(1) by (simp add: kv_inv_def s'_def)
  have "A' (e_key (ent s' b)) = Some (val_of (zm s') (ent s' b) ((zt(a := t')) b), ttl_of (theap s') b)"
    if b: "b \<in> D" and A': "A' = A(e_key e \<mapsto> (KZSet (zabs m' t'), ttl_of (theap s) a))" for b A'
  proof (cases "b = a")
    case True
    then show ?thesis using a(2,3) A' by (simp add: s'_def val_of_def)
  next
    case False
    then have "e_key (ent s b) \<noteq> e_key e" using I(2) b a(1,2) by (auto simp: inj_on_def)
    then show ?thesis using kv_absD(1) [OF abs b] False A' E(2) [of b] b by (simp add: s'_def val_of_def)
  qed
  moreover have "dom (A(e_key e \<mapsto> (KZSet (zabs m' t'), ttl_of (theap s) a))) = (\<lambda>b. e_key (ent s' b)) ` D"
    using abs a(1,2) by (auto simp: key kv_abs_def intro: image_eqI [of _ _ a])
  ultimately show "kv_abs s' D (zt(a := t')) (A(e_key e \<mapsto> (KZSet (zabs m' t'), ttl_of (theap s) a)))"
    unfolding kv_abs_def by blast
qed

text \<open>A string changes.\<close>

lemma kv_str_ok:
  fixes v :: bytes
  assumes inv: "kv_inv s D zt" and abs: "kv_abs s D zt A"
    and a: "a \<in> D" "ents s a = Some e" "e_type e = T_STR"
  defines "s' \<equiv> s\<lparr>ents := (ents s)(a \<mapsto> e\<lparr>e_str := v\<rparr>)\<rparr>"
  shows "kv_inv s' D zt" "kv_abs s' D zt (A(e_key e \<mapsto> (KStr v, ttl_of (theap s) a)))"
proof -
  note I = kv_invD [OF inv]
  have key: "e_key (ent s' b) = e_key (ent s b)" for b using a(2) by (simp add: s'_def)
  have "index_ok s' D"
    by (rule index_ok_cong [where s = s]) (use inv a(2) in \<open>simp_all add: kv_inv_def s'_def\<close>)
  moreover have "ents_ok s' zt (D \<union> set (pool s))"
  proof -
    have e: "ents_ok s zt (D \<union> set (pool s))" using inv by (simp add: kv_inv_def)
    then have "entry_ok (zm s) (ebrk s) b (ents s' b) (zt b)" if "b \<in> D \<union> set (pool s)" for b
      using ents_ok_entry [OF e that] a(2) by (cases "b = a") (auto simp: s'_def entry_ok_def)
    then show ?thesis using e by (simp add: ents_ok_def s'_def)
  qed
  ultimately show "kv_inv s' D zt" using inv by (simp add: kv_inv_def s'_def)
  have "A' (e_key (ent s' b)) = Some (val_of (zm s') (ent s' b) (zt b), ttl_of (theap s') b)"
    if b: "b \<in> D" and A': "A' = A(e_key e \<mapsto> (KStr v, ttl_of (theap s) a))" for b A'
  proof (cases "b = a")
    case True
    then show ?thesis using a(2,3) A' by (simp add: s'_def val_of_def)
  next
    case False
    then have "e_key (ent s b) \<noteq> e_key e" using I(2) b a(1,2) by (auto simp: inj_on_def)
    then show ?thesis using kv_absD(1) [OF abs b] False A' by (simp add: s'_def val_of_def)
  qed
  moreover have "dom (A(e_key e \<mapsto> (KStr v, ttl_of (theap s) a))) = (\<lambda>b. e_key (ent s' b)) ` D"
    using abs a(1,2) by (auto simp: key kv_abs_def intro: image_eqI [of _ _ a])
  ultimately show "kv_abs s' D zt (A(e_key e \<mapsto> (KStr v, ttl_of (theap s) a)))"
    unfolding kv_abs_def by blast
qed

text \<open>An expiry time changes.\<close>

lemma kv_ttl_ok:
  assumes inv: "kv_inv s D zt" and abs: "kv_abs s D zt A" and a: "a \<in> D"
    and k: "k = e_key (ent s a)" and v: "A k = Some (v, t)"
  obtains s' where "entry_set_ttl now s a ms = Some s'" "kv_inv s' D zt" "ents s' = ents s" "zm s' = zm s"
    "kv_abs s' D zt (A(k \<mapsto> (v, if sint ms < 0 then None else Some (now + ms))))"
    "ttl_of (theap s') a = (if sint ms < 0 then None else Some (now + ms))"
proof -
  note I = kv_invD [OF inv]
  from entry_set_ttl_ok [OF I(3,7,8) a, of now ms] obtain p h where
    r: "entry_set_ttl now s a ms = Some (s\<lparr>theap := p, hidx := h\<rparr>)" "timers_ok p h D"
      "ttl_of p a = (if sint ms < 0 then None else Some (now + ms))"
      "\<forall>y. y \<noteq> a \<longrightarrow> ttl_of p y = ttl_of (theap s) y" "agree_off D (hidx s) h" .
  let ?s = "s\<lparr>theap := p, hidx := h\<rparr>"
  have inv': "kv_inv ?s D zt" using inv r(2) by (simp add: kv_inv_def index_ok_def ents_ok_def)
  have val: "v = val_of (zm s) (ent s a) (zt a)" using kv_absD(1) [OF abs a] v k by simp
  have "kv_abs ?s D zt (A(k \<mapsto> (v, ttl_of p a)))"
    unfolding kv_abs_def
  proof
    show "dom (A(k \<mapsto> (v, ttl_of p a))) = (\<lambda>a. e_key (ent ?s a)) ` D"
      using abs a k by (auto simp: kv_abs_def)
    show "\<forall>b \<in> D. (A(k \<mapsto> (v, ttl_of p a))) (e_key (ent ?s b)) = Some (val_of (zm ?s) (ent ?s b) (zt b), ttl_of (theap ?s) b)"
    proof
      fix b assume b: "b \<in> D"
      show "(A(k \<mapsto> (v, ttl_of p a))) (e_key (ent ?s b)) = Some (val_of (zm ?s) (ent ?s b) (zt b), ttl_of (theap ?s) b)"
      proof (cases "b = a")
        case False
        then have "e_key (ent s b) \<noteq> k" using I(2) b a k by (auto simp: inj_on_def)
        then show ?thesis using kv_absD(1) [OF abs b] r(4) False by simp
      qed (use val k in simp)
    qed
  qed
  then show thesis using that [OF r(1) inv'] r(3) by simp
qed

text \<open>A new entry.\<close>

lemma kv_abs_insert:
  assumes abs: "kv_abs s D zt A" and a: "a \<notin> D" "e_key (ent s' a) = k" and k: "A k = None"
    and new: "val_of (zm s') (ent s' a) (zt' a) = v" "ttl_of (theap s') a = t"
    and same: "\<And>b. b \<in> D \<Longrightarrow> ents s' b = ents s b \<and> val_of (zm s') (ent s b) (zt' b) = val_of (zm s) (ent s b) (zt b) \<and>
      ttl_of (theap s') b = ttl_of (theap s) b"
  shows "kv_abs s' (insert a D) zt' (A(k \<mapsto> (v, t)))"
  unfolding kv_abs_def
proof
  show "dom (A(k \<mapsto> (v, t))) = (\<lambda>b. e_key (ent s' b)) ` insert a D"
    using abs a same by (auto simp: kv_abs_def)
  show "\<forall>b \<in> insert a D. (A(k \<mapsto> (v, t))) (e_key (ent s' b)) =
      Some (val_of (zm s') (ent s' b) (zt' b), ttl_of (theap s') b)"
  proof (intro ballI)
    fix b assume "b \<in> insert a D"
    then consider "b = a" | "b \<in> D" by blast
    then show "(A(k \<mapsto> (v, t))) (e_key (ent s' b)) = Some (val_of (zm s') (ent s' b) (zt' b), ttl_of (theap s') b)"
    proof cases
      case 1
      then show ?thesis using a(2) new by simp
    next
      case 2
      then have "e_key (ent s b) \<noteq> k" using kv_absD(2) [OF abs, of k] k by simp
      then show ?thesis using kv_absD(1) [OF abs 2] same [OF 2] by simp
    qed
  qed
qed

lemma db_insert_new_ok:
  assumes inv: "kv_inv s D zt" and abs: "kv_abs s D zt A" and k: "A k = None"
    and ty: "type = T_STR \<or> type = T_ZSET" and sz: "card D + 1 < 2 ^ 56"
  obtains a s' where
    "db_insert_new s type k str = Some (a, s')" "kv_inv s' (insert a D) (zt(a := Leaf))"
    "kv_abs s' (insert a D) (zt(a := Leaf))
       (A(k \<mapsto> (if type = T_STR then KStr str else KZSet Map.empty, None)))"
    "ents s' a = Some \<lparr>e_key = k, e_type = type, e_str = str, e_zset = empty_zset\<rparr>" "zm s' = zm s"
    "ttl_of (theap s') a = None"
proof -
  note I = kv_invD [OF inv]
  define a where "a = ebrk s"
  define e where "e = \<lparr>e_key = k, e_type = type, e_str = str, e_zset = empty_zset\<rparr>"
  have fresh: "a \<notin> D" "a \<notin> set (pool s)" using I(9) by (auto simp: a_def)
  define en where "en = (ents s)(a \<mapsto> e)"
  have hc: "\<forall>b \<in> D. str_hash (e_key (the (en b))) = str_hash (e_key (ent s b))"
    using fresh by (auto simp: en_def)
  let ?h = "(enode s)(a \<mapsto> \<lparr>hnext = NULL, hcode = str_hash k\<rparr>)"
  have rep: "hmap_set ?h (\<lambda>b. str_hash (e_key (the (en b)))) (db s) D"
    by (rule hm.rep_frame [OF hm.rep_hc [OF I(1) hc]]) (use fresh in auto)
  have node: "?h a = Some \<lparr>hnext = NULL, hcode = str_hash (e_key (the (en a)))\<rparr>"
    by (simp add: en_def e_def)
  from hm.insert_law [OF rep node fresh(1) sz] obtain h m where
    r: "hm_insert ?h (db s) a = Some (h, m)" "hmap_set h (\<lambda>b. str_hash (e_key (the (en b)))) m (insert a D)" by blast
  define s' where "s' = s\<lparr>db := m, enode := h, ents := en, hidx := (hidx s)(a \<mapsto> - 1), ebrk := a + 1\<rparr>"
  have run: "db_insert_new s type k str = Some (a, s')"
    using r(1) by (simp add: db_insert_new_def entry_new_def s'_def en_def e_def flip: a_def)
  have key: "e_key (ent s' b) = (if b = a then k else e_key (ent s b))" for b
    by (simp add: s'_def en_def e_def)
  have new: "e_key (ent s b) \<noteq> k" if "b \<in> D" for b using kv_absD(2) [OF abs, of k] k that by simp
  have "inj_on (\<lambda>b. e_key (ent s' b)) (insert a D)"
    using I(2) new fresh(1) by (auto simp: key inj_on_def)
  then have idx: "index_ok s' (insert a D)" using r(2) by (simp add: index_ok_def s'_def)
  have tim: "timers_ok (theap s') (hidx s') (insert a D)"
    using tq.enter [OF I(3) fresh(1)] by (simp add: s'_def)
  have eo: "ents_ok s zt (D \<union> set (pool s))" using inv by (simp add: kv_inv_def)
  have "entry_ok (zm s) (a + 1) b (en b) ((zt(a := Leaf)) b)" if "b \<in> insert a (D \<union> set (pool s))" for b
  proof (cases "b = a")
    case False
    then have "b \<in> D \<union> set (pool s)" using that by simp
    from ents_ok_entry [OF eo this] show ?thesis using False by (auto simp: en_def entry_ok_def a_def)
  qed (use ty in \<open>auto simp: en_def e_def entry_ok_def zset_ok_empty\<close>)
  then have "ents_ok s' (zt(a := Leaf)) (insert a (D \<union> set (pool s)))"
    using eo by (auto simp: ents_ok_def s'_def)
  then have inv': "kv_inv s' (insert a D) (zt(a := Leaf))"
    using idx tim inv fresh by (simp add: kv_inv_def s'_def)
  have ttl: "ttl_of (theap s') a = None" using tq.due_in [OF I(3), of a] fresh(1) by (cases "ttl_of (theap s) a") (simp_all add: s'_def)
  have "kv_abs s' (insert a D) (zt(a := Leaf))
       (A(k \<mapsto> (if type = T_STR then KStr str else KZSet Map.empty, None)))"
    by (rule kv_abs_insert [OF abs fresh(1) _ k _ ttl])
      (use ty fresh(1) in \<open>auto simp: s'_def en_def e_def val_of_def zabs_def\<close>)
  then show thesis using that [OF run inv'] ttl by (simp add: s'_def en_def e_def)
qed

text \<open>Running the disposal of an entry that is in no index frees it with its sorted set.\<close>

lemma entry_del_sync_ok:
  assumes e: "ents_ok s zt (insert a L)" and a: "a \<notin> L" and ty: "ents s a = Some e" "e_type e \<noteq> T_ZSET \<Longrightarrow> zt a = Leaf"
  obtains s' where "entry_del_sync s a = Some s'" "ents_ok s' zt L"
    "\<forall>b \<in> L. ents s' b = ents s b \<and> enode s' b = enode s b \<and> hidx s' b = hidx s b \<and>
       zabs (zm s') (zt b) = zabs (zm s) (zt b)"
    "db s' = db s" "theap s' = theap s" "pool s' = pool s" "ents s' a = None"
proof -
  define m where "m = without (zm s) (set_tree (zt a))"
  have z: "zset_ok (zm s) (e_zset e) (zt a)" using ents_okD(3) [OF e, of a] ty(1) by simp
  have fr: "zframe (set_tree (zt a)) (zm s) m" by (auto simp: zframe_def m_def restrict_map_def)
  define s' where "s' = entry_free (s\<lparr>zm := m\<rparr>) a"
  have run: "entry_del_sync s a = Some s'"
  proof (cases "e_type e = T_ZSET")
    case True
    then show ?thesis using ty(1) zset_clear_ok [OF z]
      by (simp add: entry_del_sync_def entry_free_def s'_def m_def)
  next
    case False
    then have "m = zm s" using ty(2) by (simp add: m_def)
    then show ?thesis using False ty(1) by (simp add: entry_del_sync_def s'_def entry_free_def)
  qed
  have L: "entry_ok m (ebrk s) b (ents s b) (zt b)" "zabs m (zt b) = zabs (zm s) (zt b)" if b: "b \<in> L" for b
  proof -
    have old: "entry_ok (zm s) (ebrk s) b (ents s b) (zt b)" by (rule ents_ok_entry [OF e]) (use b in simp)
    then obtain eb where eb: "ents s b = Some eb" "zset_ok (zm s) (e_zset eb) (zt b)" by (auto simp: entry_ok_def)
    have dis: "set_tree (zt a) \<inter> set_tree (zt b) = {}" using ents_okD(4) [OF e, of a b] a b by auto
    note fr' = zset_ok_frame [OF eb(2) fr dis]
    show "entry_ok m (ebrk s) b (ents s b) (zt b)" using old eb(1) fr'(1) by (simp add: entry_ok_def)
    show "zabs m (zt b) = zabs (zm s) (zt b)" by (rule fr'(2))
  qed
  have "ents s' b = ents s b \<and> enode s' b = enode s b \<and> hidx s' b = hidx s b \<and>
       zabs (zm s') (zt b) = zabs (zm s) (zt b)" if "b \<in> L" for b
    using that a L(2) [OF that] by (auto simp: s'_def entry_free_def)
  moreover have "ents_ok s' zt L"
    using L(1) e a unfolding ents_ok_def by (auto simp: s'_def entry_free_def)
  ultimately show thesis using that [OF run] by (simp add: s'_def entry_free_def)
qed

lemma ents_ok_pool: "ents_ok (s\<lparr>pool := p\<rparr>) zt L = ents_ok s zt L"
  by (simp add: ents_ok_def)

text \<open>When everything but the entry \<open>a\<close> stays, the keyspace loses just its key.\<close>

lemma kv_abs_unlink:
  assumes abs: "kv_abs s D zt A" and inj: "inj_on (\<lambda>b. e_key (ent s b)) D" and a: "a \<in> D" "k = e_key (ent s a)"
    and same: "\<forall>b \<in> D - {a}. ents s' b = ents s b \<and> zabs (zm s') (zt b) = zabs (zm s) (zt b)"
    and heap: "\<forall>b. b \<noteq> a \<longrightarrow> ttl_of (theap s') b = ttl_of (theap s) b"
  shows "kv_abs s' (D - {a}) zt (A(k := None))"
  unfolding kv_abs_def
proof
  have "dom (A(k := None)) = (\<lambda>b. e_key (ent s b)) ` D - {k}" using abs by (simp add: kv_abs_def)
  also have "\<dots> = (\<lambda>b. e_key (ent s b)) ` (D - {a})" using inj_on_image_set_diff [OF inj, of D "{a}"] a by auto
  also have "\<dots> = (\<lambda>b. e_key (ent s' b)) ` (D - {a})" using same by auto
  finally show "dom (A(k := None)) = (\<lambda>b. e_key (ent s' b)) ` (D - {a})" .
  show "\<forall>b \<in> D - {a}. (A(k := None)) (e_key (ent s' b)) =
      Some (val_of (zm s') (ent s' b) (zt b), ttl_of (theap s') b)"
  proof
    fix b assume b: "b \<in> D - {a}"
    then have "e_key (ent s b) \<noteq> k" using inj a by (auto simp: inj_on_def)
    then show "(A(k := None)) (e_key (ent s' b)) = Some (val_of (zm s') (ent s' b) (zt b), ttl_of (theap s') b)"
      using kv_absD(1) [OF abs, of b] same heap b by (simp add: val_of_def)
  qed
qed

text \<open>The two ways an entry that has left the heap is disposed of: it is queued for the workers, or
  freed at once.\<close>

lemma unlinked_queued:
  assumes inv: "kv_inv s D zt" and a: "a \<in> D" and rep: "hmap_set h (\<lambda>b. str_hash (e_key (ent s b))) m (D - {a})"
    and tim: "timers_ok q g (D - {a})"
  shows "kv_inv (s\<lparr>enode := h, db := m, theap := q, hidx := g, pool := pool s @ [a]\<rparr>) (D - {a}) zt"
    (is "kv_inv ?u _ _")
proof -
  have p: "a \<notin> set (pool s)" "distinct (pool s)" "D \<inter> set (pool s) = {}"
    using inv a by (auto simp: kv_inv_def)
  have L: "D - {a} \<union> set (pool ?u) = D \<union> set (pool s)" using a by auto
  show ?thesis
    unfolding kv_inv_def
  proof (intro conjI)
    show "index_ok ?u (D - {a})" using rep inj_on_diff [OF kv_invD(2) [OF inv]] by (simp add: index_ok_def)
    show "ents_ok ?u zt (D - {a} \<union> set (pool ?u))"
      unfolding L using inv by (simp add: kv_inv_def ents_ok_def)
  qed (use tim p in auto)
qed

lemma unlinked_freed:
  assumes inv: "kv_inv s D zt" and a: "a \<in> D" and rep: "hmap_set h (\<lambda>b. str_hash (e_key (ent s b))) m (D - {a})"
    and tim: "timers_ok q g (D - {a})"
  obtains u where "entry_del_sync (s\<lparr>enode := h, db := m, theap := q, hidx := g\<rparr>) a = Some u" "kv_inv u (D - {a}) zt"
    "\<forall>b \<in> D - {a}. ents u b = ents s b \<and> zabs (zm u) (zt b) = zabs (zm s) (zt b)" "theap u = q"
proof -
  note I = kv_invD [OF inv]
  let ?s = "s\<lparr>enode := h, db := m, theap := q, hidx := g\<rparr>" and ?L = "D - {a} \<union> set (pool s)"
  have p: "a \<notin> set (pool s)" "distinct (pool s)" "D \<inter> set (pool s) = {}"
    using inv a by (auto simp: kv_inv_def)
  obtain e where e: "ents s a = Some e" using I(4) [of a] a by blast
  have ty: "e_type e \<noteq> T_ZSET \<Longrightarrow> zt a = Leaf" using I(6) [of a] a e by auto
  have all: "insert a ?L = D \<union> set (pool s)" using a by auto
  have eo: "ents_ok ?s zt (insert a ?L)"
    unfolding all using inv by (simp add: kv_inv_def ents_ok_def)
  from entry_del_sync_ok [OF eo _ _ ty, of e] p(1) e obtain u where
    u: "entry_del_sync ?s a = Some u" "ents_ok u zt ?L"
      "\<forall>b \<in> ?L. ents u b = ents s b \<and> enode u b = h b \<and> hidx u b = g b \<and> zabs (zm u) (zt b) = zabs (zm s) (zt b)"
      "db u = m" "theap u = q" "pool u = pool s" by auto
  have "kv_inv u (D - {a}) zt"
    unfolding kv_inv_def
  proof (intro conjI)
    have "hmap_set (enode u) (\<lambda>b. str_hash (e_key (ent u b))) m (D - {a})"
      by (rule hm.rep_frame [OF hm.rep_hc [OF rep]]) (use u(3) in auto)
    moreover have "inj_on (\<lambda>b. e_key (ent u b)) (D - {a})"
      using inj_on_diff [OF I(2), of "{a}"] u(3) by (simp add: inj_on_def)
    ultimately show "index_ok u (D - {a})" using u(4) by (simp add: index_ok_def)
    show "timers_ok (theap u) (hidx u) (D - {a})"
      unfolding u(5) by (rule tq.frame [OF tim]) (use u(3) in auto)
  qed (use u(2,6) p in auto)
  then show thesis using that [OF u(1)] u(3,5) by simp
qed

text \<open>Deleting an entry that has been unlinked from the table: it leaves the heap and is
  disposed of at once, or queued when its sorted set is large.\<close>

lemma kv_unlink_ok:
  assumes inv: "kv_inv s D zt" and abs: "kv_abs s D zt A" and a: "a \<in> D" "k = e_key (ent s a)"
    and rep: "hmap_set h (\<lambda>b. str_hash (e_key (ent s b))) m (D - {a})"
  obtains s' where "entry_del now (s\<lparr>enode := h, db := m\<rparr>) a = Some s'" "kv_inv s' (D - {a}) zt"
    "kv_abs s' (D - {a}) zt (A(k := None))" "\<forall>b \<in> D - {a}. ents s' b = ents s b"
    "\<forall>b. b \<noteq> a \<longrightarrow> ttl_of (theap s') b = ttl_of (theap s) b" "ttl_of (theap s') a = None"
proof -
  note I = kv_invD [OF inv]
  let ?s = "s\<lparr>enode := h, db := m\<rparr>"
  have tim: "timers_ok (theap ?s) (hidx ?s) D" using I(3) by simp
  from entry_set_ttl_ok [OF tim I(7,8) a(1), of now "- 1"] obtain q g where
    q: "entry_set_ttl now ?s a (- 1) = Some (?s\<lparr>theap := q, hidx := g\<rparr>)" "timers_ok q g D"
      "ttl_of q a = (if sint (- 1 :: i64) < 0 then None else Some (now + - 1))"
      "\<forall>y. y \<noteq> a \<longrightarrow> ttl_of q y = ttl_of (theap ?s) y" "agree_off D (hidx ?s) g" .
  have r: "ttl_of q a = None" "\<forall>y. y \<noteq> a \<longrightarrow> ttl_of q y = ttl_of (theap s) y" using q(3,4) by simp_all
  have tim': "timers_ok q g (D - {a})" by (rule tq.leave [OF q(2) r(1)])
  obtain e where e: "ents s a = Some e" using I(4) [of a] a(1) by blast
  note result = that
  have fin: thesis if run: "entry_del now ?s a = Some s'" and inv': "kv_inv s' (D - {a}) zt"
    and same: "\<forall>b \<in> D - {a}. ents s' b = ents s b \<and> zabs (zm s') (zt b) = zabs (zm s) (zt b)"
    and heap: "theap s' = q" for s'
  proof -
    have "kv_abs s' (D - {a}) zt (A(k := None))"
      by (rule kv_abs_unlink [OF abs I(2) a same]) (use r(2) heap in simp)
    then show thesis using result [OF run inv'] same heap r by simp
  qed
  show thesis
  proof (cases "(if e_type e = T_ZSET then hm_size (zhmap (e_zset e)) else 0) > 1000")
    case True
    let ?u = "?s\<lparr>theap := q, hidx := g, pool := pool s @ [a]\<rparr>"
    have "entry_del now ?s a = Some ?u"
      unfolding entry_del_def q(1) using True e by (simp add: Let_def)
    then show thesis by (rule fin [OF _ unlinked_queued [OF inv a(1) rep tim']]) simp_all
  next
    case False
    from unlinked_freed [OF inv a(1) rep tim'] obtain u where
      u: "entry_del_sync (?s\<lparr>theap := q, hidx := g\<rparr>) a = Some u" "kv_inv u (D - {a}) zt"
        "\<forall>b \<in> D - {a}. ents u b = ents s b \<and> zabs (zm u) (zt b) = zabs (zm s) (zt b)" "theap u = q" by auto
    have "entry_del now ?s a = Some u"
      unfolding entry_del_def q(1) using False e u(1) by (simp add: Let_def)
    then show thesis by (rule fin [OF _ u(2,3,4)])
  qed
qed

lemma kv_inv_empty: "kv_inv (kvs_init m) {} zt"
  by (simp add: kv_inv_def kvs_init_def index_ok_def hmap_set_empty timers_ok_def heap_ok_def heap_order_def
    refs_ok_def ents_ok_def)

lemma kv_rep_empty: "kv_rep (kvs_init m) Map.empty"
  unfolding kv_rep_def using kv_inv_empty by (fastforce simp: kv_abs_def)

section \<open>The background disposal\<close>

text \<open>A worker of the thread pool runs one of the queued jobs.  The jobs are taken in order, but
  with several workers they may be run in any order.\<close>

definition pool_work :: "kvs \<Rightarrow> addr \<Rightarrow> kvs option" where
  "pool_work s a = do {
     c_assert (a \<in> set (pool s));
     entry_del_func (s\<lparr>pool := remove1 a (pool s)\<rparr>) a
   }"

lemma pool_work_ok:
  assumes inv: "kv_inv s D zt" and abs: "kv_abs s D zt A" and a: "a \<in> set (pool s)"
  obtains s' where "pool_work s a = Some s'" "kv_inv s' D zt" "kv_abs s' D zt A" "pool s' = remove1 a (pool s)"
    "ents s' a = None"
proof -
  define as where "as = remove1 a (pool s)"
  note I = kv_invD [OF inv]
  let ?s = "s\<lparr>pool := as\<rparr>" and ?L = "D \<union> set as"
  have sub: "insert a (set as) = set (pool s)" and p: "a \<notin> ?L" "distinct as" "D \<inter> set as = {}"
    using inv a by (auto simp: kv_inv_def as_def)
  obtain e where e: "ents s a = Some e" using I(4) [of a] a by auto
  have ty: "e_type e \<noteq> T_ZSET \<Longrightarrow> zt a = Leaf" using I(6) [of a] a e by auto
  have all: "insert a ?L = D \<union> set (pool s)" using sub by auto
  have eo: "ents_ok ?s zt (insert a ?L)" unfolding all ents_ok_pool using inv by (simp add: kv_inv_def)
  from entry_del_sync_ok [OF eo p(1) _ ty, of e] e obtain u where
    u: "entry_del_sync ?s a = Some u" "ents_ok u zt ?L"
      "\<forall>b \<in> ?L. ents u b = ents s b \<and> enode u b = enode s b \<and> hidx u b = hidx s b \<and>
         zabs (zm u) (zt b) = zabs (zm s) (zt b)"
      "db u = db s" "theap u = theap s" "pool u = as" "ents u a = None" by auto
  have run: "pool_work s a = Some u" using a u(1) by (simp add: pool_work_def entry_del_func_def as_def)
  have "kv_inv u D zt"
    unfolding kv_inv_def
  proof (intro conjI)
    have "hmap_set (enode u) (\<lambda>b. str_hash (e_key (ent u b))) (db s) D"
      by (rule hm.rep_frame [OF hm.rep_hc [OF I(1)]]) (use u(3) in auto)
    moreover have "inj_on (\<lambda>b. e_key (ent u b)) D" using I(2) u(3) by (simp add: inj_on_def)
    ultimately show "index_ok u D" using u(4) by (simp add: index_ok_def)
    show "timers_ok (theap u) (hidx u) D"
      unfolding u(5) by (rule tq.frame [OF I(3)]) (use u(3) in auto)
  qed (use u(2,6) p in auto)
  moreover have "kv_abs u D zt A" using abs u(3,5) by (simp add: kv_abs_def val_of_def)
  ultimately show thesis using that [OF run] u(6,7) by (simp add: as_def)
qed

end
