(* ===== verification/KeyRefine.thy ===== *)
theory KeyRefine
  imports KeyInv
begin

text \<open>
  The commands of \<open>KeyValue\<close> implement the abstract keyspace of \<open>Keyspace\<close>.  Each
  \<open>do_*_ok\<close> lemma is the refinement of one command, \<open>do_request_ok\<close> that of the dispatcher;
  the \<open>step_*\<close> lemmas invert the abstract step of one command, and the properties at the end
  combine the two.
\<close>

section \<open>Every command refines the abstract keyspace\<close>

definition cmd_ok :: "u64 \<Rightarrow> keyspace \<Rightarrow> bytes list \<Rightarrow> bytes \<Rightarrow> (kvs \<times> bytes) option \<Rightarrow> bool" where
  "cmd_ok now A cmd out p \<longleftrightarrow>
     (\<exists>s r A'. p = Some (s, out @ encode r) \<and> kv_step now A cmd r A' \<and> kv_rep s A')"

lemma cmd_okI:
  "p = Some (s, out @ encode r) \<Longrightarrow> kv_step now A cmd r A' \<Longrightarrow> kv_inv s D zt \<Longrightarrow> kv_abs s D zt A' \<Longrightarrow>
   cmd_ok now A cmd out p"
  unfolding cmd_ok_def kv_rep_def by blast

lemma arr_get_lits [simp]:
  "arr_get (x # xs) 0 = Some x" "arr_get (x # xs) (Suc n) = arr_get xs n"
  "arr_get (x # xs) (numeral w) = arr_get xs (pred_numeral w)"
  by (auto simp: arr_get_def numeral_eq_Suc)

lemma val_of_cases:
  assumes "kv_inv s D zt" "a \<in> D"
  shows "(\<exists>e. ents s a = Some e \<and> e_type e = T_STR \<and> val_of (zm s) (ent s a) (zt a) = KStr (e_str e)) \<or>
    (\<exists>e. ents s a = Some e \<and> e_type e = T_ZSET \<and> val_of (zm s) (ent s a) (zt a) = KZSet (zabs (zm s) (zt a)) \<and>
       zset_ok (zm s) (e_zset e) (zt a))"
  using kv_invD(4,5,6) [OF assms(1), of a] assms(2) by (auto simp: val_of_def)

lemma do_get_ok:
  assumes inv: "kv_inv s D zt" and abs: "kv_abs s D zt A"
  shows "cmd_ok now A [cstr ''get'', k] out (do_get s [cstr ''get'', k] out)"
proof -
  from db_lookup_ok [OF inv abs, of k] obtain r h m where
    l: "db_lookup s k = Some (r, s\<lparr>enode := h, db := m\<rparr>)" "kv_inv (s\<lparr>enode := h, db := m\<rparr>) D zt"
      "r = None \<longrightarrow> A k = None"
      "\<forall>a. r = Some a \<longrightarrow> a \<in> D \<and> e_key (ent s a) = k \<and>
         A k = Some (val_of (zm s) (ent s a) (zt a), ttl_of (theap s) a)" .
  let ?s = "s\<lparr>enode := h, db := m\<rparr>"
  have abs': "kv_abs ?s D zt A" using abs by simp
  show ?thesis
  proof (cases r)
    case None
    then have "do_get s [cstr ''get'', k] out = Some (?s, out @ encode VNil)"
      using l(1) by (simp add: do_get_def out_encode)
    then show ?thesis by (rule cmd_okI [OF _ get_none [where A = A, OF mp [OF l(3) None]] l(2) abs'])
  next
    case (Some a)
    note A = mp [OF spec [OF l(4), of a] Some]
    from val_of_cases [OF inv, of a] A consider
      e where "ents s a = Some e" "e_type e = T_STR" "A k = Some (KStr (e_str e), ttl_of (theap s) a)"
    | e where "ents s a = Some e" "e_type e = T_ZSET" "A k = Some (KZSet (zabs (zm s) (zt a)), ttl_of (theap s) a)"
      by auto
    then show ?thesis
    proof cases
      case 1
      then have "do_get s [cstr ''get'', k] out = Some (?s, out @ encode (VStr (e_str e)))"
        using l(1) Some by (simp add: do_get_def out_encode)
      then show ?thesis by (rule cmd_okI [OF _ get_str [where A = A, OF 1(3)] l(2) abs'])
    next
      case 2
      then have "do_get s [cstr ''get'', k] out = Some (?s, out @ encode (wrong_type ''not a string value''))"
        using l(1) Some by (simp add: do_get_def out_encode)
      then show ?thesis by (rule cmd_okI [OF _ get_type [where A = A, OF 2(3)] l(2) abs'])
    qed
  qed
qed

lemma dom_card: "kv_inv s D zt \<Longrightarrow> kv_abs s D zt A \<Longrightarrow> card (dom A) = card D"
  using kv_invD(2) [of s D zt] by (simp add: kv_abs_def card_image)

lemma do_set_ok:
  assumes inv: "kv_inv s D zt" and abs: "kv_abs s D zt A" and room: "kv_room A"
  shows "cmd_ok now A [cstr ''set'', k, v] out (do_set s [cstr ''set'', k, v] out)"
proof -
  from db_lookup_ok [OF inv abs, of k] obtain r h m where
    l: "db_lookup s k = Some (r, s\<lparr>enode := h, db := m\<rparr>)" "kv_inv (s\<lparr>enode := h, db := m\<rparr>) D zt"
      "r = None \<longrightarrow> A k = None"
      "\<forall>a. r = Some a \<longrightarrow> a \<in> D \<and> e_key (ent s a) = k \<and>
         A k = Some (val_of (zm s) (ent s a) (zt a), ttl_of (theap s) a)" .
  let ?s = "s\<lparr>enode := h, db := m\<rparr>"
  have abs': "kv_abs ?s D zt A" using abs by simp
  show ?thesis
  proof (cases r)
    case None
    note k = mp [OF l(3) None]
    have sz: "card D + 1 < 2 ^ 56" using room dom_card [OF inv abs] by (simp add: kv_room_def)
    from db_insert_new_ok [OF l(2) abs' k _ sz, of T_STR v] obtain a s' where
      n: "db_insert_new ?s T_STR k v = Some (a, s')" "kv_inv s' (insert a D) (zt(a := Leaf))"
        "kv_abs s' (insert a D) (zt(a := Leaf)) (A(k \<mapsto> (if T_STR = T_STR then KStr v else KZSet Map.empty, None)))"
        "ents s' a = Some \<lparr>e_key = k, e_type = T_STR, e_str = v, e_zset = empty_zset\<rparr>" "zm s' = zm ?s"
        "ttl_of (theap s') a = None" by blast
    have n3: "kv_abs s' (insert a D) (zt(a := Leaf)) (A(k \<mapsto> (KStr v, None)))" using n(3) by simp
    have "do_set s [cstr ''set'', k, v] out = Some (s', out @ encode VNil)"
      using l(1) None n(1) by (simp add: do_set_def out_encode)
    then show ?thesis by (rule cmd_okI [OF _ set_new [where A = A, OF k] n(2) n3])
  next
    case (Some a)
    note A = mp [OF spec [OF l(4), of a] Some]
    from val_of_cases [OF inv, of a] A consider
      e where "ents s a = Some e" "e_type e = T_STR" "A k = Some (KStr (e_str e), ttl_of (theap s) a)"
    | e where "ents s a = Some e" "e_type e = T_ZSET" "A k = Some (KZSet (zabs (zm s) (zt a)), ttl_of (theap s) a)"
      by auto
    then show ?thesis
    proof cases
      case 1
      have e: "ents ?s a = Some e" "a \<in> D" using 1 A by auto
      have k: "e_key e = k" using A 1(1) by simp
      have run: "do_set s [cstr ''set'', k, v] out =
          Some (?s\<lparr>ents := (ents ?s)(a \<mapsto> e\<lparr>e_str := v\<rparr>)\<rparr>, out @ encode VNil)"
        using l(1) Some 1 by (simp add: do_set_def out_encode)
      have "kv_abs (?s\<lparr>ents := (ents ?s)(a \<mapsto> e\<lparr>e_str := v\<rparr>)\<rparr>) D zt (A(k \<mapsto> (KStr v, ttl_of (theap s) a)))"
        using kv_str_ok(2) [OF l(2) abs' e(2,1) 1(2), of v] k by simp
      then show ?thesis
        by (rule cmd_okI [OF run set_str [where A = A, OF 1(3)] kv_str_ok(1) [OF l(2) abs' e(2,1) 1(2)]])
    next
      case 2
      then have "do_set s [cstr ''set'', k, v] out = Some (?s, out @ encode (wrong_type ''a non-string value exists''))"
        using l(1) Some by (simp add: do_set_def out_encode)
      then show ?thesis by (rule cmd_okI [OF _ set_type [where A = A, OF 2(3)] l(2) abs'])
    qed
  qed
qed

lemma do_del_ok:
  assumes inv: "kv_inv s D zt" and abs: "kv_abs s D zt A"
  shows "cmd_ok now A [cstr ''del'', k] out (do_del now s [cstr ''del'', k] out)"
proof -
  note I = kv_invD [OF inv]
  from hm.keyed_delete [where hash = str_hash and k = k, OF I(1) _ I(2) entry_eq_key [OF inv]] obtain r h m where
    r: "hm_delete (enode s) (db s) (str_hash k) (entry_eq s k) = Some (r, h, m)"
      "hmap_set h (\<lambda>a. str_hash (e_key (ent s a))) m {a \<in> D. e_key (ent s a) \<noteq> k}"
      "\<forall>a. r = Some a \<longleftrightarrow> a \<in> D \<and> e_key (ent s a) = k" by auto
  show ?thesis
  proof (cases r)
    case None
    then have no: "\<forall>a \<in> D. e_key (ent s a) \<noteq> k" using r(3) by auto
    then have k: "A k = None" using kv_absD(2) [OF abs] by simp
    have "{a \<in> D. e_key (ent s a) \<noteq> k} = D" using no by auto
    then have inv': "kv_inv (s\<lparr>enode := h, db := m\<rparr>) D zt" using kv_inv_rehash [OF inv] r(2) by simp
    have run: "do_del now s [cstr ''del'', k] out = Some (s\<lparr>enode := h, db := m\<rparr>, out @ encode (VInt 0))"
      using r(1) None by (simp add: do_del_def out_encode)
    have "A(k := None) = A" using k by auto
    then have "kv_step now A [cstr ''del'', k] (VInt 0) A" using kv_step.del [of now A k] k by simp
    then show ?thesis using cmd_okI [OF run _ inv'] abs by simp
  next
    case (Some a)
    then have a: "a \<in> D" "k = e_key (ent s a)" using iffD1 [OF spec [OF r(3), of a]] by auto
    have "{b \<in> D. e_key (ent s b) \<noteq> k} = D - {a}" using I(2) a by (auto simp: inj_on_def)
    with r(2) have rep: "hmap_set h (\<lambda>a. str_hash (e_key (ent s a))) m (D - {a})" by simp
    from kv_unlink_ok [OF inv abs a rep, of now] obtain s' where
      u: "entry_del now (s\<lparr>enode := h, db := m\<rparr>) a = Some s'" "kv_inv s' (D - {a}) zt"
        "kv_abs s' (D - {a}) zt (A(k := None))" "\<forall>b \<in> D - {a}. ents s' b = ents s b"
        "\<forall>b. b \<noteq> a \<longrightarrow> ttl_of (theap s') b = ttl_of (theap s) b" "ttl_of (theap s') a = None" .
    have run: "do_del now s [cstr ''del'', k] out = Some (s', out @ encode (VInt 1))"
      using r(1) Some u(1) by (simp add: do_del_def out_encode)
    obtain y where "A k = Some y" using kv_absD(1) [OF abs a(1)] a(2) by simp
    then have "kv_step now A [cstr ''del'', k] (VInt 1) (A(k := None))" using kv_step.del [of now A k] by simp
    then show ?thesis by (rule cmd_okI [OF run _ u(2,3)])
  qed
qed

lemma ucast_card: "n < 2 ^ 64 \<Longrightarrow> ucast (of_nat n :: u64) = (of_nat n :: u32)"
  by (simp add: unsigned_of_nat take_bit_nat_eq_self)

lemma do_keys_ok:
  assumes inv: "kv_inv s D zt" and abs: "kv_abs s D zt A"
  shows "cmd_ok now A [cstr ''keys''] out (do_keys s [cstr ''keys''] out)"
proof -
  note I = kv_invD [OF inv]
  from hmap_set_foreach [OF I(1)] obtain xs where xs: "set xs = D" "distinct xs"
    "\<forall>f (b :: bytes). hm_foreach (enode s) (db s) f b = do { (go, b) \<leftarrow> visit f xs b; Some b }" by blast
  define ks where "ks = map (\<lambda>a. e_key (ent s a)) xs"
  have v: "visit (cb_keys s) ys b = Some (True, b @ concat (map encode (map (\<lambda>a. VStr (e_key (ent s a))) ys)))"
    if "set ys \<subseteq> D" for ys b
    using that
  proof (induction ys arbitrary: b)
    case (Cons y ys)
    then obtain e where "ents s y = Some e" using I(4) [of y] by auto
    then have "cb_keys s y b = Some (True, b @ encode (VStr (e_key (ent s y))))"
      by (simp add: cb_keys_def out_encode)
    then show ?case using Cons by simp
  qed simp
  have size: "ucast (hm_size (db s)) = (of_nat (length (map VStr ks)) :: u32)"
    using hm.size_law [OF I(1)] I(8) distinct_card [OF xs(2)] xs(1) by (simp add: ucast_card ks_def)
  have "do_keys s [cstr ''keys''] out = Some (s, out @ encode (VArr (map VStr ks)))"
  proof -
    have "hm_foreach (enode s) (db s) (cb_keys s) b = Some (b @ concat (map encode (map VStr ks)))" for b
      using v [of xs b] xs(1,3) by (simp add: ks_def comp_def)
    then show ?thesis unfolding do_keys_def size Let_def by (simp only: out_arr_encode bind.bind_lunit)
  qed
  moreover have "set ks = dom A" "distinct ks"
    using abs xs(1,2) I(2) by (simp_all add: ks_def kv_abs_def distinct_map)
  then have "kv_step now A [cstr ''keys''] (VArr (map VStr ks)) A" by (rule keys)
  ultimately show ?thesis using cmd_okI [OF _ _ inv abs] by blast
qed

lemma db_typed_lookup:
  assumes inv: "kv_inv s D zt" and abs: "kv_abs s D zt A"
  obtains r h m where
    "db_lookup s k = Some (r, s\<lparr>enode := h, db := m\<rparr>)" "kv_inv (s\<lparr>enode := h, db := m\<rparr>) D zt"
    "kv_abs (s\<lparr>enode := h, db := m\<rparr>) D zt A"
    "case r of None \<Rightarrow> A k = None
     | Some a \<Rightarrow> a \<in> D \<and> (\<exists>e. ents s a = Some e \<and> e_key e = k \<and>
        (e_type e = T_STR \<and> A k = Some (KStr (e_str e), ttl_of (theap s) a) \<or>
         e_type e = T_ZSET \<and> A k = Some (KZSet (zabs (zm s) (zt a)), ttl_of (theap s) a) \<and>
           zset_ok (zm s) (e_zset e) (zt a)))"
proof -
  from db_lookup_ok [OF inv abs, of k] obtain r h m where
    l: "db_lookup s k = Some (r, s\<lparr>enode := h, db := m\<rparr>)" "kv_inv (s\<lparr>enode := h, db := m\<rparr>) D zt"
      "r = None \<longrightarrow> A k = None"
      "\<forall>a. r = Some a \<longrightarrow> a \<in> D \<and> e_key (ent s a) = k \<and>
         A k = Some (val_of (zm s) (ent s a) (zt a), ttl_of (theap s) a)" .
  have "case r of None \<Rightarrow> A k = None
     | Some a \<Rightarrow> a \<in> D \<and> (\<exists>e. ents s a = Some e \<and> e_key e = k \<and>
        (e_type e = T_STR \<and> A k = Some (KStr (e_str e), ttl_of (theap s) a) \<or>
         e_type e = T_ZSET \<and> A k = Some (KZSet (zabs (zm s) (zt a)), ttl_of (theap s) a) \<and>
           zset_ok (zm s) (e_zset e) (zt a)))"
  proof (cases r)
    case (Some a)
    note A = mp [OF spec [OF l(4), of a] Some]
    from val_of_cases [OF inv, of a] A show ?thesis unfolding Some by auto
  qed (use l(3) in simp)
  then show thesis using that [OF l(1,2)] abs by simp
qed

lemma dom_zabs: "dom (zabs m t) = nname m ` set_tree t"
  by (auto simp: zabs_def dom_map_of_conv_image_fst image_image)

lemma zabs_card: "zset_ok m z t \<Longrightarrow> card (dom (zabs m t)) = size t"
proof -
  assume z: "zset_ok m z t"
  have "card (dom (zabs m t)) = card (set_tree t)" using zset_okD(5) [OF z] by (simp add: dom_zabs card_image)
  also have "\<dots> = size t"
    using distinct_card [OF avl_treeD(4) [OF zset_okD(2) [OF z]]] by simp
  finally show ?thesis .
qed

lemma do_zadd_new:
  assumes inv: "kv_inv s D zt" and abs: "kv_abs s D zt A" and room: "kv_room A"
    and sc: "str2dbl sc = Some score" and l: "db_lookup s0 k = Some (None, s)" and k: "A k = None"
  shows "cmd_ok now A [cstr ''zadd'', k, sc, n] out (do_zadd s0 [cstr ''zadd'', k, sc, n] out)"
proof -
  note nan = str2dbl_not_nan [OF sc]
  have sz: "card D + 1 < 2 ^ 56" using room dom_card [OF inv abs] by (simp add: kv_room_def)
  from db_insert_new_ok [OF inv abs k _ sz, of T_ZSET "[]"] obtain a s' where
    new: "db_insert_new s T_ZSET k [] = Some (a, s')" "kv_inv s' (insert a D) (zt(a := Leaf))"
      "kv_abs s' (insert a D) (zt(a := Leaf)) (A(k \<mapsto> (if T_ZSET = T_STR then KStr [] else KZSet Map.empty, None)))"
      "ents s' a = Some \<lparr>e_key = k, e_type = T_ZSET, e_str = [], e_zset = empty_zset\<rparr>" "zm s' = zm s"
      "ttl_of (theap s') a = None" by blast
  let ?e = "\<lparr>e_key = k, e_type = T_ZSET, e_str = [], e_zset = empty_zset\<rparr>"
  from zset_insert_ok [OF zset_ok_empty nan, of "zm s'" n] obtain m' z' t' where
    i: "zset_insert (zm s') empty_zset n score = Some (zabs (zm s') Leaf n = None, m', z')" "zset_ok m' z' t'"
      "zabs m' t' = (zabs (zm s') Leaf)(n \<mapsto> new_score (zabs (zm s') Leaf) n score)"
      "zframe (set_tree Leaf) (zm s') m'"
      "set_tree t' = (if zabs (zm s') Leaf n = None then insert (zbrk (zm s')) (set_tree Leaf) else set_tree Leaf)"
    by auto
  have zl: "zabs (zm s') Leaf = Map.empty" by (simp add: zabs_def)
  let ?u = "s'\<lparr>zm := m', ents := (ents s')(a \<mapsto> ?e\<lparr>e_zset := z'\<rparr>)\<rparr>"
  have run: "do_zadd s0 [cstr ''zadd'', k, sc, n] out = Some (?u, out @ encode (VInt 1))"
    using l sc new(1,4) i(1) zl by (simp add: do_zadd_def out_encode)
  have fr: "zframe (set_tree ((zt(a := Leaf)) a)) (zm s') m'" using i(4) by simp
  have fresh: "\<forall>x \<in> set_tree t'. x \<in> set_tree ((zt(a := Leaf)) a) \<or> zbrk (zm s') \<le> x" using i(5) by auto
  have ty: "e_type ?e = T_ZSET" by simp
  note Z = kv_zset_ok [OF new(2,3) insertI1 new(4) ty i(2) fr fresh]
  have "kv_abs ?u (insert a D) ((zt(a := Leaf))(a := t')) (A(k \<mapsto> (KZSet [n \<mapsto> score], None)))"
  proof -
    have eq: "(A(k \<mapsto> (if T_ZSET = T_STR then KStr [] else KZSet Map.empty, None)))(e_key ?e \<mapsto> (KZSet (zabs m' t'), ttl_of (theap s') a)) = A(k \<mapsto> (KZSet [n \<mapsto> score], None))"
      using new(6) i(3) zl by (simp add: new_score_def)
    show ?thesis using Z(2) unfolding eq .
  qed
  then show ?thesis by (rule cmd_okI [OF run zadd_new [where A = A, OF sc k] Z(1)])
qed

lemma do_zadd_old:
  assumes inv: "kv_inv s D zt" and abs: "kv_abs s D zt A" and room: "kv_room A"
    and sc: "str2dbl sc = Some score" and l: "db_lookup s0 k = Some (Some a, s)"
    and a: "a \<in> D" "ents s a = Some e" "e_key e = k" "e_type e = T_ZSET"
    and ak: "A k = Some (KZSet (zabs (zm s) (zt a)), ttl_of (theap s) a)" and z: "zset_ok (zm s) (e_zset e) (zt a)"
  shows "cmd_ok now A [cstr ''zadd'', k, sc, n] out (do_zadd s0 [cstr ''zadd'', k, sc, n] out)"
proof -
  note nan = str2dbl_not_nan [OF sc]
  have "card (dom (zabs (zm s) (zt a))) + 1 < 2 ^ 31" using room ak unfolding kv_room_def by blast
  then have sz: "size (zt a) + 1 < 2 ^ 31" using zabs_card [OF z] by simp
  from zset_insert_ok [OF z nan sz, of n] obtain m' z' t' where
    i: "zset_insert (zm s) (e_zset e) n score = Some (zabs (zm s) (zt a) n = None, m', z')" "zset_ok m' z' t'"
      "zabs m' t' = (zabs (zm s) (zt a))(n \<mapsto> new_score (zabs (zm s) (zt a)) n score)"
      "zframe (set_tree (zt a)) (zm s) m'"
      "set_tree t' = (if zabs (zm s) (zt a) n = None then insert (zbrk (zm s)) (set_tree (zt a)) else set_tree (zt a))" .
  let ?u = "s\<lparr>zm := m', ents := (ents s)(a \<mapsto> e\<lparr>e_zset := z'\<rparr>)\<rparr>"
  have run: "do_zadd s0 [cstr ''zadd'', k, sc, n] out =
      Some (?u, out @ encode (VInt (if zabs (zm s) (zt a) n = None then 1 else 0)))"
    using l sc a i(1) by (simp add: do_zadd_def out_encode)
  have fr: "zframe (set_tree (zt a)) (zm s) m'" using i(4) by simp
  have fresh: "\<forall>x \<in> set_tree t'. x \<in> set_tree (zt a) \<or> zbrk (zm s) \<le> x" using i(5) by auto
  note Z = kv_zset_ok [OF inv abs a(1) a(2) a(4) i(2) fr fresh]
  have "kv_abs ?u D (zt(a := t')) (A(k \<mapsto>
      (KZSet ((zabs (zm s) (zt a))(n \<mapsto> new_score (zabs (zm s) (zt a)) n score)), ttl_of (theap s) a)))"
    using Z(2) a(3) i(3) by simp
  then show ?thesis by (rule cmd_okI [OF run zadd_old [where A = A, OF sc ak] Z(1)])
qed

lemma do_zadd_ok:
  assumes inv: "kv_inv s D zt" and abs: "kv_abs s D zt A" and room: "kv_room A"
  shows "cmd_ok now A [cstr ''zadd'', k, sc, n] out (do_zadd s [cstr ''zadd'', k, sc, n] out)"
proof (cases "str2dbl sc")
  case None
  then have "do_zadd s [cstr ''zadd'', k, sc, n] out = Some (s, out @ encode (wrong_arg ''expect float''))"
    by (simp add: do_zadd_def out_encode)
  then show ?thesis by (rule cmd_okI [OF _ zadd_arg [where A = A, OF None] inv abs])
next
  case (Some score)
  from db_typed_lookup [OF inv abs, of k] obtain r h m where
    l: "db_lookup s k = Some (r, s\<lparr>enode := h, db := m\<rparr>)" "kv_inv (s\<lparr>enode := h, db := m\<rparr>) D zt"
      "kv_abs (s\<lparr>enode := h, db := m\<rparr>) D zt A"
      "case r of None \<Rightarrow> A k = None
       | Some a \<Rightarrow> a \<in> D \<and> (\<exists>e. ents s a = Some e \<and> e_key e = k \<and>
          (e_type e = T_STR \<and> A k = Some (KStr (e_str e), ttl_of (theap s) a) \<or>
           e_type e = T_ZSET \<and> A k = Some (KZSet (zabs (zm s) (zt a)), ttl_of (theap s) a) \<and>
             zset_ok (zm s) (e_zset e) (zt a)))" .
  let ?s = "s\<lparr>enode := h, db := m\<rparr>"
  show ?thesis
  proof (cases r)
    case r: None
    then have k: "A k = None" "db_lookup s k = Some (None, ?s)" using l(1,4) by simp_all
    show ?thesis by (rule do_zadd_new [OF l(2,3) room Some k(2,1)])
  next
    case r: (Some a)
    then obtain e where a: "a \<in> D" "ents s a = Some e" "e_key e = k" and
      "e_type e = T_STR \<and> A k = Some (KStr (e_str e), ttl_of (theap s) a) \<or>
       e_type e = T_ZSET \<and> A k = Some (KZSet (zabs (zm s) (zt a)), ttl_of (theap s) a) \<and>
         zset_ok (zm s) (e_zset e) (zt a)" using l(4) by auto
    then consider "e_type e = T_STR" "A k = Some (KStr (e_str e), ttl_of (theap s) a)"
      | "e_type e = T_ZSET" "A k = Some (KZSet (zabs (zm s) (zt a)), ttl_of (theap s) a)"
         "zset_ok (zm s) (e_zset e) (zt a)" by blast
    then show ?thesis
    proof cases
      case 1
      then have "do_zadd s [cstr ''zadd'', k, sc, n] out = Some (?s, out @ encode (wrong_type ''expect zset''))"
        using l(1) r Some a by (simp add: do_zadd_def out_encode)
      then show ?thesis by (rule cmd_okI [OF _ zadd_type [where A = A, OF Some 1(2)] l(2,3)])
    next
      case 2
      then show ?thesis
        using do_zadd_old [where k = k and a = a and e = e, OF l(2,3) room Some] l(1) r a by simp
    qed
  qed
qed

lemma expect_zset_ok:
  assumes inv: "kv_inv s D zt" and abs: "kv_abs s D zt A"
  obtains zr h m where
    "expect_zset s k = Some (zr, s\<lparr>enode := h, db := m\<rparr>)" "kv_inv (s\<lparr>enode := h, db := m\<rparr>) D zt"
    "kv_abs (s\<lparr>enode := h, db := m\<rparr>) D zt A"
    "case zr of ZNull \<Rightarrow> zset_of A k = None
     | ZEmpty \<Rightarrow> A k = None \<and> zset_of A k = Some Map.empty
     | ZOf a \<Rightarrow> a \<in> D \<and> (\<exists>e. ents s a = Some e \<and> e_key e = k \<and> e_type e = T_ZSET \<and>
         A k = Some (KZSet (zabs (zm s) (zt a)), ttl_of (theap s) a) \<and>
         zset_of A k = Some (zabs (zm s) (zt a)) \<and> zset_ok (zm s) (e_zset e) (zt a))"
proof -
  from db_typed_lookup [OF inv abs, of k] obtain r h m where
    l: "db_lookup s k = Some (r, s\<lparr>enode := h, db := m\<rparr>)" "kv_inv (s\<lparr>enode := h, db := m\<rparr>) D zt"
      "kv_abs (s\<lparr>enode := h, db := m\<rparr>) D zt A"
      "case r of None \<Rightarrow> A k = None
       | Some a \<Rightarrow> a \<in> D \<and> (\<exists>e. ents s a = Some e \<and> e_key e = k \<and>
          (e_type e = T_STR \<and> A k = Some (KStr (e_str e), ttl_of (theap s) a) \<or>
           e_type e = T_ZSET \<and> A k = Some (KZSet (zabs (zm s) (zt a)), ttl_of (theap s) a) \<and>
             zset_ok (zm s) (e_zset e) (zt a)))" .
  show thesis
  proof (cases r)
    case None
    then show thesis using that [of ZEmpty m h] l by (simp add: expect_zset_def zset_of_def)
  next
    case (Some a)
    then obtain e where e: "a \<in> D" "ents s a = Some e" "e_key e = k"
      "e_type e = T_STR \<and> A k = Some (KStr (e_str e), ttl_of (theap s) a) \<or>
       e_type e = T_ZSET \<and> A k = Some (KZSet (zabs (zm s) (zt a)), ttl_of (theap s) a) \<and>
         zset_ok (zm s) (e_zset e) (zt a)" using l(4) by auto
    then show thesis
      using that [of ZNull m h] that [of "ZOf a" m h] l Some
      by (cases "e_type e = T_ZSET") (auto simp: expect_zset_def zset_of_def)
  qed
qed

lemma zset_lookup_empty: "zset_lookup m empty_zset n = Some (NULL, m, empty_zset)"
  by (simp add: zset_lookup_def empty_zset_def)

lemma kvs_zm_self [simp]: "s\<lparr>zm := zm s\<rparr> = s"
  by simp

lemma do_zrem_ok:
  assumes inv: "kv_inv s D zt" and abs: "kv_abs s D zt A"
  shows "cmd_ok now A [cstr ''zrem'', k, n] out (do_zrem s [cstr ''zrem'', k, n] out)"
proof -
  from expect_zset_ok [OF inv abs, of k] obtain zr h m where
    l: "expect_zset s k = Some (zr, s\<lparr>enode := h, db := m\<rparr>)" "kv_inv (s\<lparr>enode := h, db := m\<rparr>) D zt"
      "kv_abs (s\<lparr>enode := h, db := m\<rparr>) D zt A"
      "case zr of ZNull \<Rightarrow> zset_of A k = None
       | ZEmpty \<Rightarrow> A k = None \<and> zset_of A k = Some Map.empty
       | ZOf a \<Rightarrow> a \<in> D \<and> (\<exists>e. ents s a = Some e \<and> e_key e = k \<and> e_type e = T_ZSET \<and>
           A k = Some (KZSet (zabs (zm s) (zt a)), ttl_of (theap s) a) \<and>
           zset_of A k = Some (zabs (zm s) (zt a)) \<and> zset_ok (zm s) (e_zset e) (zt a))" .
  let ?s = "s\<lparr>enode := h, db := m\<rparr>"
  show ?thesis
  proof (cases zr)
    case ZNull
    then have "do_zrem s [cstr ''zrem'', k, n] out = Some (?s, out @ encode (wrong_type ''expect zset''))"
      using l(1) by (simp add: do_zrem_def out_encode)
    moreover have "zset_of A k = None" using l(4) ZNull by simp
    ultimately show ?thesis using cmd_okI [OF _ zrem_type [where A = A] l(2,3)] by blast
  next
    case ZEmpty
    then have k: "A k = None" "zset_of A k = Some Map.empty" using l(4) by simp_all
    have run: "do_zrem s [cstr ''zrem'', k, n] out = Some (?s, out @ encode (VInt 0))"
      using l(1) ZEmpty by (simp add: do_zrem_def out_encode zref_get_def zref_put_def zset_lookup_empty)
    have "kv_step now A [cstr ''zrem'', k, n] (VInt 0) A"
      using zrem [where A = A, OF k(2), of now n] k(1) by (simp add: put_zset_def)
    then show ?thesis by (rule cmd_okI [OF run _ l(2,3)])
  next
    case (ZOf a)
    then obtain e where a: "a \<in> D" "ents s a = Some e" "e_key e = k" "e_type e = T_ZSET"
      "A k = Some (KZSet (zabs (zm s) (zt a)), ttl_of (theap s) a)"
      "zset_of A k = Some (zabs (zm s) (zt a))" "zset_ok (zm s) (e_zset e) (zt a)" using l(4) by auto
    have e: "ents ?s a = Some e" using a by simp
    let ?Z = "zabs (zm s) (zt a)"
    from zs.remove [OF a(7), of n] obtain r m1 z1 m2 z2 t2 where
      r: "zset_lookup (zm s) (e_zset e) n = Some (r, m1, z1)" and
      d: "(case r of None \<Rightarrow> Some (m1, z1) | Some a \<Rightarrow> zset_delete m1 z1 a) = Some (m2, z2)"
        "zset_ok m2 z2 t2" "set_tree t2 \<subseteq> set_tree (zt a)" "zabs m2 t2 = ?Z(n := None)"
        "zframe (set_tree (zt a)) (zm s) m2" and none: "r = None \<longleftrightarrow> ?Z n = None" .
    let ?u = "?s\<lparr>zm := m2, ents := (ents ?s)(a \<mapsto> e\<lparr>e_zset := z2\<rparr>)\<rparr>"
    have "do_zrem s [cstr ''zrem'', k, n] out = Some (?u, out_int out (if r \<noteq> NULL then 1 else 0))"
      using l(1) ZOf a(2) r d(1) by (simp add: do_zrem_def zref_get_def zref_put_def)
    then have run: "do_zrem s [cstr ''zrem'', k, n] out = Some (?u, out @ encode (VInt (if ?Z n = None then 0 else 1)))"
      using none by (simp add: out_encode)
    have fr: "zframe (set_tree (zt a)) (zm ?s) m2" using d(5) by simp
    have fresh: "\<forall>x \<in> set_tree t2. x \<in> set_tree (zt a) \<or> zbrk (zm ?s) \<le> x" using d(3) by auto
    note Z = kv_zset_ok [OF l(2,3) a(1) e a(4) d(2) fr fresh]
    have "kv_abs ?u D (zt(a := t2)) (put_zset A k (?Z(n := None)))"
      using Z(2) a(3,5) d(4) by (simp add: put_zset_def)
    then show ?thesis by (rule cmd_okI [OF run zrem [where A = A, OF a(6)] Z(1)])
  qed
qed

lemma do_zscore_ok:
  assumes inv: "kv_inv s D zt" and abs: "kv_abs s D zt A"
  shows "cmd_ok now A [cstr ''zscore'', k, n] out (do_zscore s [cstr ''zscore'', k, n] out)"
proof -
  from expect_zset_ok [OF inv abs, of k] obtain zr h m where
    l: "expect_zset s k = Some (zr, s\<lparr>enode := h, db := m\<rparr>)" "kv_inv (s\<lparr>enode := h, db := m\<rparr>) D zt"
      "kv_abs (s\<lparr>enode := h, db := m\<rparr>) D zt A"
      "case zr of ZNull \<Rightarrow> zset_of A k = None
       | ZEmpty \<Rightarrow> A k = None \<and> zset_of A k = Some Map.empty
       | ZOf a \<Rightarrow> a \<in> D \<and> (\<exists>e. ents s a = Some e \<and> e_key e = k \<and> e_type e = T_ZSET \<and>
           A k = Some (KZSet (zabs (zm s) (zt a)), ttl_of (theap s) a) \<and>
           zset_of A k = Some (zabs (zm s) (zt a)) \<and> zset_ok (zm s) (e_zset e) (zt a))" .
  let ?s = "s\<lparr>enode := h, db := m\<rparr>"
  show ?thesis
  proof (cases zr)
    case ZNull
    then have "do_zscore s [cstr ''zscore'', k, n] out = Some (?s, out @ encode (wrong_type ''expect zset''))"
      using l(1) by (simp add: do_zscore_def out_encode)
    moreover have "zset_of A k = None" using l(4) ZNull by simp
    ultimately show ?thesis using cmd_okI [OF _ zscore_type [where A = A] l(2,3)] by blast
  next
    case ZEmpty
    then have k: "A k = None" "zset_of A k = Some Map.empty" using l(4) by simp_all
    have run: "do_zscore s [cstr ''zscore'', k, n] out = Some (?s, out @ encode VNil)"
      using l(1) ZEmpty by (simp add: do_zscore_def out_encode zref_get_def zref_put_def zset_lookup_empty)
    have "kv_step now A [cstr ''zscore'', k, n] VNil A" using zscore [where A = A, OF k(2), of now n] by simp
    then show ?thesis by (rule cmd_okI [OF run _ l(2,3)])
  next
    case (ZOf a)
    then obtain e where a: "a \<in> D" "ents s a = Some e" "e_key e = k" "e_type e = T_ZSET"
      "A k = Some (KZSet (zabs (zm s) (zt a)), ttl_of (theap s) a)"
      "zset_of A k = Some (zabs (zm s) (zt a))" "zset_ok (zm s) (e_zset e) (zt a)" using l(4) by auto
    have e: "ents ?s a = Some e" using a by simp
    let ?Z = "zabs (zm s) (zt a)"
    from zs.find [OF a(7), of n] obtain r m1 z1 where
      r: "zset_lookup (zm s) (e_zset e) n = Some (r, m1, z1)" "zset_ok m1 z1 (zt a)" "zabs m1 (zt a) = ?Z"
        "zframe (set_tree (zt a)) (zm s) m1" "r = None \<longleftrightarrow> ?Z n = None"
        "\<forall>x. r = Some x \<longrightarrow> x \<in> set_tree (zt a) \<and> nname m1 x = n \<and> map_option zscore (zdata m1 x) = ?Z n" .
    let ?u = "?s\<lparr>zm := m1, ents := (ents ?s)(a \<mapsto> e\<lparr>e_zset := z1\<rparr>)\<rparr>"
    have run: "do_zscore s [cstr ''zscore'', k, n] out =
        Some (?u, out @ encode (case ?Z n of None \<Rightarrow> VNil | Some sc \<Rightarrow> VDbl sc))"
    proof (cases r)
      case None
      then show ?thesis using l(1) ZOf a(2) r(1,5)
        by (simp add: do_zscore_def zref_get_def zref_put_def out_encode)
    next
      case (Some x)
      then obtain p where "zdata m1 x = Some p" "?Z n = Some (zscore p)" using r(5,6) by (cases "zdata m1 x") auto
      then show ?thesis using Some l(1) ZOf a(2) r(1)
        by (simp add: do_zscore_def zref_get_def zref_put_def out_encode)
    qed
    have fr: "zframe (set_tree (zt a)) (zm ?s) m1" using r(4) by simp
    have fresh: "\<forall>x \<in> set_tree (zt a). x \<in> set_tree (zt a) \<or> zbrk (zm ?s) \<le> x" by simp
    note Z = kv_zset_ok [OF l(2,3) a(1) e a(4) r(2) fr fresh]
    have "A(k \<mapsto> (KZSet ?Z, ttl_of (theap s) a)) = A" using a(5) by auto
    then have "kv_abs ?u D (zt(a := zt a)) A" using Z(2) a(3) r(3) by simp
    then show ?thesis by (rule cmd_okI [OF run zscore [where A = A, OF a(6)] Z(1)])
  qed
qed

subsection \<open>Queries\<close>

definition pairs_of :: "zmem \<Rightarrow> addr tree \<Rightarrow> (bytes \<times> u64) list" where
  "pairs_of m t = map (\<lambda>a. (nname m a, zscore (zpay m a))) (inorder t)"

lemma pairs_sorted: "zset_ok m z t \<Longrightarrow> zsorted (zabs m t) (pairs_of m t)"
proof -
  assume z: "zset_ok m z t"
  have "sorted_wrt (\<lambda>a b. nkey m a < nkey m b) (inorder t)" using zset_okD(3) [OF z] by (simp add: ordered_def)
  then have "sorted_wrt (\<lambda>(m, s) (n, t). ZKey (dbl_key s) m < ZKey (dbl_key t) n) (pairs_of m t)"
    by (simp add: pairs_of_def sorted_wrt_map zkey_of_def)
  moreover have "distinct (map fst (pairs_of m t))"
    using zset_okD(5) [OF z] avl_treeD(4) [OF zset_okD(2) [OF z]]
    by (simp add: pairs_of_def comp_def distinct_map)
  ultimately show ?thesis by (simp add: zsorted_def zabs_def pairs_of_def)
qed

lemma pairs_rank:
  "length (takeWhile (\<lambda>(n, s). ZKey (dbl_key s) n < ZKey (dbl_key score) name) (pairs_of m t)) =
     zrank m t score name"
  by (simp add: pairs_of_def zrank_def takeWhile_map comp_def zkey_of_def)

lemma zquery_loop_ok:
  assumes z: "zset_ok m z t" and "i \<le> size t" "n + 2 * int (size t - i) < 2 ^ 62" "0 \<le> n"
  shows "zquery_loop m limit (nth_ptr (inorder t) (int i)) n out =
    (let ps = take (nat ((sint limit - n + 1) div 2)) (drop i (pairs_of m t))
     in Some (n + 2 * int (length ps), out @ concat (map (\<lambda>(n, s). encode (VStr n) @ encode (VDbl s)) ps)))"
  using assms(2-4)
proof (induction "size t - i" arbitrary: i n out)
  case 0
  then have "i = size t" by simp
  then show ?case by (simp add: zquery_loop.simps nth_ptr_def pairs_of_def)
next
  case (Suc j)
  then have i: "i < size t" by simp
  then have p: "nth_ptr (inorder t) (int i) = Some (inorder t ! i)" by (simp add: nth_ptr_def)
  let ?a = "inorder t ! i"
  have "?a \<in> set_tree t" using i by (metis length_inorder nth_mem set_inorder)
  then have a: "zdata m ?a = Some (zpay m ?a)" using znode_okD [OF zset_okD(6) [OF z]] by blast
  show ?case
  proof (cases "n < sint limit")
    case False
    then have "(sint limit - n + 1) div 2 \<le> 0" by simp
    then show ?thesis using False p by (simp add: zquery_loop.simps)
  next
    case True
    have step: "znode_offset m (Some ?a) 1 = Some (nth_ptr (inorder t) (int (i + 1)))"
      using znode_offset_ok [OF z i, of 1] by (simp add: algebra_simps)
    have chk: "i64_chk (n + 2) = Some (n + 2)" using Suc.prems i by (simp add: i64_ok_def)
    have drop: "drop i (pairs_of m t) = (nname m ?a, zscore (zpay m ?a)) # drop (i + 1) (pairs_of m t)"
      using i by (simp add: pairs_of_def Cons_nth_drop_Suc [symmetric])
    have cnt: "nat ((sint limit - n + 1) div 2) = Suc (nat ((sint limit - (n + 2) + 1) div 2))"
      using True by linarith
    have "zquery_loop m limit (nth_ptr (inorder t) (int i)) n out =
        zquery_loop m limit (nth_ptr (inorder t) (int (i + 1))) (n + 2)
          (out_dbl (out_str out (nname m ?a)) (zscore (zpay m ?a)))"
      unfolding p by (subst zquery_loop.simps) (simp add: True a step chk Let_def del: of_nat_add)
    also have "\<dots> = (let ps = take (nat ((sint limit - (n + 2) + 1) div 2)) (drop (i + 1) (pairs_of m t))
     in Some (n + 2 + 2 * int (length ps), out_dbl (out_str out (nname m ?a)) (zscore (zpay m ?a)) @
         concat (map (\<lambda>(n, s). encode (VStr n) @ encode (VDbl s)) ps)))"
      by (rule Suc.hyps(1)) (use Suc i in auto)
    finally show ?thesis unfolding drop cnt take_Suc_Cons Let_def
      by (simp add: out_encode del: encode.simps)
  qed
qed

lemma pairs_encode:
  "concat (map (\<lambda>(n, s). encode (VStr n) @ encode (VDbl s)) ps) =
     concat (map encode (concat (map (\<lambda>(n, s). [VStr n, VDbl s]) ps)))"
  "length (concat (map (\<lambda>(n, s). [VStr n, VDbl s]) ps)) = 2 * length ps"
  by (induction ps) auto

lemma zquery_output:
  assumes z: "zset_ok m z t" and nan: "\<not> dbl_isnan score" and pos: "0 < sint limit"
    and arr: "out_begin_arr out = (out1, ctx)"
  shows "do {
      znode \<leftarrow> zset_seekge m z score name;
      znode \<leftarrow> znode_offset m znode offset;
      (n, out) \<leftarrow> zquery_loop m limit znode 0 out1;
      out_end_arr out ctx (of_int n)
    } = Some (out @ encode (zreply (zrange (pairs_of m t) score name (sint offset) (sint limit))))"
proof -
  let ?k = "zrank m t score name" and ?ps = "pairs_of m t"
  let ?r = "zrange ?ps score name (sint offset) (sint limit)"
  have len: "length ?ps = size t" by (simp add: pairs_of_def)
  have small: "size t < 2 ^ 31" by (rule avl_treeD(5) [OF zset_okD(2) [OF z]])
  have off: "znode_offset m (nth_ptr (inorder t) (int ?k)) offset =
      Some (if ?k < size t then nth_ptr (inorder t) (int ?k + sint offset) else NULL)"
    by (rule zset_seek_offset [OF z])
  have kle: "?k \<le> size t" unfolding zrank_def by (metis length_inorder length_takeWhile_le)
  have r: "?r = (if ?k = size t \<or> int ?k + sint offset < 0 then []
      else take (nat ((sint limit + 1) div 2)) (drop (nat (int ?k + sint offset)) ?ps))"
    unfolding zrange_def pairs_rank len Let_def using pos by simp
  have loop: "zquery_loop m limit (if ?k < size t then nth_ptr (inorder t) (int ?k + sint offset) else NULL) 0 out1 =
      Some (2 * int (length ?r), out1 @ concat (map (\<lambda>(n, s). encode (VStr n) @ encode (VDbl s)) ?r))"
  proof (cases "?k < size t \<and> 0 \<le> int ?k + sint offset \<and> int ?k + sint offset < int (size t)")
    case True
    define i where "i = nat (int ?k + sint offset)"
    have i: "int i = int ?k + sint offset" "i \<le> size t" using True by (auto simp: i_def)
    have "?r = take (nat ((sint limit - 0 + 1) div 2)) (drop i ?ps)" unfolding r i_def using True by simp
    then show ?thesis using zquery_loop_ok [OF z i(2), of 0 limit out1] True small
      by (simp only: i(1) Let_def) simp
  next
    case False
    then have "?r = []" "(if ?k < size t then nth_ptr (inorder t) (int ?k + sint offset) else NULL) = NULL"
      unfolding r using kle len by (auto simp: nth_ptr_def)
    then show ?thesis by (simp add: zquery_loop.simps del: if_split)
  qed
  have n: "(of_int (2 * int (length ?r)) :: u32) =
      of_nat (length (concat (map (\<lambda>(n, s). [VStr n, VDbl s]) ?r)))"
    unfolding pairs_encode(2) by (metis of_int_of_nat_eq of_nat_mult of_nat_numeral)
  have "out_end_arr (out1 @ concat (map (\<lambda>(n, s). encode (VStr n) @ encode (VDbl s)) ?r)) ctx
      (of_int (2 * int (length ?r))) = Some (out @ encode (zreply ?r))"
    unfolding begin_end_arr_aux [OF arr] n by (simp del: encode.simps add: encode.simps(6) zreply_def pairs_encode(1))
  then show ?thesis
    unfolding zset_seekge_rank [OF z nan] bind.bind_lunit off loop by simp
qed

text \<open>The reply of a query over an existing or a missing sorted set.\<close>

lemma do_zquery_reply:
  assumes args: "str2dbl sc = Some score" "str2int off = (True, offset)" "str2int num = (True, limit)"
    and l: "expect_zset s k = Some (zr, s')" "zr \<noteq> ZNull"
    and z: "zref_get s' zr = Some z" "zset_ok (zm s') z t"
  shows "do_zquery s [cstr ''zquery'', k, sc, n, off, num] out =
    Some (s', out @ encode (zreply (zrange (pairs_of (zm s') t) score n (sint offset) (sint limit))))"
proof (cases "sint limit \<le> 0")
  case True
  then show ?thesis using args l out_arr_encode [of out "[]"]
    by (simp add: do_zquery_def zrange_def zreply_def)
next
  case lim: False
  obtain out1 ctx where arr: "out_begin_arr out = (out1, ctx)" by (cases "out_begin_arr out")
  have pos: "0 < sint limit" using lim by simp
  from zquery_output [OF z(2) str2dbl_not_nan [OF args(1)] pos arr, of n offset] obtain p q c out2 where
    "zset_seekge (zm s') z score n = Some p" "znode_offset (zm s') p offset = Some q"
    "zquery_loop (zm s') limit q 0 out1 = Some (c, out2)"
    "out_end_arr out2 ctx (of_int c) =
       Some (out @ encode (zreply (zrange (pairs_of (zm s') t) score n (sint offset) (sint limit))))"
    by (auto simp: bind_eq_Some_conv)
  then show ?thesis using lim args l z(1) arr by (simp add: do_zquery_def)
qed

lemma do_zquery_ok:
  fixes k sc n off num :: bytes
  assumes inv: "kv_inv s D zt" and abs: "kv_abs s D zt A"
  defines "cmd \<equiv> [cstr ''zquery'', k, sc, n, off, num]"
  shows "cmd_ok now A cmd out (do_zquery s cmd out)"
proof (cases "str2dbl sc")
  case None
  then have "do_zquery s cmd out = Some (s, out @ encode (wrong_arg ''expect fp number''))"
    by (simp add: do_zquery_def out_encode cmd_def)
  moreover have "kv_step now A cmd (wrong_arg ''expect fp number'') A"
    unfolding cmd_def by (rule zquery_score [OF None])
  ultimately show ?thesis using cmd_okI [OF _ _ inv abs] by blast
next
  case (Some score)
  obtain ok4 offset ok5 limit where int: "str2int off = (ok4, offset)" "str2int num = (ok5, limit)"
    by (metis surj_pair)
  show ?thesis
  proof (cases "ok4 \<and> ok5")
    case False
    then have "do_zquery s cmd out = Some (s, out @ encode (wrong_arg ''expect int''))"
      using Some int by (simp add: do_zquery_def out_encode cmd_def)
    moreover have "kv_step now A cmd (wrong_arg ''expect int'') A"
      unfolding cmd_def by (rule zquery_int [OF Some]) (use False int in auto)
    ultimately show ?thesis using cmd_okI [OF _ _ inv abs] by blast
  next
    case True
    with int have int: "str2int off = (True, offset)" "str2int num = (True, limit)" by auto
    from expect_zset_ok [OF inv abs, of k] obtain zr h m where
      l: "expect_zset s k = Some (zr, s\<lparr>enode := h, db := m\<rparr>)" "kv_inv (s\<lparr>enode := h, db := m\<rparr>) D zt"
        "kv_abs (s\<lparr>enode := h, db := m\<rparr>) D zt A"
        "case zr of ZNull \<Rightarrow> zset_of A k = None
         | ZEmpty \<Rightarrow> A k = None \<and> zset_of A k = Some Map.empty
         | ZOf a \<Rightarrow> a \<in> D \<and> (\<exists>e. ents s a = Some e \<and> e_key e = k \<and> e_type e = T_ZSET \<and>
             A k = Some (KZSet (zabs (zm s) (zt a)), ttl_of (theap s) a) \<and>
             zset_of A k = Some (zabs (zm s) (zt a)) \<and> zset_ok (zm s) (e_zset e) (zt a))" .
    let ?s = "s\<lparr>enode := h, db := m\<rparr>"
    show ?thesis
    proof (cases "zr = ZNull")
      case zr: True
      then have "do_zquery s cmd out = Some (?s, out @ encode (wrong_type ''expect zset''))"
        using l(1) Some int by (simp add: do_zquery_def out_encode cmd_def)
      moreover have "kv_step now A cmd (wrong_type ''expect zset'') A"
        unfolding cmd_def by (rule zquery_type [OF Some int]) (use l(4) zr in simp)
      ultimately show ?thesis using cmd_okI [OF _ _ l(2,3)] by blast
    next
      case False
      obtain z t where z: "zref_get ?s zr = Some z" "zset_ok (zm ?s) z t" "zset_of A k = Some (zabs (zm s) t)"
        using l(4) False zset_ok_empty by (cases zr) (fastforce simp: zref_get_def zabs_def)+
      from z(2) have zs: "zset_ok (zm s) z t" by simp
      show ?thesis unfolding cmd_def
        by (rule cmd_okI [OF do_zquery_reply [OF Some int l(1) False z(1,2)] _ l(2,3)])
          (simp, rule zquery [OF Some int z(3) pairs_sorted [OF zs]])
    qed
  qed
qed

subsection \<open>Expiry\<close>

lemma do_expire_ok:
  assumes inv: "kv_inv s D zt" and abs: "kv_abs s D zt A"
  shows "cmd_ok now A [cstr ''pexpire'', k, arg] out (do_expire now s [cstr ''pexpire'', k, arg] out)"
proof (cases "fst (str2int arg)")
  case False
  then have "do_expire now s [cstr ''pexpire'', k, arg] out = Some (s, out @ encode (wrong_arg ''expect int64''))"
    by (cases "str2int arg") (simp add: do_expire_def out_encode)
  then show ?thesis by (rule cmd_okI [OF _ expire_arg [where A = A, OF False] inv abs])
next
  case True
  then obtain ms where arg: "str2int arg = (True, ms)" by (cases "str2int arg") auto
  from db_lookup_ok [OF inv abs, of k] obtain r h m where
    l: "db_lookup s k = Some (r, s\<lparr>enode := h, db := m\<rparr>)" "kv_inv (s\<lparr>enode := h, db := m\<rparr>) D zt"
      "r = None \<longrightarrow> A k = None"
      "\<forall>a. r = Some a \<longrightarrow> a \<in> D \<and> e_key (ent s a) = k \<and>
         A k = Some (val_of (zm s) (ent s a) (zt a), ttl_of (theap s) a)" .
  let ?s = "s\<lparr>enode := h, db := m\<rparr>"
  have abs': "kv_abs ?s D zt A" using abs by simp
  show ?thesis
  proof (cases r)
    case None
    then have "do_expire now s [cstr ''pexpire'', k, arg] out = Some (?s, out @ encode (VInt 0))"
      using l(1) arg by (simp add: do_expire_def out_encode)
    then show ?thesis by (rule cmd_okI [OF _ expire_none [where A = A, OF True mp [OF l(3) None]] l(2) abs'])
  next
    case (Some a)
    note A = mp [OF spec [OF l(4), of a] Some]
    have k: "a \<in> D" "k = e_key (ent ?s a)" using A by auto
    from kv_ttl_ok [OF l(2) abs' k conjunct2 [OF conjunct2 [OF A]], of now ms] obtain s' where
      t: "entry_set_ttl now ?s a ms = Some s'" "kv_inv s' D zt" "ents s' = ents ?s" "zm s' = zm ?s"
        "kv_abs s' D zt (A(k \<mapsto> (val_of (zm s) (ent s a) (zt a), if sint ms < 0 then None else Some (now + ms))))"
        "ttl_of (theap s') a = (if sint ms < 0 then None else Some (now + ms))" .
    have "do_expire now s [cstr ''pexpire'', k, arg] out = Some (s', out @ encode (VInt 1))"
      using l(1) arg Some t(1) by (simp add: do_expire_def out_encode)
    then show ?thesis
      by (rule cmd_okI [OF _ expire_set [where A = A, OF arg conjunct2 [OF conjunct2 [OF A]]] t(2,5)])
  qed
qed

lemma do_ttl_ok:
  assumes inv: "kv_inv s D zt" and abs: "kv_abs s D zt A"
  shows "cmd_ok now A [cstr ''pttl'', k] out (do_ttl now s [cstr ''pttl'', k] out)"
proof -
  from db_lookup_ok [OF inv abs, of k] obtain r h m where
    l: "db_lookup s k = Some (r, s\<lparr>enode := h, db := m\<rparr>)" "kv_inv (s\<lparr>enode := h, db := m\<rparr>) D zt"
      "r = None \<longrightarrow> A k = None"
      "\<forall>a. r = Some a \<longrightarrow> a \<in> D \<and> e_key (ent s a) = k \<and>
         A k = Some (val_of (zm s) (ent s a) (zt a), ttl_of (theap s) a)" .
  let ?s = "s\<lparr>enode := h, db := m\<rparr>"
  have abs': "kv_abs ?s D zt A" using abs by simp
  show ?thesis
  proof (cases r)
    case None
    then have "do_ttl now s [cstr ''pttl'', k] out = Some (?s, out @ encode (VInt (- 2)))"
      using l(1) by (simp add: do_ttl_def out_encode)
    then show ?thesis by (rule cmd_okI [OF _ ttl_none [where A = A, OF mp [OF l(3) None]] l(2) abs'])
  next
    case (Some a)
    note A = mp [OF spec [OF l(4), of a] Some]
    note T = timers_okD [OF kv_invD(3) [OF inv]]
    show ?thesis
    proof (cases "a \<in> refs_of (theap s)")
      case False
      then have "hidx s a = Some (- 1)" using T(4) A by blast
      then have run: "do_ttl now s [cstr ''pttl'', k] out = Some (?s, out @ encode (VInt (- 1)))"
        using l(1) Some by (simp add: do_ttl_def out_encode)
      have "A k = Some (val_of (zm s) (ent s a) (zt a), None)" using A False by (simp add: ttl_of_None)
      then show ?thesis by (rule cmd_okI [OF run ttl_never [where A = A] l(2) abs'])
    next
      case True
      from heap_index [OF T(1) True] obtain i where i: "i < length (theap s)" "hidx s a = Some (of_nat i)"
        "unat (of_nat i :: size_t) = i" "(of_nat i :: size_t) \<noteq> - 1" "hi_ref (theap s ! i) = Some a" .
      let ?t = "hi_val (theap s ! i)"
      have "ttl_of (theap s) a = Some ?t"
        using ttl_of_Some [OF T(3), of a ?t] nth_mem [OF i(1)] i(5) by (metis heapitem_eta)
      then have "A k = Some (val_of (zm s) (ent s a) (zt a), Some ?t)" using A by simp
      moreover have "do_ttl now s [cstr ''pttl'', k] out =
          Some (?s, out @ encode (VInt (if ?t > now then ?t - now else 0)))"
        using l(1) Some i by (simp add: do_ttl_def out_encode)
      ultimately show ?thesis using cmd_okI [OF _ ttl_left [where A = A] l(2) abs'] by blast
    qed
  qed
qed

section \<open>The dispatcher\<close>

lemma shape_cases:
  "length cmd = 1 \<and> hd cmd = x \<longleftrightarrow> cmd = [x]"
  "length cmd = 2 \<and> hd cmd = x \<longleftrightarrow> (\<exists>a. cmd = [x, a])"
  "length cmd = 3 \<and> hd cmd = x \<longleftrightarrow> (\<exists>a b. cmd = [x, a, b])"
  "length cmd = 4 \<and> hd cmd = x \<longleftrightarrow> (\<exists>a b c. cmd = [x, a, b, c])"
  "length cmd = 6 \<and> hd cmd = x \<longleftrightarrow> (\<exists>a b c d e. cmd = [x, a, b, c, d, e])"
  by (auto simp: numeral_eq_Suc length_Suc_conv)

lemma known_shape_iff:
  "known_shape cmd \<longleftrightarrow>
     (\<exists>k. cmd = [cstr ''get'', k]) \<or> (\<exists>k v. cmd = [cstr ''set'', k, v]) \<or> (\<exists>k. cmd = [cstr ''del'', k]) \<or>
     (\<exists>k t. cmd = [cstr ''pexpire'', k, t]) \<or> (\<exists>k. cmd = [cstr ''pttl'', k]) \<or> cmd = [cstr ''keys''] \<or>
     (\<exists>k s n. cmd = [cstr ''zadd'', k, s, n]) \<or> (\<exists>k n. cmd = [cstr ''zrem'', k, n]) \<or>
     (\<exists>k n. cmd = [cstr ''zscore'', k, n]) \<or> (\<exists>k s n i l. cmd = [cstr ''zquery'', k, s, n, i, l])"
  unfolding known_shape_def insert_iff prod.inject shape_cases empty_iff by blast

lemma do_request_dispatch:
  "do_request now s [cstr ''get'', k] out = do_get s [cstr ''get'', k] out"
  "do_request now s [cstr ''set'', k, v] out = do_set s [cstr ''set'', k, v] out"
  "do_request now s [cstr ''del'', k] out = do_del now s [cstr ''del'', k] out"
  "do_request now s [cstr ''pexpire'', k, t] out = do_expire now s [cstr ''pexpire'', k, t] out"
  "do_request now s [cstr ''pttl'', k] out = do_ttl now s [cstr ''pttl'', k] out"
  "do_request now s [cstr ''keys''] out = do_keys s [cstr ''keys''] out"
  "do_request now s [cstr ''zadd'', k, sc, n] out = do_zadd s [cstr ''zadd'', k, sc, n] out"
  "do_request now s [cstr ''zrem'', k, n] out = do_zrem s [cstr ''zrem'', k, n] out"
  "do_request now s [cstr ''zscore'', k, n] out = do_zscore s [cstr ''zscore'', k, n] out"
  "do_request now s [cstr ''zquery'', k, sc, n, i, l] out = do_zquery s [cstr ''zquery'', k, sc, n, i, l] out"
  by (simp_all add: do_request_def cstr_def)

lemma do_request_unknown:
  assumes "\<not> known_shape cmd"
  shows "do_request now s cmd out = Some (s, out @ encode (VErr (err_code ERR_UNKNOWN) (cstr ''unknown command.'')))"
proof (cases "cmd = []")
  case False
  then have h: "cmd ! 0 = hd cmd" by (simp add: hd_conv_nth)
  have "\<not> (length cmd = 2 \<and> hd cmd = cstr ''get'')" "\<not> (length cmd = 3 \<and> hd cmd = cstr ''set'')"
    "\<not> (length cmd = 2 \<and> hd cmd = cstr ''del'')" "\<not> (length cmd = 3 \<and> hd cmd = cstr ''pexpire'')"
    "\<not> (length cmd = 2 \<and> hd cmd = cstr ''pttl'')" "\<not> (length cmd = 1 \<and> hd cmd = cstr ''keys'')"
    "\<not> (length cmd = 4 \<and> hd cmd = cstr ''zadd'')" "\<not> (length cmd = 3 \<and> hd cmd = cstr ''zrem'')"
    "\<not> (length cmd = 3 \<and> hd cmd = cstr ''zscore'')" "\<not> (length cmd = 6 \<and> hd cmd = cstr ''zquery'')"
    using assms unfolding known_shape_def insert_iff prod.inject by blast+
  then show ?thesis unfolding do_request_def Let_def h by (simp only: if_False out_err_encode)
qed (simp add: do_request_def out_err_encode)

lemma do_request_ok:
  assumes inv: "kv_inv s D zt" and abs: "kv_abs s D zt A" and room: "kv_room A"
  shows "cmd_ok now A cmd out (do_request now s cmd out)"
proof (cases "known_shape cmd")
  case True
  then show ?thesis
    unfolding known_shape_iff
    by (elim disjE exE)
      (simp_all only: do_request_dispatch do_get_ok [OF inv abs] do_set_ok [OF assms] do_del_ok [OF inv abs]
        do_expire_ok [OF inv abs] do_ttl_ok [OF inv abs] do_keys_ok [OF inv abs] do_zadd_ok [OF assms]
        do_zrem_ok [OF inv abs] do_zscore_ok [OF inv abs] do_zquery_ok [OF inv abs])
next
  case False
  show ?thesis by (rule cmd_okI [OF do_request_unknown [OF False] unknown [OF False] inv abs])
qed

section \<open>Properties\<close>

text \<open>C2: every request refines the abstract keyspace.  On a store that represents a keyspace
  \<open>A\<close> below the capacity limits, \<open>do_request\<close> terminates without an invalid access on any
  list of arguments; it appends exactly one encoded reply, that reply and the keyspace the new
  store represents are the ones \<open>kv_step\<close> allows, whatever hash tables are being migrated,
  and the invariants of the tables, trees, heap and disposal queue hold again.\<close>

theorem do_request_refines:
  assumes "kv_rep s A" "kv_room A"
  shows "\<exists>s' r A'. do_request now s cmd out = Some (s', out @ encode r) \<and>
    kv_step now A cmd r A' \<and> kv_rep s' A'"
proof -
  from assms(1) obtain D zt where "kv_inv s D zt" "kv_abs s D zt A" unfolding kv_rep_def by blast
  from do_request_ok [OF this assms(2), of now cmd out] show ?thesis unfolding cmd_ok_def .
qed

lemma kv_room_empty: "kv_room Map.empty"
  by (simp add: kv_room_def)

theorem do_request_refines_witness:
  "\<exists>s' r A'. do_request 0 (kvs_init ex_zmem) [cstr ''zadd'', [122], cstr ''1'', [97]] [] = Some (s', [] @ encode r) \<and>
    kv_step 0 Map.empty [cstr ''zadd'', [122], cstr ''1'', [97]] r A' \<and> kv_rep s' A'"
  by (rule do_request_refines [OF kv_rep_empty kv_room_empty])

lemma do_request_abs:
  assumes "kv_rep s A" "kv_room A"
  obtains s' r A' where "do_request now s cmd out = Some (s', out @ encode r)" "kv_step now A cmd r A'" "kv_rep s' A'"
proof -
  from assms(1) obtain D zt where "kv_inv s D zt" "kv_abs s D zt A" unfolding kv_rep_def by blast
  from do_request_ok [OF this assms(2), of now cmd out] show thesis unfolding cmd_ok_def using that by blast
qed

text \<open>What a step of one command can be.\<close>

lemma step_get:
  "kv_step now A [cstr ''get'', k] r A' \<Longrightarrow> A' = A \<and>
     r = (case A k of None \<Rightarrow> VNil | Some (KStr v, _) \<Rightarrow> VStr v
          | Some (KZSet _, _) \<Rightarrow> wrong_type ''not a string value'')"
  by (erule kv_step.cases; simp add: known_shape_def; simp add: cstr_def)

lemma step_set:
  "kv_step now A [cstr ''set'', k, v] r A' \<Longrightarrow>
     (case A k of Some (KZSet _, _) \<Rightarrow> A' = A \<and> r = wrong_type ''a non-string value exists''
      | Some (KStr _, t) \<Rightarrow> A' = A(k \<mapsto> (KStr v, t)) \<and> r = VNil
      | None \<Rightarrow> A' = A(k \<mapsto> (KStr v, None)) \<and> r = VNil)"
  by (erule kv_step.cases; simp add: known_shape_def; simp add: cstr_def)

lemma step_zadd:
  "kv_step now A [cstr ''zadd'', k, sc, n] r A' \<Longrightarrow>
     (case str2dbl sc of None \<Rightarrow> A' = A
      | Some d \<Rightarrow> (case A k of
          None \<Rightarrow> r = VInt 1 \<and> A' = A(k \<mapsto> (KZSet [n \<mapsto> d], None))
        | Some (KZSet Z, t) \<Rightarrow> r = VInt (if Z n = None then 1 else 0) \<and>
            A' = A(k \<mapsto> (KZSet (Z(n \<mapsto> new_score Z n d)), t))
        | Some (KStr v, t) \<Rightarrow> A' = A))"
  by (erule kv_step.cases; simp add: known_shape_def; simp add: cstr_def)

lemma step_zscore:
  "kv_step now A [cstr ''zscore'', k, n] r A' \<Longrightarrow> A' = A \<and>
     r = (case zset_of A k of None \<Rightarrow> wrong_type ''expect zset''
          | Some Z \<Rightarrow> (case Z n of None \<Rightarrow> VNil | Some s \<Rightarrow> VDbl s))"
  by (erule kv_step.cases; simp add: known_shape_def; simp add: cstr_def)

lemma step_expire:
  "kv_step now A [cstr ''pexpire'', k, t] r A' \<Longrightarrow>
     (case A k of None \<Rightarrow> A' = A
      | Some (v, e) \<Rightarrow> if fst (str2int t)
          then r = VInt 1 \<and> A' = A(k \<mapsto> (v, if sint (snd (str2int t)) < 0 then None else Some (now + snd (str2int t))))
          else A' = A)"
  by (erule kv_step.cases; simp add: known_shape_def split: option.splits; simp add: cstr_def)

lemma step_ttl:
  "kv_step now A [cstr ''pttl'', k] r A' \<Longrightarrow> A' = A \<and>
     r = VInt (case A k of None \<Rightarrow> - 2 | Some (_, None) \<Rightarrow> - 1
               | Some (_, Some t) \<Rightarrow> if t > now then t - now else 0)"
  by (erule kv_step.cases) (auto simp: known_shape_def cstr_def)

lemma step_zquery:
  "kv_step now A [cstr ''zquery'', k, sc, n, off, num] r A' \<Longrightarrow>
     str2dbl sc = Some d \<longrightarrow> str2int off = (True, i) \<longrightarrow> str2int num = (True, l) \<longrightarrow> zset_of A k = Some Z \<longrightarrow>
     (\<exists>xs. zsorted Z xs \<and> r = zreply (zrange xs d n (sint i) (sint l)))"
  by (erule kv_step.cases; simp add: known_shape_def; (simp add: cstr_def)?) auto

lemma step_err: "kv_step now A cmd (VErr c m) A' \<Longrightarrow> A' = A"
  by (erule kv_step.cases) (auto split: if_splits option.splits simp: zreply_def)

lemma cmd_okE:
  assumes "cmd_ok now A cmd out p"
  obtains s r A' D zt where "p = Some (s, out @ encode r)" "kv_step now A cmd r A'" "kv_inv s D zt" "kv_abs s D zt A'"
  using assms unfolding cmd_ok_def kv_rep_def by blast

text \<open>C19: error replies.  A request that is answered with an error leaves the keyspace as it
  was.\<close>

theorem do_request_error:
  assumes "kv_rep s A" "kv_room A" "do_request now s cmd out = Some (s', out @ encode (VErr c m))"
  shows "kv_rep s' A"
proof -
  from do_request_abs [OF assms(1,2), of now cmd out] obtain s2 r A' where
    r: "do_request now s cmd out = Some (s2, out @ encode r)" "kv_step now A cmd r A'" "kv_rep s2 A'" .
  have same: "s2 = s'" "encode r = encode (VErr c m)" using r(1) assms(3) by simp_all
  from same(2) obtain c' m' where "r = VErr c' m'" by (cases r) auto
  then have "A' = A" using step_err r(2) by blast
  then show ?thesis using r(3) same(1) by simp
qed

theorem do_request_error_witness:
  "do_request 0 (kvs_init ex_zmem) [cstr ''flush''] [] =
     Some (kvs_init ex_zmem, [] @ encode (VErr (err_code ERR_UNKNOWN) (cstr ''unknown command.''))) \<and>
   kv_rep (kvs_init ex_zmem) Map.empty"
proof
  show r: "do_request 0 (kvs_init ex_zmem) [cstr ''flush''] [] =
     Some (kvs_init ex_zmem, [] @ encode (VErr (err_code ERR_UNKNOWN) (cstr ''unknown command.'')))"
    by (rule do_request_unknown) (simp add: known_shape_def cstr_def)
  show "kv_rep (kvs_init ex_zmem) Map.empty"
    by (rule do_request_error [OF kv_rep_empty kv_room_empty r])
qed

text \<open>C20: \<open>set\<close> and \<open>get\<close>.  Unless the key holds a sorted set, a \<open>set\<close> succeeds and the
  next \<open>get\<close> of the key answers the bytes that were set, whatever they are.\<close>

theorem set_then_get:
  assumes "kv_rep s A" "kv_room A" "\<forall>Z t. A k \<noteq> Some (KZSet Z, t)"
  shows "\<exists>s1 s2. do_request now s [cstr ''set'', k, v] out = Some (s1, out @ encode VNil) \<and>
    do_request now' s1 [cstr ''get'', k] out' = Some (s2, out' @ encode (VStr v))"
proof -
  from assms(1) obtain D zt where "kv_inv s D zt" "kv_abs s D zt A" unfolding kv_rep_def by blast
  from do_set_ok [OF this assms(2), of now k v out] obtain s1 r A1 D1 zt1 where
    1: "do_set s [cstr ''set'', k, v] out = Some (s1, out @ encode r)" "kv_step now A [cstr ''set'', k, v] r A1"
      "kv_inv s1 D1 zt1" "kv_abs s1 D1 zt1 A1" by (rule cmd_okE)
  from do_get_ok [OF 1(3,4), of now' k out'] obtain s2 r' A2 D2 zt2 where
    2: "do_get s1 [cstr ''get'', k] out' = Some (s2, out' @ encode r')" "kv_step now' A1 [cstr ''get'', k] r' A2"
      "kv_inv s2 D2 zt2" "kv_abs s2 D2 zt2 A2" by (rule cmd_okE)
  have "r = VNil \<and> (\<exists>t. A1 k = Some (KStr v, t))"
  proof -
    have "A k = None \<or> (\<exists>w t. A k = Some (KStr w, t))"
      using assms(3) by (cases "A k") (auto, metis kval.exhaust)
    then show ?thesis using step_set [OF 1(2)] by auto
  qed
  then have "r = VNil" "r' = VStr v" using step_get [OF 2(2)] by auto
  then show ?thesis using 1(1) 2(1) by (simp add: do_request_dispatch)
qed

theorem set_then_get_witness:
  "\<exists>s1 s2. do_request 0 (kvs_init ex_zmem) [cstr ''set'', [107], [0, 255]] [] = Some (s1, [] @ encode VNil) \<and>
    do_request 1 s1 [cstr ''get'', [107]] [] = Some (s2, [] @ encode (VStr [0, 255]))"
  by (rule set_then_get [OF kv_rep_empty kv_room_empty]) simp

text \<open>C21: \<open>zadd\<close> and \<open>zscore\<close>.  Unless the key holds a string, adding a name with a score the
  server accepts makes the next \<open>zscore\<close> answer a score equal to it, and the reply says
  whether the name was new.\<close>

theorem zadd_then_zscore:
  assumes "kv_rep s A" "kv_room A" "zset_of A k = Some Z" "str2dbl sc = Some d"
  shows "\<exists>s1 s2 d'. do_request now s [cstr ''zadd'', k, sc, n] out =
      Some (s1, out @ encode (VInt (if Z n = None then 1 else 0))) \<and>
    do_request now' s1 [cstr ''zscore'', k, n] out' = Some (s2, out' @ encode (VDbl d')) \<and> dbl_eq d' d"
proof -
  from assms(1) obtain D zt where "kv_inv s D zt" "kv_abs s D zt A" unfolding kv_rep_def by blast
  from do_zadd_ok [OF this assms(2), of now k sc n out] obtain s1 r A1 D1 zt1 where
    1: "do_zadd s [cstr ''zadd'', k, sc, n] out = Some (s1, out @ encode r)"
      "kv_step now A [cstr ''zadd'', k, sc, n] r A1" "kv_inv s1 D1 zt1" "kv_abs s1 D1 zt1 A1" by (rule cmd_okE)
  from do_zscore_ok [OF 1(3,4), of now' k n out'] obtain s2 r' A2 D2 zt2 where
    2: "do_zscore s1 [cstr ''zscore'', k, n] out' = Some (s2, out' @ encode r')"
      "kv_step now' A1 [cstr ''zscore'', k, n] r' A2"
      "kv_inv s2 D2 zt2" "kv_abs s2 D2 zt2 A2" by (rule cmd_okE)
  have r: "r = VInt (if Z n = None then 1 else 0) \<and> zset_of A1 k = Some (Z(n \<mapsto> new_score Z n d))"
  proof -
    have "A k = None \<and> Z = Map.empty \<or> (\<exists>t. A k = Some (KZSet Z, t))"
      using assms(3) by (cases "A k") (auto simp: zset_of_def split: kval.splits)
    then show ?thesis using step_zadd [OF 1(2)] assms(4) by (auto simp: zset_of_def new_score_def)
  qed
  have r': "r' = VDbl (new_score Z n d)" using step_zscore [OF 2(2)] r by simp
  have "dbl_eq d d" using str2dbl_not_nan [OF assms(4)] by (simp add: dbl_eq_def)
  then have "dbl_eq (new_score Z n d) d" by (auto simp: new_score_def split: option.splits)
  then show ?thesis using 1(1) 2(1) r r'
    by (intro exI [of _ s1] exI [of _ s2] exI [of _ "new_score Z n d"]) (simp add: do_request_dispatch)
qed

theorem zadd_then_zscore_witness:
  "\<exists>s1 s2 d'. do_request 0 (kvs_init ex_zmem) [cstr ''zadd'', [122], [], [97]] [] =
      Some (s1, [] @ encode (VInt (if Map.empty [97] = (None :: u64 option) then 1 else 0))) \<and>
    do_request 5 s1 [cstr ''zscore'', [122], [97]] [] = Some (s2, [] @ encode (VDbl d')) \<and> dbl_eq d' 0"
  by (rule zadd_then_zscore [OF kv_rep_empty kv_room_empty _ str2dbl_empty]) (simp add: zset_of_def)

text \<open>C22: \<open>pexpire\<close> and \<open>pttl\<close>.  After a key that exists has been given \<open>ms\<close> milliseconds, a
  later \<open>pttl\<close> answers what is left of them, never more than \<open>ms\<close> and 0 when they are
  over.\<close>

theorem expire_then_ttl:
  assumes "kv_rep s A" "A k = Some (v, e)" "str2int arg = (True, ms)" "0 \<le> sint ms"
    and "unat now + unat ms < 2 ^ 64" "now \<le> now'"
  shows "\<exists>s1 s2. do_request now s [cstr ''pexpire'', k, arg] out = Some (s1, out @ encode (VInt 1)) \<and>
    do_request now' s1 [cstr ''pttl'', k] out' = Some (s2, out' @ encode (VInt (of_nat (unat now + unat ms - unat now'))))"
proof -
  from assms(1) obtain D zt where "kv_inv s D zt" "kv_abs s D zt A" unfolding kv_rep_def by blast
  from do_expire_ok [OF this, of now k arg out] obtain s1 r A1 D1 zt1 where
    1: "do_expire now s [cstr ''pexpire'', k, arg] out = Some (s1, out @ encode r)"
      "kv_step now A [cstr ''pexpire'', k, arg] r A1" "kv_inv s1 D1 zt1" "kv_abs s1 D1 zt1 A1" by (rule cmd_okE)
  from do_ttl_ok [OF 1(3,4), of now' k out'] obtain s2 r' A2 D2 zt2 where
    2: "do_ttl now' s1 [cstr ''pttl'', k] out' = Some (s2, out' @ encode r')" "kv_step now' A1 [cstr ''pttl'', k] r' A2"
      "kv_inv s2 D2 zt2" "kv_abs s2 D2 zt2 A2" by (rule cmd_okE)
  have e: "r = VInt 1 \<and> A1 = A(k \<mapsto> (v, Some (now + ms)))"
    using step_expire [OF 1(2)] assms(2-4) by simp
  have un: "unat (now + ms) = unat now + unat ms" using assms(5) by (simp add: unat_word_ariths)
  have "(if now + ms > now' then now + ms - now' else 0) = (of_nat (unat now + unat ms - unat now') :: u64)"
  proof (cases "now + ms > now'")
    case True
    then have "unat now' \<le> unat now + unat ms" using un by (simp add: word_less_nat_alt)
    then show ?thesis using True by (simp add: of_nat_diff)
  next
    case False
    then have "unat now + unat ms \<le> unat now'" using un by (simp add: word_less_nat_alt)
    then show ?thesis using False by simp
  qed
  then have "r' = VInt (of_nat (unat now + unat ms - unat now'))"
    using step_ttl [OF 2(2)] e by simp
  then show ?thesis using 1(1) 2(1) conjunct1 [OF e]
    by (intro exI [of _ s1] exI [of _ s2]) (simp add: do_request_dispatch)
qed

lemma ex_after_set:
  obtains s1 where
    "do_request 0 (kvs_init ex_zmem) [cstr ''set'', [107], [1]] [] = Some (s1, encode VNil)"
    "kv_rep s1 [[107] \<mapsto> (KStr [1], None)]"
proof -
  have "kv_inv (kvs_init ex_zmem) {} (\<lambda>_. Leaf)" "kv_abs (kvs_init ex_zmem) {} (\<lambda>_. Leaf) Map.empty"
    by (simp_all add: kv_inv_empty kv_abs_def)
  from do_set_ok [OF this kv_room_empty, of 0 "[107]" "[1]" "[]"] obtain s1 r A D zt where
    s: "do_set (kvs_init ex_zmem) [cstr ''set'', [107], [1]] [] = Some (s1, [] @ encode r)"
      "kv_step 0 Map.empty [cstr ''set'', [107], [1]] r A" "kv_inv s1 D zt" "kv_abs s1 D zt A" by (rule cmd_okE)
  then have "kv_rep s1 A" unfolding kv_rep_def by blast
  then show thesis using that [of s1] s(1) step_set [OF s(2)] by (simp add: do_request_dispatch)
qed

theorem expire_then_ttl_witness:
  "\<exists>s1 s2 s3. do_request 0 (kvs_init ex_zmem) [cstr ''set'', [107], [1]] [] = Some (s1, encode VNil) \<and>
    do_request 100 s1 [cstr ''pexpire'', [107], [53, 48]] [] = Some (s2, [] @ encode (VInt 1)) \<and>
    do_request 120 s2 [cstr ''pttl'', [107]] [] = Some (s3, [] @ encode (VInt (of_nat (unat (100::u64) + unat (50::u64) - unat (120::u64)))))"
proof -
  have "str2int [53, 48] = (True, 50)"
    by (simp add: str2int_def c_str_def strtoll10_def split_sign_def is_space_def is_digit_def digits_val_def
      digit_val_def i64_saturate_def)
  with ex_after_set show ?thesis
    using expire_then_ttl [of _ "[[107] \<mapsto> (KStr [1], None)]" "[107]" "KStr [1]" None "[53, 48]" 50 100 120 "[]" "[]"]
    by fastforce
qed

text \<open>Background disposal.  When a worker runs \<open>entry_del_func\<close> on any queued entry, the entry is freed with its sorted set, without an invalid access,
  and the keyspace is the same as before: deferring the deletion of large sets is invisible to
  every request.\<close>

theorem pool_work_invisible:
  assumes "kv_rep s A" "a \<in> set (pool s)"
  shows "\<exists>s'. pool_work s a = Some s' \<and> kv_rep s' A \<and> pool s' = remove1 a (pool s) \<and> ents s' a = None"
proof -
  from assms(1) obtain D zt where i: "kv_inv s D zt" "kv_abs s D zt A" unfolding kv_rep_def by blast
  from pool_work_ok [OF i assms(2)] obtain s' where "pool_work s a = Some s'" "kv_inv s' D zt" "kv_abs s' D zt A"
    "pool s' = remove1 a (pool s)" "ents s' a = None" .
  then show ?thesis unfolding kv_rep_def by blast
qed

text \<open>The example sorted set in an entry that waits for disposal.\<close>

definition ex_queued :: kvs where
  "ex_queued = (kvs_init ex_zmem)\<lparr>
     ents := [1 \<mapsto> \<lparr>e_key = [122], e_type = T_ZSET, e_str = [], e_zset = ex_zset\<rparr>], pool := [1], ebrk := 2\<rparr>"

lemma ex_queued_rep: "kv_rep ex_queued Map.empty"
  unfolding kv_rep_def
proof (intro exI conjI)
  have "entry_ok ex_zmem 2 1 (ents ex_queued 1) ex_ztree"
    using ex_zset_ok by (simp add: entry_ok_def ex_queued_def)
  then show "kv_inv ex_queued {} (\<lambda>_. ex_ztree)"
    by (simp add: kv_inv_def index_ok_def hmap_set_empty timers_ok_def heap_ok_def heap_order_def refs_ok_def
      ents_ok_def ex_queued_def kvs_init_def)
  show "kv_abs ex_queued {} (\<lambda>_. ex_ztree) Map.empty" by (simp add: kv_abs_def)
qed

theorem pool_work_invisible_witness:
  "\<exists>s'. pool_work ex_queued 1 = Some s' \<and> kv_rep s' Map.empty \<and> pool s' = remove1 1 (pool ex_queued) \<and>
    ents s' 1 = None"
  by (rule pool_work_invisible [OF ex_queued_rep]) (simp add: ex_queued_def)

text \<open>C23: the size of a query's reply.  The array \<open>zquery\<close> answers has two elements for each
  pair, at most one more element than its limit and none for a limit below 1, and never more
  pairs than the set has; the limit counts elements, so an odd limit is rounded up.\<close>

theorem zquery_reply_size:
  assumes "kv_rep s A" "zset_of A k = Some Z"
    and "str2dbl sc = Some d" "str2int off = (True, i)" "str2int num = (True, l)"
  shows "\<exists>s' vs. do_request now s [cstr ''zquery'', k, sc, n, off, num] out = Some (s', out @ encode (VArr vs)) \<and>
    even (length vs) \<and> int (length vs) \<le> max 0 (sint l + 1) \<and> length vs \<le> 2 * card (dom Z)"
proof -
  from assms(1) obtain D zt where "kv_inv s D zt" "kv_abs s D zt A" unfolding kv_rep_def by blast
  from do_zquery_ok [OF this, of now k sc n off num out] obtain s' r A' D1 zt1 where
    1: "do_zquery s [cstr ''zquery'', k, sc, n, off, num] out = Some (s', out @ encode r)"
      "kv_step now A [cstr ''zquery'', k, sc, n, off, num] r A'" "kv_inv s' D1 zt1" "kv_abs s' D1 zt1 A'"
    by (rule cmd_okE)
  obtain xs where xs: "zsorted Z xs" "r = zreply (zrange xs d n (sint i) (sint l))"
    using step_zquery [OF 1(2), of d i l Z] assms(2-5) by auto
  have len: "length xs = card (dom Z)"
    using xs(1) distinct_card [of "map fst xs"] by (simp add: zsorted_def dom_map_of_conv_image_fst)
  let ?ys = "zrange xs d n (sint i) (sint l)"
  have "length ?ys \<le> length xs" "int (length ?ys) \<le> max 0 ((sint l + 1) div 2)"
    by (auto simp: zrange_def Let_def)
  then have "2 * length ?ys \<le> 2 * card (dom Z)" "int (2 * length ?ys) \<le> max 0 (sint l + 1)"
    using len by auto
  moreover have "even (2 * length ?ys)" by simp
  ultimately show ?thesis using 1(1) xs(2)
    by (intro exI [of _ s'] exI [of _ "concat (map (\<lambda>(n, s). [VStr n, VDbl s]) ?ys)"])
      (simp add: do_request_dispatch zreply_def pairs_encode(2))
qed

theorem zquery_reply_size_witness:
  "\<exists>s' vs. do_request 0 (kvs_init ex_zmem) [cstr ''zquery'', [122], [], [], [], [51]] [] = Some (s', [] @ encode (VArr vs)) \<and>
    even (length vs) \<and> int (length vs) \<le> max 0 (sint (3 :: i64) + 1) \<and>
    length vs \<le> 2 * card (dom (Map.empty :: bytes \<rightharpoonup> u64))"
proof -
  have "str2int [] = (True, 0)" "str2int [51] = (True, 3)"
    by (simp_all add: str2int_def c_str_def strtoll10_def split_sign_def is_space_def is_digit_def digits_val_def
      digit_val_def i64_saturate_def)
  then show ?thesis
    by (intro zquery_reply_size [OF kv_rep_empty _ str2dbl_empty]) (simp_all add: zset_of_def)
qed

end
