(* ===== verification/IdleList.thy ===== *)
theory IdleList
  imports Prelude
begin

text \<open>
  \<^verbatim>\<open>inc/server/list.h\<close>: the intrusive doubly linked list, circular through a head node, that
  holds the connections in the order of their last activity.  \<open>dlist h head xs\<close> says that the
  store \<open>h\<close> holds the list \<open>xs\<close> of nodes behind \<open>head\<close>; the lemmas show what the
  operations do to \<open>xs\<close>.
\<close>

section \<open>Data and operations\<close>

record dnode =
  d_prev :: ptr
  d_next :: ptr

type_synonym dheap = "addr \<rightharpoonup> dnode"

definition dlist_init :: "dheap \<Rightarrow> ptr \<Rightarrow> dheap option" where
  "dlist_init h node = assign h node (\<lambda>n. n\<lparr>d_prev := node, d_next := node\<rparr>)"

definition dlist_empty :: "dheap \<Rightarrow> ptr \<Rightarrow> bool option" where
  "dlist_empty h node = do { n \<leftarrow> deref h node; Some (d_next n = node) }"

definition dlist_detach :: "dheap \<Rightarrow> ptr \<Rightarrow> dheap option" where
  "dlist_detach h node = do {
     n \<leftarrow> deref h node;
     let prev = d_prev n;
     let next = d_next n;
     h \<leftarrow> assign h prev (d_next_update (\<lambda>_. next));
     assign h next (d_prev_update (\<lambda>_. prev))
   }"

definition dlist_insert_before :: "dheap \<Rightarrow> ptr \<Rightarrow> ptr \<Rightarrow> dheap option" where
  "dlist_insert_before h target rookie = do {
     t \<leftarrow> deref h target;
     let prev = d_prev t;
     h \<leftarrow> assign h prev (d_next_update (\<lambda>_. rookie));
     h \<leftarrow> assign h rookie (d_prev_update (\<lambda>_. prev));
     h \<leftarrow> assign h rookie (d_next_update (\<lambda>_. target));
     assign h target (d_prev_update (\<lambda>_. rookie))
   }"

section \<open>The list in the store\<close>

text \<open>Every two neighbours point at each other.\<close>

definition dnext :: "dheap \<Rightarrow> addr \<Rightarrow> ptr" where
  "dnext h a = Option.bind (h a) d_next"

definition dprev :: "dheap \<Rightarrow> addr \<Rightarrow> ptr" where
  "dprev h a = Option.bind (h a) d_prev"

fun links :: "dheap \<Rightarrow> addr list \<Rightarrow> bool" where
  "links h (a # b # xs) \<longleftrightarrow> dnext h a = Some b \<and> dprev h b = Some a \<and> links h (b # xs)"
| "links h xs = True"

definition dlist :: "dheap \<Rightarrow> addr \<Rightarrow> addr list \<Rightarrow> bool" where
  "dlist h head xs \<longleftrightarrow> distinct (head # xs) \<and> links h (head # xs @ [head])"

lemma links_join: "links h (xs @ a # ys) \<longleftrightarrow> links h (xs @ [a]) \<and> links h (a # ys)"
proof (induction xs)
  case (Cons x xs)
  then show ?case by (cases xs) auto
qed simp

lemma links_snoc: "links h (xs @ [a, b]) \<longleftrightarrow> links h (xs @ [a]) \<and> dnext h a = Some b \<and> dprev h b = Some a"
  using links_join [of h xs a "[b]"] by simp

text \<open>The links of a path depend on the forward pointers of all nodes but the last and on the
  backward pointers of all but the first.\<close>

lemma links_frame:
  "links h xs \<Longrightarrow> \<forall>a \<in> set (butlast xs). dnext h' a = dnext h a \<Longrightarrow>
   \<forall>a \<in> set (tl xs). dprev h' a = dprev h a \<Longrightarrow> links h' xs"
proof (induction h xs rule: links.induct)
  case (1 h a b xs)
  then show ?case by (cases xs) auto
qed auto

lemma dnext_upd [simp]: "dnext (h(a \<mapsto> n)) b = (if b = a then d_next n else dnext h b)"
  and dprev_upd [simp]: "dprev (h(a \<mapsto> n)) b = (if b = a then d_prev n else dprev h b)"
  by (simp_all add: dnext_def dprev_def)

lemma dnext_Some: "dnext h a = Some b \<Longrightarrow> \<exists>n. h a = Some n \<and> d_next n = Some b"
  and dprev_Some: "dprev h b = Some a \<Longrightarrow> \<exists>n. h b = Some n \<and> d_prev n = Some a"
  by (auto simp: dnext_def dprev_def bind_eq_Some_conv)

lemma dlist_frame:
  assumes "dlist h head xs" "\<forall>a \<in> set (head # xs). h' a = h a"
  shows "dlist h' head xs"
proof -
  have "links h' (head # xs @ [head])"
    by (rule links_frame [of h]) (use assms in \<open>auto simp: dlist_def dnext_def dprev_def butlast_append\<close>)
  then show ?thesis using assms(1) by (simp add: dlist_def)
qed

lemma dlist_nodes:
  assumes "dlist h head xs" "a \<in> set (head # xs)"
  obtains n where "h a = Some n"
proof -
  have "links h ((head # xs) @ [head])" "a \<in> set (head # xs)" using assms by (simp_all add: dlist_def)
  then have "\<exists>b. dnext h a = Some b"
  proof (induction "head # xs" arbitrary: head xs rule: rev_induct)
    case (snoc y ys)
    show ?case
    proof (cases "a = y")
      case True
      have "head # xs = ys @ [y]" using snoc(2) by simp
      then have "links h (ys @ [y, head])" using snoc(3) by (metis append.assoc append_Cons append_Nil)
      then show ?thesis using True links_snoc by blast
    next
      case False
      then obtain p q where q: "ys = p @ a # q" using snoc(2,4) by (metis Un_iff empty_iff empty_set set_append set_ConsD split_list)
      have "links h (p @ a # q @ [y, head])" using snoc(2,3) q by (metis append.assoc append_Cons append_Nil)
      then have "links h (a # q @ [y, head])" using links_join by blast
      then show ?thesis by (cases q) auto
    qed
  qed
  then show thesis using that dnext_Some by blast
qed

section \<open>What the operations do\<close>

lemma dlist_init_ok:
  assumes "h head \<noteq> None"
  obtains h' where "dlist_init h (Some head) = Some h'" "dlist h' head []" "agree_off {head} h h'"
  using assms by (auto simp: dlist_init_def dlist_def)

lemma dlist_empty_ok:
  assumes "dlist h head xs"
  shows "dlist_empty h (Some head) = Some (xs = [])"
proof -
  obtain n where n: "h head = Some n" using dlist_nodes [OF assms, of head] by auto
  show ?thesis
  proof (cases xs)
    case Nil
    then show ?thesis using assms n by (simp add: dlist_empty_def dlist_def dnext_def)
  next
    case (Cons x ys)
    then show ?thesis using assms n by (auto simp: dlist_empty_def dlist_def dnext_def)
  qed
qed

text \<open>The first node.\<close>

lemma dlist_first: "dlist h head (x # xs) \<Longrightarrow> deref h (Some head) = Some n \<Longrightarrow> d_next n = Some x"
  by (auto simp: dlist_def dnext_def)

lemma dlist_detach_ok:
  assumes d: "dlist h head (p @ x # q)"
  obtains h' where "dlist_detach h (Some x) = Some h'" "dlist h' head (p @ q)"
    "agree_off (set (head # p @ q)) h h'" "\<forall>a. h a \<noteq> None \<longrightarrow> h' a \<noteq> None"
proof -
  define a where "a = last (head # p)"
  define b where "b = hd (q @ [head])"
  obtain P where P: "head # p = P @ [a]" unfolding a_def by (metis append_butlast_last_id list.distinct(1))
  obtain Q where Q: "q @ [head] = b # Q" unfolding b_def by (metis append_is_Nil_conv list.collapse list.distinct(1))
  have eq: "head # (p @ x # q) @ [head] = P @ a # x # b # Q" using P Q by (metis append.assoc append_Cons append_Nil)
  have l: "links h (P @ a # x # b # Q)" using d unfolding dlist_def eq by simp
  then have la: "links h (P @ [a])" "links h (b # Q)" and ab: "dnext h a = Some x" "dprev h x = Some a" "dnext h x = Some b" "dprev h b = Some x"
    using links_join [of h P a "x # b # Q"] by auto
  have dist: "distinct (head # p @ x # q)" using d by (simp add: dlist_def)
  have mem: "a \<in> set (head # p)" "b \<in> set (head # q)"
    unfolding a_def b_def by (auto simp: last_in_set) (cases q; simp)
  then have xab: "x \<noteq> a" "x \<noteq> b" using dist by auto
  obtain na nb nx where n: "h a = Some na" "h b = Some nb" "h x = Some nx"
    using ab dnext_Some dprev_Some by metis
  let ?h = "h(a \<mapsto> na\<lparr>d_next := Some b\<rparr>)"
  obtain nb' where nb': "?h b = Some nb'" "d_next nb' = (if a = b then Some b else d_next nb)"
    using n(2) by (cases "a = b") auto
  let ?h' = "?h(b \<mapsto> nb'\<lparr>d_prev := Some a\<rparr>)"
  have run: "dlist_detach h (Some x) = Some ?h'"
    using n ab nb'(1) by (simp add: dlist_detach_def dnext_def dprev_def)
  have nxt: "dnext ?h' y = (if y = a then Some b else dnext h y)" for y
    using nb'(2) n(2) by (auto simp: dnext_def)
  have prv: "dprev ?h' y = (if y = b then Some a else dprev h y)" for y
    using n(1) by (auto simp: dprev_def)
  have "a \<notin> set P" using P dist by (metis distinct_append not_distinct_conv_prefix append_Cons append.assoc)
  moreover have "b \<notin> set (tl (P @ [a]))"
  proof -
    have "tl (P @ [a]) = p" using P by (metis list.sel(3))
    then show ?thesis using mem(2) dist by auto
  qed
  ultimately have l1: "links ?h' (P @ [a])"
    by (intro links_frame [OF la(1)]) (auto simp: nxt prv simp del: dnext_upd dprev_upd)
  have "a \<notin> set (butlast (b # Q))"
  proof -
    have "butlast (b # Q) = q" using Q by (metis butlast_snoc)
    then show ?thesis using mem(1) dist by auto
  qed
  moreover have "b \<notin> set Q"
  proof (cases q)
    case Nil
    then show ?thesis using Q by simp
  next
    case (Cons y ys)
    then show ?thesis using Q dist by auto
  qed
  ultimately have l2: "links ?h' (b # Q)"
    by (intro links_frame [OF la(2)]) (auto simp: nxt prv simp del: butlast.simps dnext_upd dprev_upd)
  have "links ?h' (P @ a # b # Q)"
    using l1 l2 nxt [of a] prv [of b] links_join [of ?h' P a "b # Q"] by simp
  moreover have "head # (p @ q) @ [head] = P @ a # b # Q" using P Q by (metis append.assoc append_Cons append_Nil)
  ultimately have "dlist ?h' head (p @ q)" using dist by (simp add: dlist_def)
  moreover have "agree_off (set (head # p @ q)) h ?h'" using mem by (auto simp: frame_defs)
  ultimately show thesis using that run by auto
qed

lemma dlist_insert_before_ok:
  assumes d: "dlist h head xs" and x: "x \<notin> set (head # xs)" "h x \<noteq> None"
  obtains h' where "dlist_insert_before h (Some head) (Some x) = Some h'" "dlist h' head (xs @ [x])"
    "agree_off (set (head # xs @ [x])) h h'" "\<forall>a. h a \<noteq> None \<longrightarrow> h' a \<noteq> None"
proof -
  define a where "a = last (head # xs)"
  obtain P where P: "head # xs = P @ [a]" unfolding a_def by (metis append_butlast_last_id list.distinct(1))
  have dist: "distinct (head # xs)" using d by (simp add: dlist_def)
  have "links h (P @ [a, head])" using d P unfolding dlist_def by (metis append.assoc append_Cons append_Nil)
  then have l: "links h (P @ [a])" "dnext h a = Some head" "dprev h head = Some a" using links_snoc by blast+
  have a: "a \<in> set (head # xs)" unfolding a_def by (rule last_in_set) simp
  then have xa: "x \<noteq> a" "x \<noteq> head" using x(1) by auto
  obtain nh where nh: "h head = Some nh" "d_prev nh = Some a" using dprev_Some [OF l(3)] by blast
  obtain na where na: "h a = Some na" using dnext_Some [OF l(2)] by blast
  obtain nx where nx: "h x = Some nx" using x(2) by blast
  let ?h1 = "h(a \<mapsto> na\<lparr>d_next := Some x\<rparr>)"
  let ?h2 = "?h1(x \<mapsto> nx\<lparr>d_prev := Some a, d_next := Some head\<rparr>)"
  obtain nh' where nh': "?h2 head = Some nh'" "d_next nh' = (if a = head then Some x else d_next nh)"
    using nh(1) na xa by (cases "a = head") auto
  let ?h3 = "?h2(head \<mapsto> nh'\<lparr>d_prev := Some x\<rparr>)"
  have run: "dlist_insert_before h (Some head) (Some x) = Some ?h3"
    using nh na nx nh'(1) xa by (simp add: dlist_insert_before_def)
  have nxt: "dnext ?h3 y = (if y = a then Some x else if y = x then Some head else dnext h y)" for y
    using nh'(2) nh(1) xa by (auto simp: dnext_def)
  have prv: "dprev ?h3 y = (if y = head then Some x else if y = x then Some a else dprev h y)" for y
    using na xa by (auto simp: dprev_def)
  have "a \<notin> set P" using P dist by (metis distinct_append not_distinct_conv_prefix)
  moreover have "x \<notin> set P" "x \<notin> set (tl (P @ [a]))" "head \<notin> set (tl (P @ [a]))"
    using P x(1) dist by (metis Un_iff set_append, metis list.set_sel(2) list.sel(3) x(1) list.set_intros(2), metis distinct.simps(2) list.sel(3))
  ultimately have l1: "links ?h3 (P @ [a])"
    by (intro links_frame [OF l(1)]) (auto simp: nxt prv simp del: dnext_upd dprev_upd)
  have "links ?h3 (P @ a # x # [head])"
    using l1 nxt [of a] prv [of x] nxt [of x] prv [of head] xa links_join [of ?h3 P a "[x, head]"] by simp
  moreover have e: "head # (xs @ [x]) @ [head] = P @ a # x # [head]" using P by (metis append.assoc append_Cons append_Nil)
  moreover have "distinct (head # xs @ [x])" using dist x(1) by auto
  ultimately have "dlist ?h3 head (xs @ [x])" unfolding dlist_def e by blast
  moreover have "agree_off (set (head # xs @ [x])) h ?h3" using a by (auto simp: frame_defs)
  ultimately show thesis using that run by auto
qed

section \<open>The contract\<close>

text \<open>What the owner of a list may rely on: \<open>rep h head xs\<close> says that the list at \<open>head\<close> in store \<open>h\<close> holds
  the nodes \<open>xs\<close> in this order.\<close>

locale intrusive_list =
  fixes rep :: "(addr \<rightharpoonup> 'n) \<Rightarrow> addr \<Rightarrow> addr list \<Rightarrow> bool"
    and is_empty :: "(addr \<rightharpoonup> 'n) \<Rightarrow> ptr \<Rightarrow> bool option"
    and detach :: "(addr \<rightharpoonup> 'n) \<Rightarrow> ptr \<Rightarrow> (addr \<rightharpoonup> 'n) option"
    and insert_before :: "(addr \<rightharpoonup> 'n) \<Rightarrow> ptr \<Rightarrow> ptr \<Rightarrow> (addr \<rightharpoonup> 'n) option"
  assumes rep_distinct: "rep h head xs \<Longrightarrow> distinct (head # xs)"
    and rep_node: "rep h head xs \<Longrightarrow> a \<in> set (head # xs) \<Longrightarrow> h a \<noteq> None"
    and rep_frame: "rep h head xs \<Longrightarrow> \<forall>a \<in> set (head # xs). h' a = h a \<Longrightarrow> rep h' head xs"
    and empty_law: "rep h head xs \<Longrightarrow> is_empty h (Some head) = Some (xs = [])"
    and detach_law: "rep h head xs \<Longrightarrow> a \<in> set xs \<Longrightarrow>
      \<exists>h'. detach h (Some a) = Some h' \<and> rep h' head (remove1 a xs) \<and> h' a \<noteq> None"
    and insert_law: "rep h head xs \<Longrightarrow> a \<notin> set (head # xs) \<Longrightarrow> h a \<noteq> None \<Longrightarrow>
      \<exists>h'. insert_before h (Some head) (Some a) = Some h' \<and> rep h' head (xs @ [a])"
begin

lemma left_out:
  assumes "rep h head xs" "a \<in> set xs"
  shows "a \<notin> set (head # remove1 a xs)"
  using rep_distinct [OF assms(1)] assms(2) by auto

text \<open>Taking a node out and freeing it.\<close>

lemma unlink:
  assumes "rep h head xs" "a \<in> set xs"
  obtains h' where "detach h (Some a) = Some h'" "rep (h'(a := None)) head (remove1 a xs)"
proof -
  from detach_law [OF assms] obtain h' where h: "detach h (Some a) = Some h'" "rep h' head (remove1 a xs)" by blast
  have "rep (h'(a := None)) head (remove1 a xs)"
    by (rule rep_frame [OF h(2)]) (use left_out [OF assms] in auto)
  then show thesis using that h(1) by blast
qed

text \<open>Moving a node to the end.\<close>

lemma move_last:
  assumes "rep h head xs" "a \<in> set xs"
  obtains h1 h2 where "detach h (Some a) = Some h1" "insert_before h1 (Some head) (Some a) = Some h2"
    "rep h2 head (remove1 a xs @ [a])"
proof -
  from detach_law [OF assms] obtain h1 where
    h: "detach h (Some a) = Some h1" "rep h1 head (remove1 a xs)" "h1 a \<noteq> None" by blast
  from insert_law [OF h(2) left_out [OF assms] h(3)] show thesis using that h(1) by blast
qed

text \<open>A new object at the end.\<close>

lemma push_last:
  assumes "rep h head xs" "a \<notin> set (head # xs)"
  obtains h' where "insert_before (h(a \<mapsto> n)) (Some head) (Some a) = Some h'" "rep h' head (xs @ [a])"
proof -
  have "rep (h(a \<mapsto> n)) head xs" by (rule rep_frame [OF assms(1)]) (use assms(2) in auto)
  from insert_law [OF this assms(2)] show thesis using that by auto
qed

end

interpretation idle: intrusive_list dlist dlist_empty dlist_detach dlist_insert_before
proof
  fix h h' head xs and a :: addr
  assume d: "dlist h head xs"
  show dist: "distinct (head # xs)" using d by (simp add: dlist_def)
  show "dlist_empty h (Some head) = Some (xs = [])" by (rule dlist_empty_ok [OF d])
  show "h a \<noteq> None" if "a \<in> set (head # xs)" using dlist_nodes [OF d that] by auto
  show "dlist h' head xs" if "\<forall>a \<in> set (head # xs). h' a = h a" by (rule dlist_frame [OF d that])
  show "\<exists>h'. dlist_detach h (Some a) = Some h' \<and> dlist h' head (remove1 a xs) \<and> h' a \<noteq> None" if a: "a \<in> set xs"
  proof -
    obtain p q where xs: "xs = p @ a # q" using a by (meson split_list)
    then have rm: "remove1 a xs = p @ q" using dist by (auto simp: remove1_append)
    obtain n where "h a = Some n" using dlist_nodes [OF d, of a] a by auto
    with dlist_detach_ok [OF d [unfolded xs]] show ?thesis unfolding rm by (metis option.distinct(1))
  qed
  show "\<exists>h'. dlist_insert_before h (Some head) (Some a) = Some h' \<and> dlist h' head (xs @ [a])"
    if "a \<notin> set (head # xs)" "h a \<noteq> None"
    using dlist_insert_before_ok [OF d that] by blast
qed

end
