(* ===== verification/Conn.thy ===== *)
theory Conn
  imports KeyRefine IdleList
begin

text \<open>
  \<^verbatim>\<open>lib/server/conn.cpp\<close>: the connections.  A \<^verbatim>\<open>Conn\<close> at address \<open>a\<close> is the record at \<open>a\<close> of
  one store and the list node at \<open>a\<close> of another; the idle list is headed by the node
  \<open>idle_head\<close>.  What the system calls return is an argument: the descriptor \<^verbatim>\<open>accept\<close>
  yields, the bytes \<^verbatim>\<open>read\<close> delivers, what \<^verbatim>\<open>write\<close> does with a buffer, and the clock.
  The last section specifies how a byte stream is cut into requests (\<open>split_reqs\<close>);
  \<^verbatim>\<open>Pipeline\<close> shows that the server answers exactly those, in order.
\<close>

section \<open>Data\<close>

record conn =
  c_fd :: nat
  want_read :: bool
  want_write :: bool
  want_close :: bool
  incoming :: bytes
  outgoing :: bytes
  last_active :: u64

text \<open>The rest of \<^verbatim>\<open>g_data\<close>.\<close>

record srv =
  kv :: kvs
  conns :: "addr \<rightharpoonup> conn"
  dl :: dheap
  fd2conn :: "ptr list"
  cbrk :: addr

text \<open>What \<^verbatim>\<open>accept\<close> yields: nothing, or a descriptor, with its flags and the values of \<^verbatim>\<open>errno\<close> after
  the calls of \<^verbatim>\<open>fcntl\<close> that read and set them.\<close>

record newfd =
  n_fd :: nat
  n_getfl :: int
  n_flags :: u32
  n_setfl :: int

definition idle_head :: addr where
  "idle_head = 0"

datatype rres = RAgain | RError | RData bytes      \<comment> \<open>no bytes: end of file\<close>
datatype wres = WAgain | WError | Wrote nat

section \<open>Operations\<close>

definition set_conn :: "srv \<Rightarrow> addr \<Rightarrow> conn \<Rightarrow> srv" where
  "set_conn s a c = s\<lparr>conns := (conns s)(a \<mapsto> c)\<rparr>"

text \<open>\<^verbatim>\<open>die\<close> aborts, as a failed assertion does.\<close>

definition handle_accept :: "u64 \<Rightarrow> srv \<Rightarrow> newfd option \<Rightarrow> (int \<times> srv) option" where
  "handle_accept now s accepted = (case accepted of
     None \<Rightarrow> Some (- 1, s)
   | Some new \<Rightarrow> do {
       let connfd = n_fd new;
       c_assert (\<not> isl (fd_set_nb (n_getfl new) (n_flags new) (n_setfl new)));
       let conn = cbrk s;
       let s = set_conn s conn \<lparr>c_fd = connfd, want_read = True, want_write = False, want_close = False,
         incoming = [], outgoing = [], last_active = now\<rparr>;
       let s = s\<lparr>dl := (dl s)(conn \<mapsto> \<lparr>d_prev = NULL, d_next = NULL\<rparr>), cbrk := conn + 1\<rparr>;
       h \<leftarrow> dlist_insert_before (dl s) (Some idle_head) (Some conn);
       let fds = (if length (fd2conn s) \<le> connfd
                  then fd2conn s @ replicate (connfd + 1 - length (fd2conn s)) NULL else fd2conn s);
       old \<leftarrow> arr_get fds connfd;
       c_assert (old = NULL);
       fds \<leftarrow> arr_set fds connfd (Some conn);
       Some (0, s\<lparr>dl := h, fd2conn := fds\<rparr>)
     })"

text \<open>\<^verbatim>\<open>&conn->incoming[4]\<close> is the address of the body, which may be empty.\<close>

definition try_one_request :: "u64 \<Rightarrow> srv \<Rightarrow> addr \<Rightarrow> (bool \<times> srv) option" where
  "try_one_request now s conn = do {
     c \<leftarrow> conns s conn;
     if length (incoming c) < 4 then Some (False, s)
     else do {
       let len = u32_of_bytes (take 4 (incoming c));
       if unat len > K_MAX_MSG then Some (False, set_conn s conn (c\<lparr>want_close := True\<rparr>))
       else if unat (4 + len) > length (incoming c) then Some (False, s)
       else do {
         let request = take (unat len) (drop 4 (incoming c));
         let (rc, cmd) = parse_req request [];
         if rc < 0 then Some (False, set_conn s conn (c\<lparr>want_close := True\<rparr>))
         else do {
           let (out, header_pos) = response_begin (outgoing c);
           (k, out) \<leftarrow> do_request now (kv s) cmd out;
           out \<leftarrow> response_end out header_pos;
           inp \<leftarrow> buf_consume (incoming c) (unat (4 + len));
           Some (True, set_conn (s\<lparr>kv := k\<rparr>) conn (c\<lparr>outgoing := out, incoming := inp\<rparr>))
         }
       }
     }
   }"

text \<open>The first component is what went out on the socket.\<close>

definition handle_write :: "srv \<Rightarrow> addr \<Rightarrow> (bytes \<Rightarrow> wres) \<Rightarrow> (bytes \<times> srv) option" where
  "handle_write s conn writer = do {
     c \<leftarrow> conns s conn;
     c_assert (length (outgoing c) > 0);
     (case writer (outgoing c) of
        WAgain \<Rightarrow> Some ([], s)
      | WError \<Rightarrow> Some ([], set_conn s conn (c\<lparr>want_close := True\<rparr>))
      | Wrote n \<Rightarrow> do {
          out \<leftarrow> buf_consume (outgoing c) n;
          let c' = c\<lparr>outgoing := out\<rparr>;
          let c' = (if out = [] then c'\<lparr>want_read := True, want_write := False\<rparr> else c');
          Some (take n (outgoing c), set_conn s conn c')
        })
   }"

text \<open>The clock is read once for each request: \<open>clk i\<close> is the reading for the \<open>i\<close>-th.\<close>

partial_function (option) request_loop :: "(nat \<Rightarrow> u64) \<Rightarrow> nat \<Rightarrow> srv \<Rightarrow> addr \<Rightarrow> srv option" where
  "request_loop clk i s conn = do {
     (more, s) \<leftarrow> try_one_request (clk i) s conn;
     if more then request_loop clk (i + 1) s conn else Some s
   }"

definition handle_read :: "(nat \<Rightarrow> u64) \<Rightarrow> srv \<Rightarrow> addr \<Rightarrow> rres \<Rightarrow> (bytes \<Rightarrow> wres) \<Rightarrow> (bytes \<times> srv) option" where
  "handle_read clk s conn rv writer = do {
     c \<leftarrow> conns s conn;
     (case rv of
        RAgain \<Rightarrow> Some ([], s)
      | RError \<Rightarrow> Some ([], set_conn s conn (c\<lparr>want_close := True\<rparr>))
      | RData buf \<Rightarrow>
          if buf = [] then Some ([], set_conn s conn (c\<lparr>want_close := True\<rparr>))
          else do {
            let s = set_conn s conn (c\<lparr>incoming := buf_append (incoming c) buf\<rparr>);
            s \<leftarrow> request_loop clk 0 s conn;
            c \<leftarrow> conns s conn;
            if length (outgoing c) > 0
            then handle_write (set_conn s conn (c\<lparr>want_read := False, want_write := True\<rparr>)) conn writer
            else Some ([], s)
          })
   }"

definition conn_destroy :: "srv \<Rightarrow> addr \<Rightarrow> srv option" where
  "conn_destroy s conn = do {
     c \<leftarrow> conns s conn;
     fds \<leftarrow> arr_set (fd2conn s) (c_fd c) NULL;
     h \<leftarrow> dlist_detach (dl s) (Some conn);
     Some (s\<lparr>fd2conn := fds, dl := h(conn := None), conns := (conns s)(conn := None)\<rparr>)
   }"

section \<open>Cutting the stream into requests\<close>

text \<open>The commands of the complete requests at the front, what is left, and whether what is
  left is malformed.\<close>

function split_reqs :: "bytes \<Rightarrow> bytes list list \<times> bytes \<times> bool" where
  "split_reqs inp =
     (if length inp < 4 then ([], inp, False)
      else let len = unat (u32_of_bytes (take 4 inp)) in
        if len > K_MAX_MSG then ([], inp, True)
        else if 4 + len > length inp then ([], inp, False)
        else let (rc, cmd) = parse_req (take len (drop 4 inp)) [] in
          if rc < 0 then ([], inp, True)
          else let (cmds, rest, bad) = split_reqs (drop (4 + len) inp) in (cmd # cmds, rest, bad))"
  by pat_completeness auto
termination
  by (relation "measure length") auto

declare split_reqs.simps [simp del]

end
