(* ===== verification/Client.thy ===== *)
theory Client
  imports Wire
begin

text \<open>
  \<^verbatim>\<open>lib/client/query.cpp\<close>: full reads and writes over partial system calls, request
  encoding, and the response printer, whose output is modelled as the list of its
  \<^verbatim>\<open>printf\<close> and \<^verbatim>\<open>msg\<close> calls.
\<close>

section \<open>Reading and writing everything\<close>

text \<open>The system calls are parameters: \<open>rd s n\<close> and \<open>wr s bs\<close> act on the state \<open>s\<close> of the
  descriptor.  \<open>rd\<close> returns the bytes it stored, or \<open>None\<close> for an error; no bytes mean end of
  file.  \<open>wr\<close> returns how many bytes it took, or a negative number.\<close>

function read_full ::
  "('s \<Rightarrow> nat \<Rightarrow> bytes option \<times> 's) \<Rightarrow> 's \<Rightarrow> bytes \<Rightarrow> nat \<Rightarrow> (int \<times> bytes \<times> 's) option" where
  "read_full rd s buf n =
     (if n > 0 then
        (case rd s n of
           (None, s) \<Rightarrow> Some (- 1, buf, s)
         | (Some [], s) \<Rightarrow> Some (- 1, buf, s)
         | (Some (b # bs), s) \<Rightarrow>
             if length (b # bs) \<le> n
             then read_full rd s (buf @ b # bs) (n - length (b # bs))
             else UB)
      else Some (0, buf, s))"
  by pat_completeness auto
termination
  by (relation "measure (\<lambda>(rd, s, buf, n). n)") auto

function write_all ::
  "('s \<Rightarrow> bytes \<Rightarrow> int \<times> 's) \<Rightarrow> 's \<Rightarrow> bytes \<Rightarrow> (int \<times> 's) option" where
  "write_all wr s buf =
     (if length buf > 0 then
        (case wr s buf of (rv, s) \<Rightarrow>
           if rv \<le> 0 then Some (- 1, s)
           else if nat rv \<le> length buf then write_all wr s (drop (nat rv) buf)
           else UB)
      else Some (0, s))"
  by pat_completeness auto
termination
  by (relation "measure (\<lambda>(wr, s, buf). length buf)") auto

declare read_full.simps [simp del] write_all.simps [simp del]

section \<open>Sending a request\<close>

text \<open>The request length is a \<^verbatim>\<open>uint32_t\<close> that wraps around.  \<open>wbuf\<close> is the uninitialised
  local array.\<close>

definition req_len :: "bytes list \<Rightarrow> u32" where
  "req_len cmd = foldl (\<lambda>len s. len + ucast (4 + of_nat (length s) :: size_t)) 4 cmd"

fun put_args :: "bytes list \<Rightarrow> bytes \<Rightarrow> nat \<Rightarrow> bytes option" where
  "put_args [] wbuf cur = Some wbuf"
| "put_args (s # ss) wbuf cur = do {
     wbuf \<leftarrow> buf_write wbuf cur (bytes_of_u32 (of_nat (length s)));
     wbuf \<leftarrow> buf_write wbuf (cur + 4) s;
     put_args ss wbuf (cur + (4 + length s))
   }"

definition send_req ::
  "bytes \<Rightarrow> ('s \<Rightarrow> bytes \<Rightarrow> int \<times> 's) \<Rightarrow> 's \<Rightarrow> bytes list \<Rightarrow> (int \<times> 's) option" where
  "send_req wbuf wr s cmd =
     (let len = req_len cmd
      in if unat len > K_MAX_MSG then Some (- 1, s)
         else do {
           wbuf \<leftarrow> buf_write wbuf 0 (bytes_of_u32 len);
           wbuf \<leftarrow> buf_write wbuf 4 (bytes_of_u32 (of_nat (length cmd)));
           wbuf \<leftarrow> put_args cmd wbuf 8;
           write_all wr s (take (unat (4 + len)) wbuf)
         })"

section \<open>Printing a response\<close>

datatype event =
  PrNil | PrErr u32 bytes | PrStr bytes | PrInt i64 | PrDbl u64 | PrArr u32 | PrEnd | BadResponse

text \<open>What \<^verbatim>\<open>printf("%.*s", len, p)\<close> prints when \<open>mem\<close> is the memory from \<open>p\<close> on: at most
  \<open>len\<close> bytes of the string; a negative precision counts as none, and then the string must end
  inside the memory.\<close>

definition fmt_str :: "u32 \<Rightarrow> bytes \<Rightarrow> bytes option" where
  "fmt_str len mem =
     (if sint len < 0
      then (if 0 \<in> set mem then Some (c_str mem) else UB)
      else if unat len \<le> length mem \<or> 0 \<in> set mem then Some (c_str (take (unat len) mem)) else UB)"

text \<open>The result is the return code, an \<^verbatim>\<open>int32_t\<close> computed in 32-bit unsigned arithmetic, and
  the events.  \<open>print_elems rest n off\<close> is the loop over the remaining \<open>n\<close> elements, where
  \<open>rest\<close> is the data from offset \<open>off\<close> on.\<close>

function print_response :: "bytes \<Rightarrow> (int \<times> event list) option"
  and print_elems :: "bytes \<Rightarrow> nat \<Rightarrow> nat \<Rightarrow> (int \<times> event list) option" where
  "print_response data =
     (if length data < 1 then Some (- 1, [BadResponse])
      else if hd data = tag_code TAG_NIL then Some (1, [PrNil])
      else if hd data = tag_code TAG_ERR then
        (if length data < 1 + 8 then Some (- 1, [BadResponse])
         else
           let code = u32_of_bytes (take 4 (drop 1 data));
               len = u32_of_bytes (take 4 (drop 5 data))
           in if length data < unat (1 + 8 + len) then Some (- 1, [BadResponse])
              else do { t \<leftarrow> fmt_str len (drop 9 data); Some (sint (1 + 8 + len), [PrErr code t]) })
      else if hd data = tag_code TAG_STR then
        (if length data < 1 + 4 then Some (- 1, [BadResponse])
         else
           let len = u32_of_bytes (take 4 (drop 1 data))
           in if length data < unat (1 + 4 + len) then Some (- 1, [BadResponse])
              else do { t \<leftarrow> fmt_str len (drop 5 data); Some (sint (1 + 4 + len), [PrStr t]) })
      else if hd data = tag_code TAG_INT then
        (if length data < 1 + 8 then Some (- 1, [BadResponse])
         else Some (1 + 8, [PrInt (u64_of_bytes (take 8 (drop 1 data)))]))
      else if hd data = tag_code TAG_DBL then
        (if length data < 1 + 8 then Some (- 1, [BadResponse])
         else Some (1 + 8, [PrDbl (u64_of_bytes (take 8 (drop 1 data)))]))
      else if hd data = tag_code TAG_ARR then
        (if length data < 1 + 4 then Some (- 1, [BadResponse])
         else do {
           let len = u32_of_bytes (take 4 (drop 1 data));
           (rv, es) \<leftarrow> print_elems (drop 5 data) (unat len) 5;
           Some (rv, PrArr len # es)
         })
      else Some (- 1, [BadResponse]))"
| "print_elems rest n off =
     (if n > 0 then do {
        (rv, es) \<leftarrow> print_response rest;
        if rv < 0 then Some (rv, es)
        else do {
          (rv, es') \<leftarrow> print_elems (drop (nat rv) rest) (n - 1) (off + nat rv);
          Some (rv, es @ es')
        }
      }
      else Some (sint (of_nat off :: u32), [PrEnd]))"
  by pat_completeness auto
termination
  by (relation "measures [\<lambda>x. case x of Inl data \<Rightarrow> length data | Inr (rest, n, off) \<Rightarrow> length rest,
    \<lambda>x. case x of Inl data \<Rightarrow> 0 | Inr (rest, n, off) \<Rightarrow> Suc n]") auto

declare print_response.simps [simp del] print_elems.simps [simp del]

section \<open>Reading a response\<close>

text \<open>The messages that \<^verbatim>\<open>read_res\<close> itself logs are left out; its result and what is printed
  remain.\<close>

definition read_res ::
  "('s \<Rightarrow> nat \<Rightarrow> bytes option \<times> 's) \<Rightarrow> 's \<Rightarrow> (int \<times> event list \<times> 's) option" where
  "read_res rd s = do {
     (err, rbuf, s) \<leftarrow> read_full rd s [] 4;
     if err \<noteq> 0 then Some (err, [], s)
     else do {
       let len = u32_of_bytes rbuf;
       if unat len > K_MAX_MSG then Some (- 1, [], s)
       else do {
         (err, body, s) \<leftarrow> read_full rd s [] (unat len);
         if err \<noteq> 0 then Some (err, [], s)
         else do {
           (rv, es) \<leftarrow> print_response body;
           Some (if rv > 0 \<and> nat rv \<noteq> unat len then - 1 else rv, es, s)
         }
       }
     }
   }"

section \<open>Descriptors that make progress\<close>

text \<open>What POSIX promises of \<^verbatim>\<open>write\<close> on a healthy blocking socket: it takes at least one byte
  and at most all of them.  \<open>out s\<close> is everything written so far.\<close>

definition sink :: "('s \<Rightarrow> bytes \<Rightarrow> int \<times> 's) \<Rightarrow> ('s \<Rightarrow> bytes) \<Rightarrow> bool" where
  "sink wr out \<longleftrightarrow> (\<forall>s bs. bs \<noteq> [] \<longrightarrow> (\<exists>k s'. wr s bs = (int k, s') \<and> 0 < k \<and> k \<le> length bs \<and>
     out s' = out s @ take k bs))"

text \<open>And of \<^verbatim>\<open>read\<close>: as long as bytes are pending it returns some of them, in order.\<close>

definition source :: "('s \<Rightarrow> nat \<Rightarrow> bytes option \<times> 's) \<Rightarrow> ('s \<Rightarrow> bytes) \<Rightarrow> bool" where
  "source rd pend \<longleftrightarrow> (\<forall>s n. 0 < n \<and> pend s \<noteq> [] \<longrightarrow> (\<exists>k s'. rd s n = (Some (take k (pend s)), s') \<and>
     0 < k \<and> k \<le> n \<and> k \<le> length (pend s) \<and> pend s' = drop k (pend s)))"

lemma write_all_sink:
  assumes "sink wr out"
  shows "\<exists>s'. write_all wr s buf = Some (0, s') \<and> out s' = out s @ buf"
proof (induction buf arbitrary: s rule: length_induct)
  case (1 buf)
  show ?case
  proof (cases "buf = []")
    case True
    then show ?thesis by (simp add: write_all.simps)
  next
    case False
    with assms obtain k s1 where k: "wr s buf = (int k, s1)" "0 < k" "k \<le> length buf"
      "out s1 = out s @ take k buf" unfolding sink_def by blast
    have "length (drop k buf) < length buf" using k by simp
    with 1 obtain s' where "write_all wr s1 (drop k buf) = Some (0, s')" "out s' = out s1 @ drop k buf"
      by blast
    moreover have "write_all wr s buf = write_all wr s1 (drop k buf)"
      using False k by (subst write_all.simps) simp
    ultimately show ?thesis using k(4) by simp
  qed
qed

lemma read_full_source:
  assumes "source rd pend"
  shows "n \<le> length (pend s) \<Longrightarrow>
    \<exists>s'. read_full rd s buf n = Some (0, buf @ take n (pend s), s') \<and> pend s' = drop n (pend s)"
proof (induction n arbitrary: s buf rule: less_induct)
  case (less n)
  show ?case
  proof (cases "n = 0")
    case True
    then show ?thesis by (simp add: read_full.simps)
  next
    case False
    then have "0 < n \<and> pend s \<noteq> []" using less.prems by auto
    with assms obtain k s1 where k: "rd s n = (Some (take k (pend s)), s1)" "0 < k" "k \<le> n"
      "k \<le> length (pend s)" "pend s1 = drop k (pend s)" unfolding source_def by blast
    obtain b bs where b: "take k (pend s) = b # bs" "length (b # bs) = k"
      using k(2,4) by (cases "take k (pend s)") (auto dest: arg_cong [of _ _ length])
    have le: "n - k < n" "n - k \<le> length (pend s1)" using k less.prems by auto
    obtain s' where r: "read_full rd s1 (buf @ take k (pend s)) (n - k) =
        Some (0, (buf @ take k (pend s)) @ take (n - k) (pend s1), s')" "pend s' = drop (n - k) (pend s1)"
      using less.IH [OF le, of "buf @ take k (pend s)"] by auto
    have "read_full rd s buf n = read_full rd s1 (buf @ take k (pend s)) (n - k)"
      using False k(1,3) b by (subst read_full.simps) simp
    moreover have "take n (pend s) = take k (pend s) @ take (n - k) (drop k (pend s))"
      using k(3) take_add [of k "n - k" "pend s"] by simp
    ultimately show ?thesis using r k(3,5) by simp
  qed
qed

section \<open>Requests\<close>

lemma req_len_foldl:
  "foldl (\<lambda>len s. len + ucast (4 + of_nat (length s) :: size_t)) a cmd = a + (of_nat (length (enc_args cmd)) :: u32)"
proof (induction cmd arbitrary: a)
  case (Cons s ss)
  have "(ucast (4 + of_nat (length s) :: size_t) :: u32) = 4 + of_nat (length s)"
    using ucast_of_nat_u64 [of "4 + length s"] by simp
  with Cons.IH show ?case by simp
qed simp

lemma length_enc_req: "length (enc_req cmd) = 4 + length (enc_args cmd)"
  by (simp add: enc_req_def)

lemma req_len_enc: "req_len cmd = of_nat (length (enc_req cmd))"
  by (simp add: req_len_def req_len_foldl length_enc_req)

lemma put_args_enc:
  "cur + length (enc_args cmd) \<le> length wbuf \<Longrightarrow>
   put_args cmd wbuf cur = Some (take cur wbuf @ enc_args cmd @ drop (cur + length (enc_args cmd)) wbuf)"
proof (induction cmd arbitrary: wbuf cur)
  case (Cons s ss)
  let ?w = "take cur wbuf @ bytes_of_u32 (of_nat (length s)) @ drop (cur + 4) wbuf"
  let ?v = "take cur wbuf @ bytes_of_u32 (of_nat (length s)) @ s @ drop (cur + 4 + length s) wbuf"
  have w: "buf_write wbuf cur (bytes_of_u32 (of_nat (length s))) = Some ?w"
    using Cons.prems by (simp add: buf_write_def)
  have v: "buf_write ?w (cur + 4) s = Some ?v"
    using Cons.prems by (simp add: buf_write_def add.commute add.left_commute)
  have "put_args (s # ss) wbuf cur = put_args ss ?v (cur + (4 + length s))"
    by (simp add: w v)
  also have "\<dots> = Some (take (cur + (4 + length s)) ?v @ enc_args ss @
      drop (cur + (4 + length s) + length (enc_args ss)) ?v)"
    by (rule Cons.IH) (use Cons.prems in simp)
  finally show ?case using Cons.prems by (simp add: ac_simps)
qed simp

lemma send_req_enc:
  assumes "sink wr out" "length wbuf = 4 + K_MAX_MSG" "length (enc_req cmd) < 2 ^ 32"
  shows "length (enc_req cmd) \<le> K_MAX_MSG \<Longrightarrow>
      \<exists>s'. send_req wbuf wr s cmd = Some (0, s') \<and> out s' = out s @ frame (enc_req cmd)"
    and "K_MAX_MSG < length (enc_req cmd) \<Longrightarrow> send_req wbuf wr s cmd = Some (- 1, s)"
proof -
  have len: "unat (req_len cmd) = length (enc_req cmd)"
    unfolding req_len_enc by (rule unat_of_nat_u32 [OF assms(3)])
  show "send_req wbuf wr s cmd = Some (- 1, s)" if "K_MAX_MSG < length (enc_req cmd)"
    using that by (simp add: send_req_def len)
  assume le: "length (enc_req cmd) \<le> K_MAX_MSG"
  let ?w = "bytes_of_u32 (req_len cmd) @ drop 4 wbuf"
  let ?v = "bytes_of_u32 (req_len cmd) @ bytes_of_u32 (of_nat (length cmd)) @ drop 8 wbuf"
  have w: "buf_write wbuf 0 (bytes_of_u32 (req_len cmd)) = Some ?w"
    using assms(2) by (simp add: buf_write_def)
  have v: "buf_write ?w 4 (bytes_of_u32 (of_nat (length cmd))) = Some ?v"
    using assms(2) by (simp add: buf_write_def K_MAX_MSG_def)
  have p: "put_args cmd ?v 8 = Some (take 8 ?v @ enc_args cmd @ drop (8 + length (enc_args cmd)) ?v)"
    by (rule put_args_enc) (use le assms(2) in \<open>simp add: length_enc_req K_MAX_MSG_def\<close>)
  have n: "unat (4 + req_len cmd) = 4 + length (enc_req cmd)"
    using unat_of_nat_u32 [of "4 + length (enc_req cmd)"] le by (simp add: req_len_enc K_MAX_MSG_def)
  have t: "take (4 + length (enc_req cmd)) (take 8 ?v @ enc_args cmd @ drop (8 + length (enc_args cmd)) ?v) =
      frame (enc_req cmd)"
    by (simp add: frame_def req_len_enc length_enc_req) (simp add: enc_req_def)
  have "send_req wbuf wr s cmd = write_all wr s (take (4 + length (enc_req cmd))
      (take 8 ?v @ enc_args cmd @ drop (8 + length (enc_args cmd)) ?v))"
    using le by (simp add: send_req_def len w v p n Let_def)
  also have "\<dots> = write_all wr s (frame (enc_req cmd))" by (simp only: t)
  finally have "send_req wbuf wr s cmd = write_all wr s (frame (enc_req cmd))" .
  with write_all_sink [OF assms(1)] show
    "\<exists>s'. send_req wbuf wr s cmd = Some (0, s') \<and> out s' = out s @ frame (enc_req cmd)" by simp
qed

section \<open>Responses\<close>

text \<open>What a user sees of a reply.\<close>

fun events :: "reply \<Rightarrow> event list" where
  "events VNil = [PrNil]"
| "events (VErr c m) = [PrErr c (c_str m)]"
| "events (VStr s) = [PrStr (c_str s)]"
| "events (VInt i) = [PrInt i]"
| "events (VDbl d) = [PrDbl d]"
| "events (VArr vs) = PrArr (of_nat (length vs)) # concat (map events vs) @ [PrEnd]"

lemma sint_small: "n < 2 ^ 31 \<Longrightarrow> sint (of_nat n :: u32) = int n"
  by (simp add: signed_of_nat signed_take_bit_int_eq_self)

lemma fmt_str_ok: "length s < 2 ^ 31 \<Longrightarrow> fmt_str (of_nat (length s)) (s @ rest) = Some (c_str s)"
  by (simp add: fmt_str_def sint_small unat_of_nat_u32)

lemma le_length_concat: "\<forall>x \<in> set xs. 1 \<le> length (f x) \<Longrightarrow> length xs \<le> length (concat (map f xs))"
  by (induction xs) auto

lemma length_encode_pos: "1 \<le> length (encode v)"
  using encode_nonempty [of v] by (cases "encode v") auto

lemma take_codec [simp]:
  "take 4 (bytes_of_u32 v @ xs) = bytes_of_u32 v" "take 8 (bytes_of_u64 w @ ys) = bytes_of_u64 w"
  by simp_all

lemma u32_codec_drop [simp]:
  "u32_of_bytes (bytes_of_u32 v) = v" "u64_of_bytes (bytes_of_u64 w) = w"
  by (simp_all add: u32c.dec_enc u64c.dec_enc)

lemma unat_len_add:
  "n + k < 2 ^ 31 \<Longrightarrow> unat (of_nat k + of_nat n :: u32) = k + n \<and> sint (of_nat k + of_nat n :: u32) = int (k + n)"
  using unat_of_nat_u32 [of "k + n"] sint_small [of "k + n"] by simp

text \<open>The printer on the elements of an array, given that it prints each of them.\<close>

lemma print_elems_encode:
  assumes "\<And>v rest. v \<in> set vs \<Longrightarrow> length (encode v) < 2 ^ 31 \<Longrightarrow>
      print_response (encode v @ rest) = Some (int (length (encode v)), events v)"
  shows "off + length (concat (map encode vs)) < 2 ^ 31 \<Longrightarrow>
    print_elems (concat (map encode vs) @ rest) (length vs) off =
      Some (int (off + length (concat (map encode vs))), concat (map events vs) @ [PrEnd])"
  using assms
proof (induction vs arbitrary: off)
  case Nil
  then show ?case by (simp add: print_elems.simps sint_small)
next
  case (Cons v vs)
  have "length (encode v) < 2 ^ 31" using Cons.prems(1) by simp
  then have hd: "print_response (encode v @ concat (map encode vs) @ rest) =
      Some (int (length (encode v)), events v)"
    using Cons.prems(2) by simp
  have tl: "print_elems (concat (map encode vs) @ rest) (length vs) (off + length (encode v)) =
      Some (int (off + length (encode v) + length (concat (map encode vs))), concat (map events vs) @ [PrEnd])"
    by (rule Cons.IH) (use Cons.prems in auto)
  show ?case
    by (subst print_elems.simps) (use hd tl in \<open>simp del: length_concat\<close>)
qed

lemma print_encode:
  "length (encode v) < 2 ^ 31 \<Longrightarrow>
   print_response (encode v @ rest) = Some (int (length (encode v)), events v)"
proof (induction v arbitrary: rest rule: encode.induct)
  case (2 c m)
  then show ?case
    using unat_len_add [of "length m" 9] fmt_str_ok [of m rest]
    by (subst print_response.simps) (simp add: Let_def)
next
  case (3 s)
  then show ?case
    using unat_len_add [of "length s" 5] fmt_str_ok [of s rest]
    by (subst print_response.simps) (simp add: Let_def)
next
  case (6 vs)
  let ?b = "concat (map encode vs)"
  have b: "5 + length ?b < 2 ^ 31" using 6(2) by simp
  have "length vs \<le> length ?b"
    by (rule le_length_concat) (rule ballI, rule length_encode_pos)
  then have n: "unat (of_nat (length vs) :: u32) = length vs"
    using b by (intro unat_of_nat_u32) simp
  have "print_elems (?b @ rest) (length vs) 5 = Some (int (5 + length ?b), concat (map events vs) @ [PrEnd])"
    by (rule print_elems_encode [OF _ b]) (rule 6(1))
  then show ?case
    by (subst print_response.simps) (simp add: Let_def n del: length_concat)
qed (subst print_response.simps, simp)+

text \<open>A whole reply, as it arrives in a stream.\<close>

lemma read_res_frame:
  assumes "source rd pend" "pend s = frame (encode v) @ rest" "length (encode v) \<le> K_MAX_MSG"
  shows "\<exists>s'. read_res rd s = Some (int (length (encode v)), events v, s') \<and> pend s' = rest"
proof -
  let ?n = "length (encode v)"
  have p: "pend s = bytes_of_u32 (of_nat ?n) @ encode v @ rest" using assms(2) by (simp add: frame_def)
  obtain s1 where h: "read_full rd s [] 4 = Some (0, bytes_of_u32 (of_nat ?n), s1)"
    "pend s1 = encode v @ rest"
    using read_full_source [OF assms(1), of 4 s "[]"] p by auto
  have n: "unat (of_nat ?n :: u32) = ?n"
    using assms(3) by (intro unat_of_nat_u32) (simp add: K_MAX_MSG_def)
  obtain s2 where b: "read_full rd s1 [] ?n = Some (0, encode v, s2)" "pend s2 = rest"
    using read_full_source [OF assms(1), of ?n s1 "[]"] h(2) by auto
  have "print_response (encode v) = Some (int ?n, events v)"
    using print_encode [of v "[]"] assms(3) by (simp add: K_MAX_MSG_def)
  then show ?thesis
    using h(1) b n assms(3) by (simp add: read_res_def Let_def)
qed

section \<open>Malformed responses\<close>

text \<open>No four consecutive bytes are a length that makes the 32-bit size computations wrap
  around.\<close>

definition no_huge :: "bytes \<Rightarrow> bool" where
  "no_huge data \<longleftrightarrow> (\<forall>i. unat (u32_of_bytes (take 4 (drop i data))) < 2 ^ 31)"

lemma no_huge_drop: "no_huge data \<Longrightarrow> no_huge (drop n data)"
  by (simp add: no_huge_def)

lemma no_huge_len: "no_huge data \<Longrightarrow> unat (u32_of_bytes (take 4 (drop i data))) < 2 ^ 31"
  by (simp add: no_huge_def)

lemma len_check:
  fixes len :: u32
  assumes "unat len < 2 ^ 31" "\<not> sz < unat (of_nat k + len)" "k < 2 ^ 10" "sz < 2 ^ 31"
  shows "k + unat len \<le> sz" "sint (of_nat k + len) = int (k + unat len)" "\<not> sint len < 0"
proof -
  have n: "of_nat k + len = of_nat (k + unat len)" by simp
  have u: "unat (of_nat k + len) = k + unat len"
    unfolding n by (rule unat_of_nat_u32) (use assms(1,3) in simp)
  then show le: "k + unat len \<le> sz" using assms(2) by simp
  show "sint (of_nat k + len) = int (k + unat len)"
    unfolding n by (rule sint_small) (use le assms(4) in simp)
  show "\<not> sint len < 0" using sint_small [OF assms(1)] by simp
qed

lemma fmt_str_total:
  "\<not> sint len < 0 \<Longrightarrow> k + unat len \<le> length mem \<Longrightarrow> \<exists>t. fmt_str len (drop k mem) = Some t"
  by (auto simp: fmt_str_def)

text \<open>A field whose length is checked without a wrap-around can be printed.\<close>

lemma counted_total:
  assumes "no_huge data" "length data < 2 ^ 31" "k \<le> 9" "len = u32_of_bytes (take 4 (drop j data))"
    and "\<not> length data < unat (of_nat k + len)"
  obtains t where "fmt_str len (drop k data) = Some t" "sint (of_nat k + len) \<le> int (length data)"
proof -
  have small: "unat len < 2 ^ 31" unfolding assms(4) by (rule no_huge_len [OF assms(1)])
  from len_check [OF small, of "length data" k] assms(2,3,5) have
    l: "k + unat len \<le> length data" "sint (of_nat k + len) = int (k + unat len)" "\<not> sint len < 0" by simp_all
  from l(1) have "int (k + unat len) \<le> int (length data)" by (simp only: of_nat_le_iff)
  with fmt_str_total [OF l(3,1)] l(2) show thesis using that by auto
qed

lemma print_err_total:
  assumes d: "no_huge data" "length data < 2 ^ 31" and t: "hd data = tag_code TAG_ERR"
  shows "\<exists>rv es. print_response data = Some (rv, es) \<and> rv \<le> int (length data)"
proof (cases "length data < 1 + 8 \<or> length data < unat (1 + 8 + u32_of_bytes (take 4 (drop 5 data)))")
  case True
  with t show ?thesis by (subst print_response.simps) (auto simp: Let_def)
next
  case False
  with counted_total [OF d, of 9 _ 5] obtain x where
    "fmt_str (u32_of_bytes (take 4 (drop 5 data))) (drop 9 data) = Some x"
    "sint (9 + u32_of_bytes (take 4 (drop 5 data))) \<le> int (length data)" by auto
  with False t show ?thesis by (subst print_response.simps) (simp add: Let_def)
qed

lemma print_str_total:
  assumes d: "no_huge data" "length data < 2 ^ 31" and t: "hd data = tag_code TAG_STR"
  shows "\<exists>rv es. print_response data = Some (rv, es) \<and> rv \<le> int (length data)"
proof (cases "length data < 1 + 4 \<or> length data < unat (1 + 4 + u32_of_bytes (take 4 (drop 1 data)))")
  case True
  with t show ?thesis by (subst print_response.simps) (auto simp: Let_def)
next
  case False
  with counted_total [OF d, of 5 _ 1] obtain x where
    "fmt_str (u32_of_bytes (take 4 (drop 1 data))) (drop 5 data) = Some x"
    "sint (5 + u32_of_bytes (take 4 (drop 1 data))) \<le> int (length data)" by auto
  with False t show ?thesis by (subst print_response.simps) (simp add: Let_def)
qed

lemma print_total:
  "no_huge data \<Longrightarrow> length data < 2 ^ 31 \<Longrightarrow>
     \<exists>rv es. print_response data = Some (rv, es) \<and> rv \<le> int (length data)"
  "no_huge rest \<Longrightarrow> off + length rest < 2 ^ 31 \<Longrightarrow>
     \<exists>rv es. print_elems rest n off = Some (rv, es) \<and> rv \<le> int (off + length rest)"
proof (induction data and rest n off rule: print_response_print_elems.induct)
  case (1 data)
  consider "hd data = tag_code TAG_ERR" | "hd data = tag_code TAG_STR"
    | "hd data = tag_code TAG_ARR" "\<not> length data < 1 + 4"
    | "hd data \<noteq> tag_code TAG_ERR" "hd data \<noteq> tag_code TAG_STR" "hd data = tag_code TAG_ARR \<Longrightarrow> length data < 1 + 4"
    by blast
  then show ?case
  proof cases
    case 3
    have "\<exists>rv es. print_elems (drop 5 data) (unat (u32_of_bytes (take 4 (drop 1 data)))) 5 = Some (rv, es) \<and>
        rv \<le> int (5 + length (drop 5 data))"
      by (rule 1(1)) (use 3 1(2,3) in \<open>auto simp: no_huge_drop\<close>)
    with 3 show ?thesis by (subst print_response.simps) (auto simp: Let_def)
  next
    case 4
    then show ?thesis by (subst print_response.simps) (auto simp: Let_def Suc_le_eq)
  qed (use print_err_total print_str_total 1(2,3) in blast)+
next
  case (2 rest n off)
  show ?case
  proof (cases "n > 0")
    case False
    with 2 show ?thesis by (subst print_elems.simps) (simp add: sint_small)
  next
    case True
    from 2(1) [OF True 2(3)] 2(4) obtain rv es where
      r: "print_response rest = Some (rv, es)" "rv \<le> int (length rest)" by auto
    show ?thesis
    proof (cases "rv < 0")
      case neg: True
      with True r show ?thesis by (subst print_elems.simps) simp
    next
      case False
      have "\<exists>rv' es'. print_elems (drop (nat rv) rest) (n - 1) (off + nat rv) = Some (rv', es') \<and>
          rv' \<le> int (off + nat rv + length (drop (nat rv) rest))"
        by (rule 2(2) [OF True r(1) refl False]) (use 2(3,4) r(2) False in \<open>auto simp: no_huge_drop\<close>)
      with True r False show ?thesis by (subst print_elems.simps) auto
    qed
  qed
qed

section \<open>Properties\<close>

text \<open>A descriptor for the witnesses that moves at most three bytes per call.\<close>

definition ex_write :: "bytes \<Rightarrow> bytes \<Rightarrow> int \<times> bytes" where
  "ex_write s bs = (int (min 3 (length bs)), s @ take 3 bs)"

definition ex_read :: "bytes \<Rightarrow> nat \<Rightarrow> bytes option \<times> bytes" where
  "ex_read s n = (Some (take (min 3 n) s), drop (min 3 n) s)"

lemma sink_ex_write: "sink ex_write (\<lambda>s. s)"
  unfolding sink_def
proof (intro allI impI)
  fix s bs :: bytes assume "bs \<noteq> []"
  then show "\<exists>k s'. ex_write s bs = (int k, s') \<and> 0 < k \<and> k \<le> length bs \<and> s' = s @ take k bs"
    by (intro exI [of _ "min 3 (length bs)"]) (auto simp: ex_write_def min_def)
qed

lemma source_ex_read: "source ex_read (\<lambda>s. s)"
  unfolding source_def
proof (intro allI impI)
  fix s :: bytes and n :: nat assume "0 < n \<and> s \<noteq> []"
  then show "\<exists>k s'. ex_read s n = (Some (take k s), s') \<and> 0 < k \<and> k \<le> n \<and> k \<le> length s \<and> s' = drop k s"
    by (intro exI [of _ "min (min 3 n) (length s)"]) (auto simp: ex_read_def min_def)
qed

lemma req_ok_short: "length (enc_req cmd) \<le> K_MAX_MSG \<Longrightarrow> req_ok cmd"
proof -
  assume len: "length (enc_req cmd) \<le> K_MAX_MSG"
  have "length cmd \<le> length (enc_args cmd)" "\<forall>s \<in> set cmd. length s \<le> length (enc_args cmd)"
    by (induction cmd) auto
  with len show "req_ok cmd" by (force simp: req_ok_def length_enc_req K_MAX_ARGS_def K_MAX_MSG_def)
qed

text \<open>C30: requests survive the connection.  Over any descriptor whose writes make progress,
  however it splits them, \<open>send_req\<close> writes one frame with the encoded command, and the server's
  \<open>parse_req\<close> reads exactly that command back from the frame's body.\<close>

theorem send_req_correct:
  assumes "sink wr out" "length wbuf = 4 + K_MAX_MSG" "length (enc_req cmd) \<le> K_MAX_MSG"
  shows "\<exists>s'. send_req wbuf wr s cmd = Some (0, s') \<and> out s' = out s @ frame (enc_req cmd) \<and>
           parse_req (enc_req cmd) [] = (0, cmd)"
proof -
  have "length (enc_req cmd) < 2 ^ 32" using assms(3) by (simp add: K_MAX_MSG_def)
  from send_req_enc(1) [OF assms(1,2) this assms(3)] parse_req_enc [OF req_ok_short [OF assms(3)]]
  show ?thesis by blast
qed

theorem send_req_correct_witness:
  "\<exists>s'. send_req (replicate 4100 0) ex_write [] [[103, 101, 116], [107]] = Some (0, s') \<and>
     s' = [] @ frame (enc_req [[103, 101, 116], [107]]) \<and>
     parse_req (enc_req [[103, 101, 116], [107]]) [] = (0, [[103, 101, 116], [107]])"
  by (rule send_req_correct [OF sink_ex_write]) (simp_all add: K_MAX_MSG_def length_enc_req)

text \<open>C31: replies survive the connection.  When a framed reply is next in the stream, however the
  reads split it, \<open>read_res\<close> consumes exactly that frame, returns its length and prints the reply
  the server encoded, nested arrays included.\<close>

theorem read_res_correct:
  assumes "source rd pend" "pend s = frame (encode v) @ rest" "length (encode v) \<le> K_MAX_MSG"
  shows "\<exists>s'. read_res rd s = Some (int (length (encode v)), events v, s') \<and> pend s' = rest"
  by (rule read_res_frame [OF assms])

theorem read_res_correct_witness:
  "\<exists>s'. read_res ex_read (frame (encode (VArr [VInt 7, VNil])) @ [1]) =
     Some (int (length (encode (VArr [VInt 7, VNil]))), events (VArr [VInt 7, VNil]), s') \<and> s' = [1]"
  by (rule read_res_correct [OF source_ex_read refl]) (simp add: K_MAX_MSG_def)




end
