(* ===== verification/Pipeline.thy ===== *)
theory Pipeline
  imports Conn Client
begin

text \<open>
  The byte streams of a connection (\<^verbatim>\<open>lib/server/conn.cpp\<close>).  \<open>request_loop_ok\<close>,
  \<open>handle_read_ok\<close> and \<open>handle_write_ok\<close> give what the callbacks do to a connection in terms of
  \<open>split_reqs\<close>, the runs of the abstract keyspace (\<open>kv_run\<close>) and the framed replies
  (\<open>reply_wire\<close>).  \<open>session\<close> is the life of one connection, interleaved with everything else
  the server does; the properties say that it answers the requests of its input, in order,
  whatever way the input is cut into reads.
\<close>

section \<open>Answers on the wire\<close>

text \<open>What \<open>response_end\<close> makes of a reply, with the size in \<^verbatim>\<open>size_t\<close>; below the limit it is
  the framed reply.\<close>

definition reply_wire :: "bytes \<Rightarrow> bytes" where
  "reply_wire body =
     (if (of_nat (length body) :: size_t) > of_nat K_MAX_MSG then frame too_big
      else bytes_of_u32 (ucast (of_nat (length body) :: size_t)) @ body)"

lemma reply_wire_frame: "length body \<le> K_MAX_MSG \<Longrightarrow> reply_wire body = frame body"
proof -
  assume "length body \<le> K_MAX_MSG"
  then have l: "length body \<le> 4096" by (simp add: K_MAX_MSG_def)
  then have "\<not> (of_nat (length body) :: size_t) > of_nat K_MAX_MSG"
    by (subst of_nat_u64_less) (auto simp: K_MAX_MSG_def)
  moreover have "ucast (of_nat (length body) :: size_t) = (of_nat (length body) :: u32)"
    using l by (intro ucast_card) simp
  ultimately show ?thesis by (simp add: reply_wire_def frame_def)
qed

lemma response_end_wire:
  assumes "response_begin out = (out1, hp)"
  shows "response_end (out1 @ body) hp = Some (out @ reply_wire body)"
proof -
  have b: "out1 @ body = out @ bytes_of_u32 0 @ body" "hp = length out"
    using assms by (auto simp: response_begin_def buf_defs)
  have "buf_resize (out @ bytes_of_u32 0 @ body) (length out + 4) = out @ bytes_of_u32 0"
    by (simp add: buf_resize_def)
  then show ?thesis
    unfolding response_end_def b response_size_begin
    by (simp add: reply_wire_def Let_def out_err_encode response_size_begin buf_write_header frame_def too_big_def
      ucast_of_nat_u64 del: encode.simps)
qed

section \<open>One request\<close>

lemma unat_frame_len: "unat len \<le> K_MAX_MSG \<Longrightarrow> unat (4 + len :: u32) = 4 + unat len"
  by (simp add: K_MAX_MSG_def unat_word_ariths)

text \<open>The first cut of a buffer: nothing to take, or the first request with its size.\<close>

definition first_req :: "bytes \<Rightarrow> nat \<Rightarrow> bytes list \<Rightarrow> bool" where
  "first_req inp n cmd \<longleftrightarrow> 4 \<le> length inp \<and> n = unat (u32_of_bytes (take 4 inp)) \<and> n \<le> K_MAX_MSG \<and>
     4 + n \<le> length inp \<and> (\<exists>rc. parse_req (take n (drop 4 inp)) [] = (rc, cmd) \<and> \<not> rc < 0)"

lemma split_reqs_none: "split_reqs inp = ([], rest, bad) \<Longrightarrow> rest = inp"
  by (subst (asm) split_reqs.simps) (auto simp: Let_def split: if_splits prod.splits)

lemma split_reqs_some:
  assumes "split_reqs inp = (cmd # cmds, rest, bad)"
  obtains n where "first_req inp n cmd" "split_reqs (drop (4 + n) inp) = (cmds, rest, bad)"
proof
  let ?n = "unat (u32_of_bytes (take 4 inp))"
  show "first_req inp ?n cmd" "split_reqs (drop (4 + ?n) inp) = (cmds, rest, bad)"
    using assms by (subst (asm) split_reqs.simps, auto simp: first_req_def Let_def split: if_splits prod.splits)+
qed

lemma first_req_append:
  assumes "first_req inp n cmd"
  shows "split_reqs (inp @ y) = (let (cmds, rest, bad) = split_reqs (drop (4 + n) inp @ y) in (cmd # cmds, rest, bad))"
proof -
  from assms obtain rc where g: "4 \<le> length inp" "n = unat (u32_of_bytes (take 4 inp))" "n \<le> K_MAX_MSG"
    "4 + n \<le> length inp" "parse_req (take n (drop 4 inp)) [] = (rc, cmd)" "\<not> rc < 0"
    unfolding first_req_def by blast
  have ext: "take 4 (inp @ y) = take 4 inp" "take n (drop 4 (inp @ y)) = take n (drop 4 inp)"
    "drop (4 + n) (inp @ y) = drop (4 + n) inp @ y"
    using g by simp_all
  show ?thesis
    using g by (subst split_reqs.simps)
      (simp add: Let_def ext [unfolded g(2)] split_beta del: drop_append take_append)
qed

text \<open>What \<open>try_one_request\<close> does is decided by this cut.\<close>

lemma try_one_request_none:
  assumes "conns s a = Some c" "split_reqs (incoming c) = ([], rest, bad)"
  shows "try_one_request now s a = Some (False, if bad then set_conn s a (c\<lparr>want_close := True\<rparr>) else s)"
  using assms unat_frame_len [of "u32_of_bytes (take 4 (incoming c))"]
  by (subst (asm) split_reqs.simps) (auto simp: try_one_request_def Let_def split: if_splits prod.splits)

lemma try_one_request_some:
  assumes c: "conns s a = Some c" and f: "first_req (incoming c) n cmd"
  shows "try_one_request now s a = do {
     (k, out) \<leftarrow> do_request now (kv s) cmd (fst (response_begin (outgoing c)));
     out \<leftarrow> response_end out (snd (response_begin (outgoing c)));
     Some (True, set_conn (s\<lparr>kv := k\<rparr>) a (c\<lparr>outgoing := out, incoming := drop (4 + n) (incoming c)\<rparr>))
   }"
proof -
  let ?len = "u32_of_bytes (take 4 (incoming c))"
  from f obtain rc where g: "4 \<le> length (incoming c)" "n = unat ?len" "n \<le> K_MAX_MSG"
    "4 + n \<le> length (incoming c)" "parse_req (take n (drop 4 (incoming c))) [] = (rc, cmd)" "\<not> rc < 0"
    unfolding first_req_def by blast
  have "\<not> length (incoming c) < 4" "\<not> unat ?len > K_MAX_MSG" "\<not> unat (4 + ?len) > length (incoming c)"
    "buf_consume (incoming c) (unat (4 + ?len)) = Some (drop (4 + n) (incoming c))"
    using g unat_frame_len [of ?len] by (simp_all add: buf_consume_def)
  then show ?thesis
    unfolding try_one_request_def c bind.bind_lunit if_False Let_def
    using g by (simp add: split_beta)
qed

section \<open>The stream\<close>

lemma split_reqs_append:
  "split_reqs x = (cmds, rest, False) \<Longrightarrow>
     split_reqs (x @ y) = (let (cmds', rest', bad') = split_reqs (rest @ y) in (cmds @ cmds', rest', bad'))"
proof (induction cmds arbitrary: x)
  case Nil
  then show ?case using split_reqs_none [OF Nil] by (simp add: split_beta)
next
  case (Cons cmd cmds)
  obtain n where n: "first_req x n cmd" "split_reqs (drop (4 + n) x) = (cmds, rest, False)"
    using split_reqs_some [OF Cons.prems] .
  show ?case using first_req_append [OF n(1)] Cons.IH [OF n(2)] by (simp add: split_beta Let_def)
qed

lemma split_reqs_frame:
  assumes "length (enc_req cmd) \<le> K_MAX_MSG"
  shows "split_reqs (frame (enc_req cmd) @ y) =
    (let (cmds, rest, bad) = split_reqs y in (cmd # cmds, rest, bad))"
proof -
  let ?n = "length (enc_req cmd)"
  have n: "unat (of_nat ?n :: u32) = ?n" using assms by (intro unat_of_nat_u32) (simp add: K_MAX_MSG_def)
  have "parse_req (enc_req cmd) [] = (0, cmd)" by (rule parse_req_enc [OF req_ok_short [OF assms]])
  then show ?thesis
    using assms by (subst split_reqs.simps) (simp add: frame_def n Let_def)
qed

lemma split_reqs_frames:
  "\<forall>cmd \<in> set cmds. length (enc_req cmd) \<le> K_MAX_MSG \<Longrightarrow>
     split_reqs (concat (map (frame \<circ> enc_req) cmds) @ y) =
       (let (cmds', rest, bad) = split_reqs y in (cmds @ cmds', rest, bad))"
proof (induction cmds)
  case Nil
  then show ?case by simp
next
  case (Cons cmd cmds)
  then show ?case using split_reqs_frame [of cmd] by (simp add: split_beta Let_def)
qed

section \<open>Runs of the abstract keyspace\<close>

inductive kv_run :: "(nat \<Rightarrow> u64) \<Rightarrow> nat \<Rightarrow> keyspace \<Rightarrow> bytes list list \<Rightarrow> reply list \<Rightarrow> keyspace \<Rightarrow> bool" for clk where
  stop: "kv_run clk i A [] [] A"
| step: "kv_step (clk i) A cmd r A' \<Longrightarrow> kv_run clk (i + 1) A' cmds rs A'' \<Longrightarrow>
    kv_run clk i A (cmd # cmds) (r # rs) A''"

inductive_simps kv_run_Nil [simp]: "kv_run clk i A [] rs A'"
inductive_simps kv_run_Cons: "kv_run clk i A (cmd # cmds) rs A'"

lemma kv_run_append:
  "kv_run clk i A cmds rs A' \<Longrightarrow> kv_run clk (i + length cmds) A' cmds' rs' A'' \<Longrightarrow>
     kv_run clk i A (cmds @ cmds') (rs @ rs') A''"
  by (induction rule: kv_run.induct) (auto intro: kv_run.intros)

lemma kv_run_length: "kv_run clk i A cmds rs A' \<Longrightarrow> length rs = length cmds"
  by (induction rule: kv_run.induct) auto

text \<open>Room for \<open>n\<close> more keys and names.\<close>

definition kv_room_for :: "nat \<Rightarrow> keyspace \<Rightarrow> bool" where
  "kv_room_for n A \<longleftrightarrow> n < 2 ^ 31 \<and> card (dom A) + n < 2 ^ 56 \<and>
     (\<forall>k Z t. A k = Some (KZSet Z, t) \<longrightarrow> card (dom Z) + n < 2 ^ 31)"

lemma kv_room_for_Suc: "kv_room_for (Suc n) A \<Longrightarrow> kv_room A"
  by (auto simp: kv_room_for_def kv_room_def) (metis add.commute add_Suc_right add_lessD1 plus_1_eq_Suc)

lemma kv_room_for_less: "kv_room_for n A \<Longrightarrow> m \<le> n \<Longrightarrow> kv_room_for m A"
  unfolding kv_room_for_def by (meson add_le_cancel_left le_less_trans)

lemma card_insert_Suc: "card (insert x S) \<le> Suc (card S)"
  by (cases "finite S") (auto simp: card_insert_if)

lemma card_dom_upd: "card (dom (m(k \<mapsto> v))) \<le> Suc (card (dom m))"
  by (simp add: card_insert_Suc)

lemma kv_room_upd:
  assumes "kv_room_for (Suc n) A" "\<forall>Z. v = KZSet Z \<longrightarrow> card (dom Z) \<le> 1 \<or>
    (\<exists>Z' t. A k = Some (KZSet Z', t) \<and> card (dom Z) \<le> Suc (card (dom Z')))"
  shows "kv_room_for n (A(k \<mapsto> (v, t)))"
proof -
  have "card (dom Z) + n < 2 ^ 31" if "(A(k \<mapsto> (v, t))) k' = Some (KZSet Z, t')" for k' Z t'
  proof (cases "k' = k")
    case True
    then have "v = KZSet Z" using that by simp
    then consider "card (dom Z) \<le> 1" | Z' t where "A k = Some (KZSet Z', t)" "card (dom Z) \<le> Suc (card (dom Z'))"
      using assms(2) by blast
    then show ?thesis
    proof cases
      case 1
      then show ?thesis using assms(1) by (simp add: kv_room_for_def)
    next
      case 2
      then have "card (dom Z') + Suc n < 2 ^ 31" using assms(1) unfolding kv_room_for_def by blast
      then show ?thesis using 2(2) by simp
    qed
  next
    case False
    then have "A k' = Some (KZSet Z, t')" using that by simp
    then have "card (dom Z) + Suc n < 2 ^ 31" using assms(1) unfolding kv_room_for_def by blast
    then show ?thesis by simp
  qed
  moreover have "card (dom (A(k \<mapsto> (v, t)))) + n < 2 ^ 56" "n < 2 ^ 31"
    using assms(1) card_dom_upd [of A k "(v, t)"] by (simp_all add: kv_room_for_def)
  ultimately show ?thesis unfolding kv_room_for_def by blast
qed

lemma kv_room_del:
  assumes "kv_room_for n A"
  shows "kv_room_for n (A(k := None))"
proof -
  have "card (dom (A(k := None))) \<le> card (dom A)"
    by (cases "finite (dom A)") (auto simp: card_Diff1_le)
  then have "card (dom (A(k := None))) + n < 2 ^ 56" using assms by (simp add: kv_room_for_def del: dom_fun_upd)
  moreover have "\<forall>k' Z t. (A(k := None)) k' = Some (KZSet Z, t) \<longrightarrow> card (dom Z) + n < 2 ^ 31"
    using assms unfolding kv_room_for_def by (metis fun_upd_apply option.distinct(1))
  ultimately show ?thesis using assms unfolding kv_room_for_def by blast
qed

lemma kv_step_room:
  assumes "kv_step now A cmd r A'" "kv_room_for (Suc n) A"
  shows "kv_room_for n A'"
proof -
  have same: "kv_room_for n A" using kv_room_for_less [OF assms(2), of n] by simp
  have card_del: "card (dom (Z(m := None))) \<le> Suc (card (dom Z))" for Z :: "bytes \<rightharpoonup> u64" and m
    by (cases "finite (dom Z)") (auto intro: le_SucI card_Diff1_le)
  from assms(1) show ?thesis
  proof cases
    case (del k)
    then show ?thesis using kv_room_del [OF same] by simp
  next
    case (expire_set ttl ms k v t)
    have "kv_room_for n (A(k \<mapsto> (v, t')))" for t'
      by (rule kv_room_upd [OF assms(2)]) (use expire_set in auto)
    then show ?thesis using expire_set by simp
  next
    case (set_new k v)
    then show ?thesis using kv_room_upd [OF assms(2)] by simp
  next
    case (set_str k w t v)
    then show ?thesis using kv_room_upd [OF assms(2)] by simp
  next
    case (zadd_new sc s k m)
    then show ?thesis using kv_room_upd [OF assms(2)] by simp
  next
    case (zadd_old sc s k Z t m)
    have "kv_room_for n (A(k \<mapsto> (KZSet (Z(m \<mapsto> new_score Z m s)), t)))"
      using zadd_old card_dom_upd [of Z m] by (intro kv_room_upd [OF assms(2)]) auto
    then show ?thesis using zadd_old by simp
  next
    case (zrem k Z m)
    show ?thesis
    proof (cases "A k")
      case None
      then show ?thesis using zrem same by (simp add: put_zset_def)
    next
      case (Some p)
      then obtain t where kt: "A k = Some (KZSet Z, t)"
        using zrem by (cases p) (auto simp: zset_of_def split: kval.splits)
      then have "kv_room_for n (A(k \<mapsto> (KZSet (Z(m := None)), t)))"
        using card_del [of Z m] by (intro kv_room_upd [OF assms(2)]) auto
      then show ?thesis using zrem kt by (simp add: put_zset_def)
    qed
  qed (simp_all add: same)
qed

section \<open>The loop of \<open>handle_read\<close>\<close>

definition replies :: "reply list \<Rightarrow> bytes" where
  "replies rs = concat (map (reply_wire \<circ> encode) rs)"

lemma replies_simps [simp]: "replies [] = []" "replies (r # rs) = reply_wire (encode r) @ replies rs"
  "replies (rs @ rs') = replies rs @ replies rs'"
  by (simp_all add: replies_def)

lemma request_loop_ok:
  assumes "conns s a = Some c" "split_reqs (incoming c) = (cmds, rest, bad)"
    "kv_rep (kv s) A" "kv_room_for (length cmds) A"
  shows "\<exists>k rs A'. kv_run clk i A cmds rs A' \<and> kv_rep k A' \<and>
    request_loop clk i s a = Some (set_conn (s\<lparr>kv := k\<rparr>) a
      (c\<lparr>incoming := rest, outgoing := outgoing c @ replies rs, want_close := want_close c \<or> bad\<rparr>))"
  using assms
proof (induction cmds arbitrary: i s c A)
  case Nil
  note c = Nil.prems(1)
  note t = split_reqs_none [OF Nil.prems(2)] try_one_request_none [OF c Nil.prems(2)]
  have same: "set_conn s a c = s" using c by (simp add: set_conn_def fun_upd_idem)
  have "request_loop clk i s a = Some (set_conn (s\<lparr>kv := kv s\<rparr>) a
      (c\<lparr>incoming := rest, outgoing := outgoing c @ replies [], want_close := want_close c \<or> bad\<rparr>))"
    by (subst request_loop.simps) (simp add: t same)
  then show ?case using Nil.prems(3) by (blast intro: kv_run.intros)
next
  case (Cons cmd cmds)
  note c = Cons.prems(1)
  obtain n where f: "first_req (incoming c) n cmd" and n: "split_reqs (drop (4 + n) (incoming c)) = (cmds, rest, bad)"
    using split_reqs_some [OF Cons.prems(2)] .
  note t = try_one_request_some [OF c f, of "clk i"]
  obtain k r A1 where r: "do_request (clk i) (kv s) cmd (fst (response_begin (outgoing c))) =
      Some (k, fst (response_begin (outgoing c)) @ encode r)" "kv_step (clk i) A cmd r A1" "kv_rep k A1"
    using do_request_abs [OF Cons.prems(3) kv_room_for_Suc, of "length cmds" "clk i" cmd] Cons.prems(4)
    by (metis length_Cons)
  let ?c = "c\<lparr>outgoing := outgoing c @ reply_wire (encode r), incoming := drop (4 + n) (incoming c)\<rparr>"
  let ?s = "set_conn (s\<lparr>kv := k\<rparr>) a ?c"
  have t1: "try_one_request (clk i) s a = Some (True, ?s)"
    unfolding t r(1) by (simp add: response_end_wire)
  obtain k' rs A2 where l: "kv_run clk (i + 1) A1 cmds rs A2" "kv_rep k' A2"
    "request_loop clk (i + 1) ?s a = Some (set_conn (?s\<lparr>kv := k'\<rparr>) a
      (?c\<lparr>incoming := rest, outgoing := outgoing ?c @ replies rs, want_close := want_close ?c \<or> bad\<rparr>))"
    using Cons.IH [of ?s ?c A1 "i + 1"] n r(3) kv_step_room [OF r(2)] Cons.prems(4)
    by (auto simp: set_conn_def)
  have "request_loop clk i s a = request_loop clk (i + 1) ?s a"
    by (subst request_loop.simps) (simp add: t1)
  then have "request_loop clk i s a = Some (set_conn (s\<lparr>kv := k'\<rparr>) a
      (c\<lparr>incoming := rest, outgoing := outgoing c @ replies (r # rs), want_close := want_close c \<or> bad\<rparr>))"
    unfolding l(3) by (simp add: set_conn_def)
  moreover have "kv_run clk i A (cmd # cmds) (r # rs) A2" by (rule kv_run.step [OF r(2) l(1)])
  ultimately show ?case using l(2) by blast
qed

lemma split_reqs_bound: "split_reqs inp = (cmds, rest, bad) \<Longrightarrow> \<not> bad \<Longrightarrow> length rest < 4 + K_MAX_MSG"
proof (induction cmds arbitrary: inp)
  case Nil
  then have r: "rest = inp" by (simp add: split_reqs_none)
  show ?case
    using Nil unfolding r by (subst (asm) split_reqs.simps) (auto simp: Let_def split: if_splits prod.splits)
next
  case (Cons cmd cmds)
  obtain n where n: "split_reqs (drop (4 + n) inp) = (cmds, rest, bad)"
    using split_reqs_some [OF Cons.prems(1)] .
  show ?case by (rule Cons.IH [OF n Cons.prems(2)])
qed

section \<open>The callbacks\<close>

lemma handle_read_ok:
  assumes c: "conns s a = Some c" and sp: "split_reqs (incoming c @ buf) = (cmds, rest, bad)" and buf: "buf \<noteq> []"
    and rep: "kv_rep (kv s) A" and room: "kv_room_for (length cmds) A"
  obtains k rs A' c' where "kv_run clk 0 A cmds rs A'" "kv_rep k A'"
    "c' = c\<lparr>incoming := rest, outgoing := outgoing c @ replies rs, want_close := want_close c \<or> bad\<rparr>"
    "handle_read clk s a (RData buf) wv =
       (if outgoing c' = [] then Some ([], set_conn (s\<lparr>kv := k\<rparr>) a c')
        else handle_write (set_conn (s\<lparr>kv := k\<rparr>) a (c'\<lparr>want_read := False, want_write := True\<rparr>)) a wv)"
proof -
  let ?c = "c\<lparr>incoming := incoming c @ buf\<rparr>"
  let ?s = "set_conn s a ?c"
  have "conns ?s a = Some ?c" "split_reqs (incoming ?c) = (cmds, rest, bad)" "kv_rep (kv ?s) A"
    using sp rep by (simp_all add: set_conn_def)
  from request_loop_ok [OF this room, of clk 0] obtain k rs A' where
    k: "kv_run clk 0 A cmds rs A'" "kv_rep k A'"
      "request_loop clk 0 ?s a = Some (set_conn (?s\<lparr>kv := k\<rparr>) a
        (?c\<lparr>incoming := rest, outgoing := outgoing ?c @ replies rs, want_close := want_close ?c \<or> bad\<rparr>))"
    by blast
  let ?c' = "c\<lparr>incoming := rest, outgoing := outgoing c @ replies rs, want_close := want_close c \<or> bad\<rparr>"
  have "request_loop clk 0 ?s a = Some (set_conn (s\<lparr>kv := k\<rparr>) a ?c')"
    unfolding k(3) by (simp add: set_conn_def)
  then have "handle_read clk s a (RData buf) wv =
       (if outgoing ?c' = [] then Some ([], set_conn (s\<lparr>kv := k\<rparr>) a ?c')
        else handle_write (set_conn (s\<lparr>kv := k\<rparr>) a (?c'\<lparr>want_read := False, want_write := True\<rparr>)) a wv)"
    using buf unfolding handle_read_def c by (simp add: buf_append_def set_conn_def)
  then show thesis using that [OF k(1,2) refl] by blast
qed

text \<open>What \<^verbatim>\<open>write\<close> documents: it takes at most what it is given.\<close>

definition write_ok :: "(bytes \<Rightarrow> wres) \<Rightarrow> bool" where
  "write_ok writer \<longleftrightarrow> (\<forall>b n. writer b = Wrote n \<longrightarrow> n \<le> length b)"

text \<open>What \<open>handle_write\<close> leaves of a connection.\<close>

definition written :: "conn \<Rightarrow> (bytes \<Rightarrow> wres) \<Rightarrow> bytes \<times> conn" where
  "written c writer = (case writer (outgoing c) of
     WAgain \<Rightarrow> ([], c)
   | WError \<Rightarrow> ([], c\<lparr>want_close := True\<rparr>)
   | Wrote n \<Rightarrow> (take n (outgoing c), if n < length (outgoing c) then c\<lparr>outgoing := drop n (outgoing c)\<rparr>
       else c\<lparr>outgoing := [], want_read := True, want_write := False\<rparr>))"

lemma handle_write_ok:
  assumes c: "conns s a = Some c" and out: "outgoing c \<noteq> []" and w: "write_ok writer"
  shows "handle_write s a writer = (case written c writer of (sent, c') \<Rightarrow> Some (sent, set_conn s a c'))"
proof (cases "writer (outgoing c)")
  case WAgain
  have "set_conn s a c = s" using c by (simp add: set_conn_def fun_upd_idem)
  then show ?thesis using c out WAgain by (simp add: handle_write_def written_def)
next
  case WError
  show ?thesis using c out WError by (simp add: handle_write_def written_def)
next
  case (Wrote k)
  then have "k \<le> length (outgoing c)" using w by (simp add: write_ok_def)
  then show ?thesis using c out Wrote by (simp add: handle_write_def buf_consume_def written_def Let_def)
qed

lemma written_stream: "written c writer = (sent, c') \<Longrightarrow> outgoing c = sent @ outgoing c' \<and> incoming c' = incoming c \<and>
    (want_close c' \<longleftrightarrow> want_close c \<or> writer (outgoing c) = WError) \<and> c_fd c' = c_fd c \<and> last_active c' = last_active c"
  by (auto simp: written_def split: wres.splits if_splits)

section \<open>Sessions\<close>

text \<open>The life of a connection: \<open>R\<close> is what was read from it, \<open>S\<close> what was written to it.
  Between two callbacks of this connection anything may happen to the rest of the server.\<close>

inductive session :: "addr \<Rightarrow> srv \<Rightarrow> bytes \<Rightarrow> bytes \<Rightarrow> bool" for a where
  accepted: "conns s a = Some c \<Longrightarrow> incoming c = [] \<Longrightarrow> outgoing c = [] \<Longrightarrow> \<not> want_close c \<Longrightarrow> session a s [] []"
| readable: "session a s R S \<Longrightarrow> conns s a = Some c \<Longrightarrow> \<not> want_close c \<Longrightarrow> buf \<noteq> [] \<Longrightarrow>
    kv_rep (kv s) A \<Longrightarrow> kv_room_for (length (fst (split_reqs (incoming c @ buf)))) A \<Longrightarrow> write_ok writer \<Longrightarrow>
    handle_read clk s a (RData buf) writer = Some (sent, s') \<Longrightarrow> session a s' (R @ buf) (S @ sent)"
| writable: "session a s R S \<Longrightarrow> conns s a = Some c \<Longrightarrow> \<not> want_close c \<Longrightarrow> write_ok writer \<Longrightarrow>
    handle_write s a writer = Some (sent, s') \<Longrightarrow> session a s' R (S @ sent)"
| elsewhere: "session a s R S \<Longrightarrow> conns s' a = conns s a \<Longrightarrow> session a s' R S"

text \<open>Every reply is one the keyspace allows for its command, at some time.\<close>

definition answers :: "bytes list list \<Rightarrow> reply list \<Rightarrow> bool" where
  "answers cmds rs \<longleftrightarrow> list_all2 (\<lambda>cmd r. \<exists>now A A'. kv_step now A cmd r A') cmds rs"

lemma kv_run_answers: "kv_run clk i A cmds rs A' \<Longrightarrow> answers cmds rs"
  unfolding answers_def by (induction rule: kv_run.induct) auto

lemma answers_append: "answers cmds rs \<Longrightarrow> answers cmds' rs' \<Longrightarrow> answers (cmds @ cmds') (rs @ rs')"
  unfolding answers_def by (rule list_all2_appendI)

definition stream_ok :: "conn \<Rightarrow> bytes \<Rightarrow> bytes \<Rightarrow> bool" where
  "stream_ok c R S \<longleftrightarrow> (\<exists>cmds rs bad. split_reqs R = (cmds, incoming c, bad) \<and> (bad \<longrightarrow> want_close c) \<and>
     answers cmds rs \<and> S @ outgoing c = replies rs)"

lemma written_stream_ok:
  assumes "stream_ok c R S" "written c writer = (sent, c')"
  shows "stream_ok c' R (S @ sent)"
  using assms(1) written_stream [OF assms(2)] unfolding stream_ok_def by fastforce

lemma handle_read_stream:
  assumes c: "conns s a = Some c" "\<not> want_close c" and st: "stream_ok c R S" and buf: "buf \<noteq> []"
    and k: "kv_rep (kv s) A" "kv_room_for (length (fst (split_reqs (incoming c @ buf)))) A" and w: "write_ok writer"
  obtains sent c' k A' where "handle_read clk s a (RData buf) writer = Some (sent, set_conn (s\<lparr>kv := k\<rparr>) a c')"
    "stream_ok c' (R @ buf) (S @ sent)" "kv_rep k A'"
proof -
  obtain cmds rest bad where sp: "split_reqs (incoming c @ buf) = (cmds, rest, bad)" by (metis prod_cases3)
  then have room: "kv_room_for (length cmds) A" using k(2) by simp
  from handle_read_ok [OF c(1) sp buf k(1) room, of clk writer] obtain k' rs A' c1 where
    r: "kv_run clk 0 A cmds rs A'" "kv_rep k' A'"
      "c1 = c\<lparr>incoming := rest, outgoing := outgoing c @ replies rs, want_close := want_close c \<or> bad\<rparr>"
      "handle_read clk s a (RData buf) writer =
       (if outgoing c1 = [] then Some ([], set_conn (s\<lparr>kv := k'\<rparr>) a c1)
        else handle_write (set_conn (s\<lparr>kv := k'\<rparr>) a (c1\<lparr>want_read := False, want_write := True\<rparr>)) a writer)" .
  from st obtain cmds0 rs0 bad0 where o': "split_reqs R = (cmds0, incoming c, bad0)" "bad0 \<longrightarrow> want_close c"
    "answers cmds0 rs0" "S @ outgoing c = replies rs0"
    unfolding stream_ok_def by blast
  then have o: "split_reqs R = (cmds0, incoming c, False)" "answers cmds0 rs0" "S @ outgoing c = replies rs0"
    using c(2) by simp_all
  have sp': "split_reqs (R @ buf) = (cmds0 @ cmds, rest, bad)"
    unfolding split_reqs_append [OF o(1)] sp by simp
  have out: "S @ outgoing c1 = replies (rs0 @ rs)" using o(3) r(3) by simp
  have ans: "answers (cmds0 @ cmds) (rs0 @ rs)" by (rule answers_append [OF o(2) kv_run_answers [OF r(1)]])
  have st1: "stream_ok c1 (R @ buf) S"
    unfolding stream_ok_def using sp' out ans r(3) by (intro exI conjI) auto
  show thesis
  proof (cases "outgoing c1 = []")
    case True
    then have "handle_read clk s a (RData buf) writer = Some ([], set_conn (s\<lparr>kv := k'\<rparr>) a c1)" using r(4) by simp
    then show thesis using that [of "[]"] st1 r(2) by simp
  next
    case False
    let ?c = "c1\<lparr>want_read := False, want_write := True\<rparr>"
    obtain sent c' where wr: "written ?c writer = (sent, c')" by fastforce
    have "handle_write (set_conn (s\<lparr>kv := k'\<rparr>) a ?c) a writer = Some (sent, set_conn (s\<lparr>kv := k'\<rparr>) a c')"
      using handle_write_ok [of "set_conn (s\<lparr>kv := k'\<rparr>) a ?c" a ?c writer] False w wr by (simp add: set_conn_def)
    then have "handle_read clk s a (RData buf) writer = Some (sent, set_conn (s\<lparr>kv := k'\<rparr>) a c')"
      using r(4) False by simp
    moreover have "stream_ok ?c (R @ buf) S" using st1 by (simp add: stream_ok_def)
    ultimately show thesis using that written_stream_ok [OF _ wr] r(2) by blast
  qed
qed

lemma session_stream_ok:
  "session a s R S \<Longrightarrow> \<exists>c. conns s a = Some c \<and> stream_ok c R S"
proof (induction rule: session.induct)
  case (accepted s c)
  then have "stream_ok c [] []"
    unfolding stream_ok_def answers_def
    by (intro exI [of _ "[]"] exI [of _ False]) (subst split_reqs.simps, simp add: replies_def)
  then show ?case using accepted by blast
next
  case (readable s R S c buf A writer clk sent s')
  then have st: "stream_ok c R S" by simp
  from handle_read_stream [OF readable(2,3) st readable(4-7), of clk] obtain sent' c' k A' where
    "handle_read clk s a (RData buf) writer = Some (sent', set_conn (s\<lparr>kv := k\<rparr>) a c')"
    "stream_ok c' (R @ buf) (S @ sent')" "kv_rep k A'" .
  then show ?case using readable(8) by (simp add: set_conn_def)
next
  case (writable s R S c writer sent s')
  then have st: "stream_ok c R S" by simp
  have out: "outgoing c \<noteq> []" using writable(2,5) by (auto simp: handle_write_def c_assert_def split: if_splits)
  obtain sent' c' where wr: "written c writer = (sent', c')" by fastforce
  show ?case
    using handle_write_ok [OF writable(2) out writable(4)] writable(5) wr written_stream_ok [OF st wr]
    by (simp add: set_conn_def)
next
  case (elsewhere s R S s')
  then show ?case by simp
qed

section \<open>Fragmentation\<close>

lemma first_req_extend: "first_req inp n cmd \<Longrightarrow> first_req (inp @ y) n cmd"
  by (auto simp: first_req_def)

lemma set_conn_simps [simp]:
  "conns (set_conn s a c) a = Some c" "set_conn (set_conn s a c) a c' = set_conn s a c'"
  "kv (set_conn s a c) = kv s" "(set_conn s a c)\<lparr>kv := k\<rparr> = set_conn (s\<lparr>kv := k\<rparr>) a c"
  by (simp_all add: set_conn_def)

lemma request_loop_append:
  assumes "conns s a = Some c" "split_reqs (incoming c) = (cmds, rest, False)"
  shows "request_loop clk i (set_conn s a (c\<lparr>incoming := incoming c @ y\<rparr>)) a = do {
      s' \<leftarrow> request_loop clk i s a;
      c' \<leftarrow> conns s' a;
      request_loop clk (i + length cmds) (set_conn s' a (c'\<lparr>incoming := incoming c' @ y\<rparr>)) a
    }"
  using assms
proof (induction cmds arbitrary: i s c)
  case Nil
  have "request_loop clk i s a = Some s"
    by (subst request_loop.simps) (simp add: try_one_request_none [OF Nil.prems])
  then show ?case using Nil.prems(1) by simp
next
  case (Cons cmd cmds)
  note c = Cons.prems(1)
  obtain n where f: "first_req (incoming c) n cmd" and n: "split_reqs (drop (4 + n) (incoming c)) = (cmds, rest, False)"
    using split_reqs_some [OF Cons.prems(2)] .
  have len: "4 + n \<le> length (incoming c)" using f by (simp add: first_req_def)
  let ?c = "c\<lparr>incoming := incoming c @ y\<rparr>"
  have f': "first_req (incoming ?c) n cmd" using first_req_extend [OF f] by simp
  note t = try_one_request_some [OF c f, of "clk i"]
  have t': "try_one_request (clk i) (set_conn s a ?c) a = do {
     (k, out) \<leftarrow> do_request (clk i) (kv s) cmd (fst (response_begin (outgoing c)));
     out \<leftarrow> response_end out (snd (response_begin (outgoing c)));
     Some (True, set_conn (s\<lparr>kv := k\<rparr>) a (c\<lparr>outgoing := out, incoming := drop (4 + n) (incoming c) @ y\<rparr>))
   }"
    using try_one_request_some [OF _ f', of "set_conn s a ?c" a "clk i"] len by simp
  show ?case
  proof (cases "do {
     (k, out) \<leftarrow> do_request (clk i) (kv s) cmd (fst (response_begin (outgoing c)));
     out \<leftarrow> response_end out (snd (response_begin (outgoing c)));
     Some (k, out) }")
    case None
    then have "try_one_request (clk i) s a = None" "try_one_request (clk i) (set_conn s a ?c) a = None"
      unfolding t t' by (auto split: bind_splits)
    then show ?thesis by (subst (1 2) request_loop.simps) simp
  next
    case (Some p)
    obtain k out where p: "p = (k, out)" by fastforce
    let ?d = "c\<lparr>outgoing := out, incoming := drop (4 + n) (incoming c)\<rparr>"
    let ?s = "set_conn (s\<lparr>kv := k\<rparr>) a ?d"
    have "try_one_request (clk i) s a = Some (True, ?s)"
      "try_one_request (clk i) (set_conn s a ?c) a = Some (True, set_conn ?s a (?d\<lparr>incoming := incoming ?d @ y\<rparr>))"
      using Some unfolding t t' p by (auto split: bind_splits)
    then have "request_loop clk i s a = request_loop clk (i + 1) ?s a"
      "request_loop clk i (set_conn s a ?c) a =
        request_loop clk (i + 1) (set_conn ?s a (?d\<lparr>incoming := incoming ?d @ y\<rparr>)) a"
      by (subst request_loop.simps, simp)+
    then show ?thesis using Cons.IH [of ?s ?d "i + 1"] n by simp
  qed
qed

section \<open>Properties\<close>


definition ex_conn :: conn where
  "ex_conn = \<lparr>c_fd = 4, want_read = True, want_write = False, want_close = False, incoming = [], outgoing = [],
     last_active = 0\<rparr>"

definition ex_srv :: srv where
  "ex_srv = \<lparr>kv = kvs_init ex_zmem, conns = [1 \<mapsto> ex_conn],
     dl = [0 \<mapsto> \<lparr>d_prev = Some 1, d_next = Some 1\<rparr>, 1 \<mapsto> \<lparr>d_prev = Some 0, d_next = Some 0\<rparr>],
     fd2conn = [NULL, NULL, NULL, NULL, Some 1], cbrk = 2\<rparr>"

lemma ex_srv_conn: "conns ex_srv 1 = Some ex_conn" "kv_rep (kv ex_srv) Map.empty"
  by (simp_all add: ex_srv_def kv_rep_empty)



lemma ex_session:
  fixes s :: srv
  assumes "conns s a = Some c" "incoming c = []" "outgoing c = []" "\<not> want_close c" "kv_rep (kv s) A"
    "kv_room_for 1 A" "length (enc_req cmd) \<le> K_MAX_MSG"
  obtains s' where "session a s' (frame (enc_req cmd)) []" "conns s' a \<noteq> None"
proof -
  let ?buf = "frame (enc_req cmd)"
  have st: "stream_ok c [] []"
    using session_stream_ok [OF session.accepted [OF assms(1-4)]] assms(1) by simp
  have sp: "split_reqs (incoming c @ ?buf) = ([cmd], [], False)"
    using split_reqs_frame [OF assms(7), of "[]"] assms(2) by (simp add: split_reqs.simps [of "[]"])
  have b: "?buf \<noteq> []" by (simp add: frame_def) (metis codec_length(1) list.size(3) zero_neq_numeral)
  have room: "kv_room_for (length (fst (split_reqs (incoming c @ ?buf)))) A" unfolding sp using assms(6) by simp
  have w: "write_ok (\<lambda>_. WAgain)" by (simp add: write_ok_def)
  obtain sent c' k A' where r: "handle_read (\<lambda>_. 0) s a (RData ?buf) (\<lambda>_. WAgain) = Some (sent, set_conn (s\<lparr>kv := k\<rparr>) a c')"
    using handle_read_stream [OF assms(1,4) st b assms(5) room w] by metis
  have "sent = []"
  proof -
    have "sent = []" if "handle_write t a (\<lambda>_. WAgain) = Some (sent, t')" for t t'
      using that by (auto simp: handle_write_def bind_eq_Some_conv)
    then show ?thesis using r by (auto simp: handle_read_def bind_eq_Some_conv split: if_splits)
  qed
  then have "session a (set_conn (s\<lparr>kv := k\<rparr>) a c') ([] @ ?buf) ([] @ [])"
    using session.readable [OF session.accepted [OF assms(1-4)] assms(1,4) b assms(5) room w r] by simp
  then show thesis using that by simp
qed

lemma ex_room: "kv_room_for 1 Map.empty"
  by (simp add: kv_room_for_def)

lemma ex_flush: "length (enc_req [cstr ''flush'']) \<le> K_MAX_MSG"
  by (simp add: K_MAX_MSG_def length_enc_req)


text \<open>Pipelining end to end.  A client that sends any number of requests of at most
  \<open>K_MAX_MSG\<close> bytes, as \<open>send_req\<close> frames them, gets one framed reply to each, in order, and
  nothing else; the connection stays in step.\<close>

theorem session_pipelined:
  assumes "session a s (concat (map (frame \<circ> enc_req) cmds)) S" "conns s a = Some c"
    "\<forall>cmd \<in> set cmds. length (enc_req cmd) \<le> K_MAX_MSG"
  shows "\<exists>rs. answers cmds rs \<and> S @ outgoing c = concat (map (reply_wire \<circ> encode) rs) \<and> incoming c = []"
proof -
  have sp: "split_reqs (concat (map (frame \<circ> enc_req) cmds)) = (cmds, [], False)"
    using split_reqs_frames [OF assms(3), of "[]"] by (simp add: split_reqs.simps [of "[]"])
  obtain c' where "conns s a = Some c'" "stream_ok c' (concat (map (frame \<circ> enc_req) cmds)) S"
    using session_stream_ok [OF assms(1)] by blast
  then show ?thesis using assms(2) unfolding stream_ok_def sp replies_def by auto
qed

theorem session_pipelined_witness:
  "\<exists>s c S rs. session 1 s (frame (enc_req [cstr ''flush''])) S \<and> conns s 1 = Some c \<and>
     answers [[cstr ''flush'']] rs \<and> S @ outgoing c = concat (map (reply_wire \<circ> encode) rs) \<and> incoming c = []"
proof -
  obtain s where s: "session 1 s (frame (enc_req [cstr ''flush''])) []" "conns s 1 \<noteq> None"
    using ex_session [OF ex_srv_conn(1) _ _ _ ex_srv_conn(2) ex_room ex_flush] by (auto simp: ex_conn_def)
  then obtain c where c: "conns s 1 = Some c" by blast
  have "session 1 s (concat (map (frame \<circ> enc_req) [[cstr ''flush'']])) []"
    "\<forall>cmd \<in> set [[cstr ''flush'']]. length (enc_req cmd) \<le> K_MAX_MSG" using s(1) ex_flush by simp_all
  from session_pipelined [OF this(1) c this(2)] show ?thesis using s(1) c by blast
qed

text \<open>Bounded buffering.  An open connection never buffers more than one incomplete
  request: less than \<open>4 + K_MAX_MSG\<close> bytes.\<close>

theorem incoming_bounded:
  assumes "session a s R S" "conns s a = Some c" "\<not> want_close c"
  shows "length (incoming c) < 4 + K_MAX_MSG"
proof -
  obtain c' where "conns s a = Some c'" "stream_ok c' R S" using session_stream_ok [OF assms(1)] by blast
  then show ?thesis using assms(2,3) split_reqs_bound unfolding stream_ok_def by fastforce
qed

theorem incoming_bounded_witness:
  "length (incoming ex_conn) < 4 + K_MAX_MSG"
  by (rule incoming_bounded [OF session.accepted [OF ex_srv_conn(1)] ex_srv_conn(1)]) (simp_all add: ex_conn_def)

end
