(* ===== verification/ConnTable.thy ===== *)
theory ConnTable
  imports Pipeline
begin

text \<open>
  The connections as a whole: the vector \<^verbatim>\<open>fd2conn\<close>, the idle list and the \<^verbatim>\<open>Conn\<close> objects
  (\<^verbatim>\<open>lib/server/conn.cpp\<close>, \<^verbatim>\<open>lib/server/global.cpp\<close>).  \<open>tab_ok t s\<close> says that the vector and the list
  hold exactly the live connections and that the list is ordered by the time of the last
  activity, none later than \<open>t\<close>; accepting, moving to the end and destroying keep it.
\<close>

section \<open>Invariant\<close>

definition active :: "srv \<Rightarrow> addr \<Rightarrow> u64" where
  "active s a = last_active (the (conns s a))"

definition fds_ok :: "srv \<Rightarrow> bool" where
  "fds_ok s \<longleftrightarrow> (\<forall>a c. conns s a = Some c \<longrightarrow> c_fd c < length (fd2conn s) \<and> fd2conn s ! c_fd c = Some a) \<and>
     (\<forall>i < length (fd2conn s). \<forall>a. fd2conn s ! i = Some a \<longrightarrow> (\<exists>c. conns s a = Some c \<and> c_fd c = i))"

definition idle_ok :: "u64 \<Rightarrow> srv \<Rightarrow> addr list \<Rightarrow> bool" where
  "idle_ok t s xs \<longleftrightarrow> dlist (dl s) idle_head xs \<and> set xs = dom (conns s) \<and>
     sorted (map (active s) xs) \<and> (\<forall>a \<in> set xs. active s a \<le> t) \<and> (\<forall>a \<in> set (idle_head # xs). a < cbrk s)"

definition tab_ok :: "u64 \<Rightarrow> srv \<Rightarrow> bool" where
  "tab_ok t s \<longleftrightarrow> fds_ok s \<and> (\<exists>xs. idle_ok t s xs)"

lemma fds_okD:
  assumes "fds_ok s" "conns s a = Some c"
  shows "c_fd c < length (fd2conn s)" "fd2conn s ! c_fd c = Some a"
  using assms by (auto simp: fds_ok_def)

lemma fds_ok_conn: "fds_ok s \<Longrightarrow> i < length (fd2conn s) \<Longrightarrow> fd2conn s ! i = Some a \<Longrightarrow>
    \<exists>c. conns s a = Some c \<and> c_fd c = i"
  by (auto simp: fds_ok_def)

lemma fds_ok_inj: "fds_ok s \<Longrightarrow> conns s a = Some c \<Longrightarrow> conns s b = Some d \<Longrightarrow> c_fd c = c_fd d \<Longrightarrow> a = b"
  by (metis fds_okD(2) option.inject)

lemma idle_okD:
  assumes "idle_ok t s xs"
  shows "dlist (dl s) idle_head xs" "set xs = dom (conns s)" "sorted (map (active s) xs)"
    "\<forall>a \<in> set xs. active s a \<le> t" "\<forall>a \<in> set (idle_head # xs). a < cbrk s" "distinct xs" "idle_head \<notin> set xs"
  using assms unfolding idle_ok_def dlist_def distinct.simps by blast+

lemma tab_ok_later: "tab_ok t s \<Longrightarrow> t \<le> t' \<Longrightarrow> tab_ok t' s"
  unfolding tab_ok_def idle_ok_def by (meson order.trans)

lemma fds_ok_frame:
  assumes "fds_ok s" "fd2conn s' = fd2conn s" "\<forall>a. map_option c_fd (conns s' a) = map_option c_fd (conns s a)"
  shows "fds_ok s'"
  unfolding fds_ok_def
proof (intro conjI allI impI)
  fix a c' assume "conns s' a = Some c'"
  then obtain c where c: "conns s a = Some c" "c_fd c = c_fd c'"
    using assms(3) [rule_format, of a] by (cases "conns s a") auto
  then show "c_fd c' < length (fd2conn s')" "fd2conn s' ! c_fd c' = Some a"
    using fds_okD [OF assms(1) c(1)] assms(2) by simp_all
next
  fix i a assume "i < length (fd2conn s')" "fd2conn s' ! i = Some a"
  then obtain c where "conns s a = Some c" "c_fd c = i" using fds_ok_conn [OF assms(1), of i a] assms(2) by auto
  then show "\<exists>c. conns s' a = Some c \<and> c_fd c = i"
    using assms(3) [rule_format, of a] by (cases "conns s' a") auto
qed

text \<open>Changes of the buffers, the flags and the store of keys.\<close>

lemma tab_ok_frame:
  assumes "tab_ok t s" "fd2conn s' = fd2conn s" "dl s' = dl s" "cbrk s' = cbrk s"
    "\<forall>a. map_option (\<lambda>c. (c_fd c, last_active c)) (conns s' a) = map_option (\<lambda>c. (c_fd c, last_active c)) (conns s a)"
  shows "tab_ok t s'"
proof -
  have same: "conns s' a = Some c' \<Longrightarrow> \<exists>c. conns s a = Some c \<and> c_fd c = c_fd c' \<and> last_active c = last_active c'"
    "conns s a = Some c \<Longrightarrow> \<exists>c'. conns s' a = Some c' \<and> c_fd c = c_fd c' \<and> last_active c = last_active c'" for a c c'
    using assms(5) [rule_format, of a] by (cases "conns s a"; cases "conns s' a"; simp)+
  have "map_option c_fd (conns s' a) = map_option c_fd (conns s a)" for a
    using assms(5) [rule_format, of a] by (cases "conns s a"; cases "conns s' a"; simp)
  then have "fds_ok s'" using fds_ok_frame [of s s'] assms(1,2) by (simp add: tab_ok_def)
  moreover have "dom (conns s') = dom (conns s)" using same by blast
  moreover have act: "active s' a = active s a" for a
  proof (cases "a \<in> dom (conns s)")
    case True
    then show ?thesis using same(2) [of a] by (auto simp: active_def)
  next
    case False
    then have "conns s a = None" "conns s' a = None" using \<open>dom (conns s') = dom (conns s)\<close> by blast+
    then show ?thesis by (simp add: active_def)
  qed
  moreover have "active s' = active s" by (rule ext) (rule act)
  ultimately show ?thesis using assms(1,3,4) by (simp add: tab_ok_def idle_ok_def)
qed

text \<open>The kernel does not hand out the descriptor of a connection that is still open.\<close>

definition fresh_fd :: "srv \<Rightarrow> nat \<Rightarrow> bool" where
  "fresh_fd s fd \<longleftrightarrow> (\<forall>a c. conns s a = Some c \<longrightarrow> c_fd c \<noteq> fd)"

section \<open>The vector and the list through the operations\<close>

lemma fds_ok_close:
  assumes f: "fds_ok s" and c: "conns s a = Some c"
    and s': "fd2conn s' = (fd2conn s)[c_fd c := NULL]" "conns s' = (conns s)(a := None)"
  shows "fds_ok s'"
  unfolding fds_ok_def
proof (intro conjI allI impI)
  fix b d assume "conns s' b = Some d"
  then have b: "conns s b = Some d" "b \<noteq> a" using s'(2) by (auto split: if_splits)
  then have "c_fd d \<noteq> c_fd c" using fds_ok_inj [OF f b(1) c] by blast
  then show "c_fd d < length (fd2conn s')" "fd2conn s' ! c_fd d = Some b" using fds_okD [OF f b(1)] s'(1) by simp_all
next
  fix i b assume i: "i < length (fd2conn s')" "fd2conn s' ! i = Some b"
  then have "i \<noteq> c_fd c" using s'(1) by auto
  then obtain d where "conns s b = Some d" "c_fd d = i" using fds_ok_conn [OF f, of i b] i s'(1) by auto
  then show "\<exists>d. conns s' b = Some d \<and> c_fd d = i" using c s'(2) \<open>i \<noteq> c_fd c\<close> by auto
qed

lemma idle_ok_close:
  assumes i: "idle_ok t s xs" and d: "dlist (dl s') idle_head (remove1 a xs)"
    and s': "conns s' = (conns s)(a := None)" "cbrk s' = cbrk s"
  shows "idle_ok t s' (remove1 a xs)"
  unfolding idle_ok_def
proof (intro conjI)
  note I = idle_okD [OF i]
  have set: "set (remove1 a xs) = set xs - {a}" using I(6) by simp
  then have act: "active s' b = active s b" if "b \<in> set (remove1 a xs)" for b using that s'(1) by (simp add: active_def)
  have m: "map (active s') (remove1 a xs) = map (active s) (remove1 a xs)" by (intro map_cong refl act)
  show "sorted (map (active s') (remove1 a xs))" unfolding m by (rule sorted_map_remove1 [OF I(3)])
  show "\<forall>b \<in> set (remove1 a xs). active s' b \<le> t" using I(4) set act by simp
  show "set (remove1 a xs) = dom (conns s')" using set I(2) s'(1) by simp
  show "\<forall>b \<in> set (idle_head # remove1 a xs). b < cbrk s'" using I(5) set s'(2) by simp
qed (rule d)

text \<open>The connection \<open>a\<close>, which is active now, becomes the last one of the list.\<close>

lemma idle_ok_last:
  assumes i: "idle_ok t s xs" and now: "t \<le> now" and d: "dlist (dl s') idle_head (remove1 a xs @ [a])"
    and s': "conns s' = (conns s)(a \<mapsto> c)" "last_active c = now" "cbrk s \<le> cbrk s'" "a < cbrk s'"
  shows "idle_ok now s' (remove1 a xs @ [a])"
  unfolding idle_ok_def
proof (intro conjI)
  note I = idle_okD [OF i]
  have set: "set (remove1 a xs) = set xs - {a}" using I(6) by simp
  have act: "active s' b = (if b = a then now else active s b)" for b using s'(1,2) by (simp add: active_def)
  have le: "\<forall>b \<in> set (remove1 a xs). active s b \<le> now" using I(4) now set by (auto intro: order.trans)
  have "map (active s') (remove1 a xs) = map (active s) (remove1 a xs)" using act set by (intro map_cong) auto
  then have m: "map (active s') (remove1 a xs @ [a]) = map (active s) (remove1 a xs) @ [now]" using act by simp
  show "sorted (map (active s') (remove1 a xs @ [a]))"
    unfolding m using sorted_map_remove1 [OF I(3), of a] le by (auto simp: sorted_append)
  show "\<forall>b \<in> set (remove1 a xs @ [a]). active s' b \<le> now" using act le by simp
  show "set (remove1 a xs @ [a]) = dom (conns s')" using set I(2) s'(1) by auto
  show "\<forall>b \<in> set (idle_head # remove1 a xs @ [a]). b < cbrk s'" using I(5) set s'(3,4) by auto
qed (rule d)

lemma fds_ok_open:
  assumes f: "fds_ok s" and new: "fresh_fd s fd" "conns s a = None" "c_fd c = fd"
    and s': "conns s' = (conns s)(a \<mapsto> c)" "fd2conn s' = (fd2conn s @ replicate (fd + 1 - length (fd2conn s)) NULL)[fd := Some a]"
  shows "fds_ok s'"
  unfolding fds_ok_def
proof (intro conjI allI impI)
  fix b e assume be: "conns s' b = Some e"
  have "c_fd e < length (fd2conn s') \<and> fd2conn s' ! c_fd e = Some b"
  proof (cases "b = a")
    case True
    then show ?thesis using be new(3) s' by auto
  next
    case False
    then have b: "conns s b = Some e" using be s'(1) by simp
    then have "c_fd e \<noteq> fd" using new(1) by (auto simp: fresh_fd_def)
    then show ?thesis using fds_okD [OF f b] s'(2) by (simp add: nth_append)
  qed
  then show "c_fd e < length (fd2conn s')" "fd2conn s' ! c_fd e = Some b" by simp_all
next
  fix j b assume j: "j < length (fd2conn s')" "fd2conn s' ! j = Some b"
  show "\<exists>e. conns s' b = Some e \<and> c_fd e = j"
  proof (cases "j = fd")
    case True
    then have "b = a" using j s'(2) by simp
    then show ?thesis using True new(3) s'(1) by simp
  next
    case False
    then have "j < length (fd2conn s)" "fd2conn s ! j = Some b" using j s'(2) by (auto simp: nth_append split: if_splits)
    then obtain e where "conns s b = Some e" "c_fd e = j" using fds_ok_conn [OF f] by blast
    then show ?thesis using new(2) s'(1) by auto
  qed
qed

section \<open>Operations\<close>

lemma conn_destroy_ok:
  assumes tab: "fds_ok s" "idle_ok t s xs" and c: "conns s a = Some c"
  obtains s' where "conn_destroy s a = Some s'" "fds_ok s'" "idle_ok t s' (remove1 a xs)"
    "conns s' = (conns s)(a := None)" "kv s' = kv s"
proof -
  note F = fds_okD [OF tab(1) c] and I = idle_okD [OF tab(2)]
  have a: "a \<in> set xs" using I(2) c by auto
  from idle.unlink [OF I(1) a] obtain h where
    h: "dlist_detach (dl s) (Some a) = Some h" "dlist (h(a := None)) idle_head (remove1 a xs)" .
  let ?s = "s\<lparr>fd2conn := (fd2conn s)[c_fd c := NULL], dl := h(a := None), conns := (conns s)(a := None)\<rparr>"
  have run: "conn_destroy s a = Some ?s" using c F h(1) by (simp add: conn_destroy_def)
  have "fds_ok ?s" by (rule fds_ok_close [OF tab(1) c]) simp_all
  moreover have "idle_ok t ?s (remove1 a xs)" by (rule idle_ok_close [OF tab(2)]) (use h(2) in simp_all)
  ultimately show thesis using that [OF run] by simp
qed

text \<open>Moving a connection to the end of the idle list, as \<^verbatim>\<open>main\<close> does before it handles I/O.\<close>

definition touch :: "u64 \<Rightarrow> srv \<Rightarrow> addr \<Rightarrow> srv option" where
  "touch now s conn = do {
     c \<leftarrow> conns s conn;
     let s = set_conn s conn (c\<lparr>last_active := now\<rparr>);
     h \<leftarrow> dlist_detach (dl s) (Some conn);
     h \<leftarrow> dlist_insert_before h (Some idle_head) (Some conn);
     Some (s\<lparr>dl := h\<rparr>)
   }"

lemma touch_ok:
  assumes tab: "tab_ok t s" and c: "conns s a = Some c" and now: "t \<le> now"
  obtains s' where "touch now s a = Some s'" "tab_ok now s'"
    "conns s' = (conns s)(a \<mapsto> c\<lparr>last_active := now\<rparr>)" "kv s' = kv s" "fd2conn s' = fd2conn s"
proof -
  from tab obtain xs where f: "fds_ok s" and i: "idle_ok t s xs" by (auto simp: tab_ok_def)
  note I = idle_okD [OF i]
  have a: "a \<in> set xs" using I(2) c by auto
  from idle.move_last [OF I(1) a] obtain h g where
    h: "dlist_detach (dl s) (Some a) = Some h" and
    g: "dlist_insert_before h (Some idle_head) (Some a) = Some g" "dlist g idle_head (remove1 a xs @ [a])" .
  let ?s = "s\<lparr>conns := (conns s)(a \<mapsto> c\<lparr>last_active := now\<rparr>), dl := g\<rparr>"
  have run: "touch now s a = Some ?s" using c h g(1) by (simp add: touch_def set_conn_def)
  have "idle_ok now ?s (remove1 a xs @ [a])" by (rule idle_ok_last [OF i now, where c = "c\<lparr>last_active := now\<rparr>"]) (use g(2) I(2,5) a in simp_all)
  moreover have "fds_ok ?s" by (rule fds_ok_frame [OF f]) (use c in simp_all)
  ultimately show thesis using that [OF run] by (auto simp: tab_ok_def)
qed

text \<open>A new descriptor is not in use, and \<^verbatim>\<open>fcntl\<close> works on it.\<close>

definition accept_ok :: "srv \<Rightarrow> newfd option \<Rightarrow> bool" where
  "accept_ok s accepted \<longleftrightarrow>
     (case accepted of None \<Rightarrow> True | Some new \<Rightarrow> fresh_fd s (n_fd new) \<and> n_getfl new = 0 \<and> n_setfl new = 0)"

lemma handle_accept_ok:
  assumes tab: "tab_ok t s" and acc: "accept_ok s (Some new)" and now: "t \<le> now" and "n_fd new = fd"
  obtains s' a c where "handle_accept now s (Some new) = Some (0, s')" "tab_ok now s'"
    "conns s a = None" "conns s' = (conns s)(a \<mapsto> c)" "kv s' = kv s"
    "c = \<lparr>c_fd = fd, want_read = True, want_write = False, want_close = False, incoming = [], outgoing = [],
       last_active = now\<rparr>"
    "fd2conn s' = (fd2conn s @ replicate (fd + 1 - length (fd2conn s)) NULL)[fd := Some a]"
proof -
  from acc assms(4) have fd: "fresh_fd s fd" and nb: "\<not> isl (fd_set_nb (n_getfl new) (n_flags new) (n_setfl new))"
    by (auto simp: accept_ok_def fd_set_nb_works)
  from tab obtain xs where f: "fds_ok s" and i: "idle_ok t s xs" by (auto simp: tab_ok_def)
  note I = idle_okD [OF i]
  define a where "a = cbrk s"
  define c :: conn where "c = \<lparr>c_fd = fd, want_read = True, want_write = False, want_close = False,
    incoming = [], outgoing = [], last_active = now\<rparr>"
  let ?n = "\<lparr>d_prev = NULL, d_next = NULL\<rparr>"
  let ?fds = "fd2conn s @ replicate (fd + 1 - length (fd2conn s)) NULL"
  have a: "a \<notin> set (idle_head # xs)" using I(5) by (auto simp: a_def)
  then have ca: "conns s a = None" and rm: "remove1 a xs = xs" using I(2) by (auto simp: remove1_idem)
  from idle.push_last [OF I(1) a, of ?n] obtain g where
    g: "dlist_insert_before ((dl s)(a \<mapsto> ?n)) (Some idle_head) (Some a) = Some g" "dlist g idle_head (xs @ [a])" .
  have grow: "(if length (fd2conn s) \<le> fd then ?fds else fd2conn s) = ?fds" by simp
  have free: "?fds ! fd = NULL"
  proof (cases "fd < length (fd2conn s)")
    case True
    then show ?thesis using fds_ok_conn [OF f True] fd by (cases "fd2conn s ! fd") (auto simp: fresh_fd_def nth_append)
  qed (simp add: nth_append)
  let ?s = "s\<lparr>conns := (conns s)(a \<mapsto> c), dl := g, cbrk := a + 1, fd2conn := ?fds[fd := Some a]\<rparr>"
  have "handle_accept now s (Some new) = Some (0, ?s)"
    unfolding handle_accept_def using g(1) free grow nb assms(4)
    by (cases "length (fd2conn s) \<le> fd") (simp_all add: set_conn_def a_def c_def Let_def nth_append)
  moreover have "idle_ok now ?s (remove1 a xs @ [a])"
    by (rule idle_ok_last [OF i now, where c = c]) (use g(2) rm in simp_all, simp_all add: c_def a_def)
  moreover have "fds_ok ?s" by (rule fds_ok_open [OF f fd ca, of c]) (simp_all add: c_def)
  ultimately show thesis using that [of ?s a c] ca c_def by (auto simp: tab_ok_def)
qed

end
