(* ===== verification/Timer.thy ===== *)
theory Timer
  imports ConnTable "HOL-Library.Signed_Division"
begin

text \<open>
  \<^verbatim>\<open>lib/server/timer.cpp\<close>: the timeout of \<^verbatim>\<open>poll\<close> and the removal of idle connections and expired
  keys.  The clock is an argument.  \<open>expired\<close> specifies which keys one round removes.
\<close>

section \<open>Data\<close>

definition K_IDLE_TIMEOUT_MS :: u64 where "K_IDLE_TIMEOUT_MS = 5 * 1000"
definition K_MAX_WORKS :: nat where "K_MAX_WORKS = 2000"

section \<open>Operations\<close>

definition next_timer_ms :: "u64 \<Rightarrow> srv \<Rightarrow> u32 option" where
  "next_timer_ms now s = do {
     let next = - 1;
     empty \<leftarrow> dlist_empty (dl s) (Some idle_head);
     next \<leftarrow> (if \<not> empty then do {
         n \<leftarrow> deref (dl s) (Some idle_head);
         c \<leftarrow> deref (conns s) (d_next n);
         Some (last_active c + K_IDLE_TIMEOUT_MS)
       } else Some next);
     let heap = theap (kv s);
     let next = (if heap \<noteq> [] \<and> hi_val (heap ! 0) < next then hi_val (heap ! 0) else next);
     if next = - 1 then Some (- 1)
     else if next \<le> now then Some 0
     else Some (ucast (next - now))
   }"

partial_function (option) idle_loop :: "u64 \<Rightarrow> srv \<Rightarrow> srv option" where
  "idle_loop now s = do {
     empty \<leftarrow> dlist_empty (dl s) (Some idle_head);
     if empty then Some s
     else do {
       n \<leftarrow> deref (dl s) (Some idle_head);
       conn \<leftarrow> d_next n;
       c \<leftarrow> conns s conn;
       let next = last_active c + K_IDLE_TIMEOUT_MS;
       if next \<ge> now then Some s
       else do {
         s \<leftarrow> conn_destroy s conn;
         idle_loop now s
       }
     }
   }"

partial_function (option) expire_loop :: "u64 \<Rightarrow> nat \<Rightarrow> kvs \<Rightarrow> kvs option" where
  "expire_loop now nworks s =
     (if theap s \<noteq> [] \<and> hi_val (theap s ! 0) < now
      then do {
        ent \<leftarrow> hi_ref (theap s ! 0);
        n \<leftarrow> enode s ent;
        (node, h, m) \<leftarrow> hm_delete (enode s) (db s) (hcode n) (hnode_same ent);
        c_assert (node = Some ent);
        s \<leftarrow> entry_del now (s\<lparr>enode := h, db := m\<rparr>) ent;
        if nworks \<ge> K_MAX_WORKS then Some s else expire_loop now (nworks + 1) s
      } else Some s)"

definition process_timers :: "u64 \<Rightarrow> srv \<Rightarrow> srv option" where
  "process_timers now s = do {
     s \<leftarrow> idle_loop now s;
     k \<leftarrow> expire_loop now 0 (kv s);
     Some (s\<lparr>kv := k\<rparr>)
   }"

section \<open>Idle connections\<close>

lemma dlist_head:
  assumes "dlist h head (x # xs)"
  obtains n where "h head = Some n" "d_next n = Some x"
proof -
  obtain n where n: "h head = Some n" using dlist_nodes [OF assms, of head] by auto
  then have "d_next n = Some x" using dlist_first [OF assms] by simp
  then show thesis using that n by blast
qed

lemma idle_loop_ok:
  "fds_ok s \<Longrightarrow> idle_ok t s xs \<Longrightarrow> \<exists>s'. idle_loop now s = Some s' \<and> fds_ok s' \<and>
     idle_ok t s' (dropWhile (\<lambda>a. active s a + K_IDLE_TIMEOUT_MS < now) xs) \<and>
     (\<forall>a. conns s' a = (if a \<in> set (takeWhile (\<lambda>a. active s a + K_IDLE_TIMEOUT_MS < now) xs) then None else conns s a)) \<and>
     kv s' = kv s"
proof (induction xs arbitrary: s)
  case Nil
  have "dlist_empty (dl s) (Some idle_head) = Some True" using idle.empty_law [OF idle_okD(1) [OF Nil(2)]] by simp
  then have "idle_loop now s = Some s" by (subst idle_loop.simps) simp
  then show ?case using Nil by simp
next
  case (Cons a xs)
  note I = idle_okD [OF Cons.prems(2)]
  let ?P = "\<lambda>s a. active s a + K_IDLE_TIMEOUT_MS < now"
  have e: "dlist_empty (dl s) (Some idle_head) = Some False" using idle.empty_law [OF I(1)] by simp
  obtain n where n: "dl s idle_head = Some n" "d_next n = Some a" using dlist_head [OF I(1)] .
  obtain c where c: "conns s a = Some c" using I(2) by (metis domD list.set_intros(1))
  have act: "active s a = last_active c" using c by (simp add: active_def)
  show ?case
  proof (cases "?P s a")
    case False
    then have "idle_loop now s = Some s" using e n c act by (subst idle_loop.simps) (simp add: not_less)
    then show ?thesis using Cons.prems False by simp
  next
    case True
    from conn_destroy_ok [OF Cons.prems c] obtain s1 where
      s1: "conn_destroy s a = Some s1" "fds_ok s1" "idle_ok t s1 (remove1 a (a # xs))"
        "conns s1 = (conns s)(a := None)" "kv s1 = kv s" .
    have loop: "idle_loop now s = idle_loop now s1"
      using e n c act True s1(1) by (subst idle_loop.simps) (simp add: not_less [symmetric])
    have same: "active s1 b = active s b" if "b \<in> set xs" for b
      using that I(6) s1(4) by (auto simp: active_def)
    have tw: "takeWhile (?P s1) xs = takeWhile (?P s) xs" "dropWhile (?P s1) xs = dropWhile (?P s) xs"
      using same by (auto intro!: takeWhile_cong dropWhile_cong)
    from Cons.IH [OF s1(2)] s1(3) obtain s' where
      s': "idle_loop now s1 = Some s'" "fds_ok s'" "idle_ok t s' (dropWhile (?P s) xs)"
        "\<forall>b. conns s' b = (if b \<in> set (takeWhile (?P s) xs) then None else conns s1 b)" "kv s' = kv s1"
      unfolding tw by auto
    have w: "takeWhile (?P s) (a # xs) = a # takeWhile (?P s) xs" "dropWhile (?P s) (a # xs) = dropWhile (?P s) xs"
      using True by simp_all
    have cs: "\<forall>b. conns s' b = (if b \<in> set (a # takeWhile (?P s) xs) then None else conns s b)"
      using s'(4) s1(4) by simp
    have run: "idle_loop now s = Some s'" using loop s'(1) by simp
    have k: "kv s' = kv s" using s'(5) s1(5) by simp
    show ?thesis unfolding w by (intro exI [of _ s'] conjI run s'(2,3) cs k)
  qed
qed

lemma sorted_dropWhile_filter:
  assumes "sorted (map f xs)" "\<forall>a \<in> set xs. \<forall>b \<in> set xs. f a \<le> f b \<longrightarrow> P b \<longrightarrow> P a"
  shows "takeWhile P xs = filter P xs" "dropWhile P xs = filter (\<lambda>a. \<not> P a) xs"
proof -
  have "takeWhile P xs = filter P xs \<and> dropWhile P xs = filter (\<lambda>a. \<not> P a) xs"
    using assms
  proof (induction xs)
    case (Cons a xs)
    have so: "sorted (map f xs)" and le: "\<forall>b \<in> set xs. f a \<le> f b" using Cons.prems(1) by simp_all
    have "\<forall>a \<in> set xs. \<forall>b \<in> set xs. f a \<le> f b \<longrightarrow> P b \<longrightarrow> P a"
      using Cons.prems(2) by (meson list.set_intros(2))
    note ih = Cons.IH [OF so this]
    show ?case
    proof (cases "P a")
      case True
      then show ?thesis using ih by simp
    next
      case False
      then have "\<forall>b \<in> set xs. \<not> P b" using Cons.prems(2) le by (meson list.set_intros)
      then show ?thesis using False by simp
    qed
  qed simp
  then show "takeWhile P xs = filter P xs" "dropWhile P xs = filter (\<lambda>a. \<not> P a) xs" by simp_all
qed

text \<open>Clock readings are far from wrapping around.\<close>

definition clock_ok :: "u64 \<Rightarrow> bool" where
  "clock_ok t \<longleftrightarrow> unat t + 5000 < 2 ^ 63"

lemma clock_add: "clock_ok t \<Longrightarrow> a \<le> t \<Longrightarrow> unat (a + K_IDLE_TIMEOUT_MS) = unat a + 5000"
  unfolding clock_ok_def K_IDLE_TIMEOUT_MS_def by (simp add: word_le_nat_alt unat_word_ariths)

lemma idle_loop_all:
  assumes tab: "tab_ok t s" and t: "clock_ok t"
  obtains s' where "idle_loop now s = Some s'" "tab_ok t s'" "kv s' = kv s"
    "\<forall>a. conns s' a = (case conns s a of None \<Rightarrow> None
       | Some c \<Rightarrow> if last_active c + K_IDLE_TIMEOUT_MS < now then None else Some c)"
proof -
  from tab obtain xs where f: "fds_ok s" and i: "idle_ok t s xs" by (auto simp: tab_ok_def)
  note I = idle_okD [OF i]
  let ?P = "\<lambda>a. active s a + K_IDLE_TIMEOUT_MS < now"
  have mono: "\<forall>a \<in> set xs. \<forall>b \<in> set xs. active s a \<le> active s b \<longrightarrow> ?P b \<longrightarrow> ?P a"
  proof (intro ballI impI)
    fix a b assume ab: "a \<in> set xs" "b \<in> set xs" "active s a \<le> active s b" "?P b"
    have "unat (active s a + K_IDLE_TIMEOUT_MS) = unat (active s a) + 5000"
      "unat (active s b + K_IDLE_TIMEOUT_MS) = unat (active s b) + 5000"
      using clock_add [OF t] I(4) ab(1,2) by auto
    then show "?P a" using ab(3,4) by (simp add: word_le_nat_alt word_less_nat_alt)
  qed
  note tw = sorted_dropWhile_filter [OF I(3) mono]
  from idle_loop_ok [OF f i, of now] obtain s' where
    s': "idle_loop now s = Some s'" "fds_ok s'" "idle_ok t s' (dropWhile ?P xs)"
      "\<forall>a. conns s' a = (if a \<in> set (takeWhile ?P xs) then None else conns s a)" "kv s' = kv s" by blast
  have "conns s' a = (case conns s a of None \<Rightarrow> None
       | Some c \<Rightarrow> if last_active c + K_IDLE_TIMEOUT_MS < now then None else Some c)" for a
    using s'(4) I(2) unfolding tw by (cases "conns s a") (auto simp: active_def)
  then show thesis using that [of s'] s' by (auto simp: tab_ok_def)
qed

section \<open>Expired keys\<close>

text \<open>One round removes keys that are over, the earliest first, at most \<open>n\<close> of them; unless it
  stopped at \<open>n\<close>, none that is over stays.\<close>

definition expired :: "nat \<Rightarrow> u64 \<Rightarrow> keyspace \<Rightarrow> keyspace \<Rightarrow> bool" where
  "expired n now A A' \<longleftrightarrow> (\<exists>R. A' = A |` (- R) \<and> R \<subseteq> dom A \<and> finite R \<and> card R \<le> n \<and>
     (\<forall>k \<in> R. \<exists>v t. A k = Some (v, Some t) \<and> t < now \<and> (\<forall>k' v' t'. A' k' = Some (v', Some t') \<longrightarrow> t \<le> t')) \<and>
     (card R < n \<longrightarrow> (\<forall>k v t. A' k = Some (v, Some t) \<longrightarrow> now \<le> t)))"

lemma expired_none:
  assumes "\<forall>k v t. A k = Some (v, Some t) \<longrightarrow> now \<le> t"
  shows "expired n now A A"
  unfolding expired_def using assms by (intro exI [of _ "{}"]) simp

lemma expired_cons:
  assumes "A k = Some (v, Some t)" "t < now" "\<forall>k' v' t'. A k' = Some (v', Some t') \<longrightarrow> t \<le> t'"
    "expired n now (A(k := None)) A'"
  shows "expired (Suc n) now A A'"
proof -
  from assms(4) obtain R where R: "A' = (A(k := None)) |` (- R)" "R \<subseteq> dom (A(k := None))" "finite R" "card R \<le> n"
    "\<forall>k' \<in> R. \<exists>v t. (A(k := None)) k' = Some (v, Some t) \<and> t < now \<and> (\<forall>k' v' t'. A' k' = Some (v', Some t') \<longrightarrow> t \<le> t')"
    "card R < n \<longrightarrow> (\<forall>k v t. A' k = Some (v, Some t) \<longrightarrow> now \<le> t)"
    unfolding expired_def by blast
  have k: "k \<notin> R" using R(2) by auto
  show ?thesis
    unfolding expired_def
  proof (intro exI [of _ "insert k R"] conjI)
    show eq: "A' = A |` (- insert k R)" unfolding R(1) by (rule ext) (simp add: restrict_map_def)
    show "insert k R \<subseteq> dom A" using R(2) assms(1) by auto
    show "finite (insert k R)" using R(3) by simp
    show "card (insert k R) \<le> Suc n" using R(3,4) k by simp
    show "card (insert k R) < Suc n \<longrightarrow> (\<forall>k v t. A' k = Some (v, Some t) \<longrightarrow> now \<le> t)"
      using R(3,6) k by simp
    have sub: "A' k' = Some p \<Longrightarrow> A k' = Some p" for k' p unfolding eq by (simp add: restrict_map_def split: if_splits)
    show "\<forall>k' \<in> insert k R. \<exists>v t. A k' = Some (v, Some t) \<and> t < now \<and> (\<forall>k' v' t'. A' k' = Some (v', Some t') \<longrightarrow> t \<le> t')"
    proof
      fix k' assume "k' \<in> insert k R"
      then consider "k' = k" | "k' \<noteq> k" "k' \<in> R" by blast
      then show "\<exists>v t. A k' = Some (v, Some t) \<and> t < now \<and> (\<forall>k' v' t'. A' k' = Some (v', Some t') \<longrightarrow> t \<le> t')"
      proof cases
        case 1
        then show ?thesis using assms(1-3) sub by blast
      next
        case 2
        then have "(A(k := None)) k' = A k'" by simp
        then show ?thesis using R(5) 2(2) by metis
      qed
    qed
  qed
qed

text \<open>A key with an expiry time has an entry in the heap.\<close>

lemma kv_abs_due:
  assumes abs: "kv_abs s D zt A" and k: "A k = Some (v, Some t)"
  shows "\<exists>a \<in> D. k = e_key (ent s a) \<and> ttl_of (theap s) a = Some t"
proof -
  have "k \<in> (\<lambda>a. e_key (ent s a)) ` D" using abs k by (auto simp: kv_abs_def)
  then obtain a where a: "a \<in> D" "k = e_key (ent s a)" by blast
  then show ?thesis using k kv_absD(1) [OF abs a(1)] by auto
qed

text \<open>One turn of the loop: the entry at the root of the heap is due and leaves the keyspace.\<close>

lemma expire_one:
  assumes inv: "kv_inv s D zt" and abs: "kv_abs s D zt A" and due: "theap s \<noteq> []" "hi_val (theap s ! 0) < now"
  obtains s1 D1 A1 where
    "\<And>nworks. expire_loop now nworks s = (if nworks \<ge> K_MAX_WORKS then Some s1 else expire_loop now (nworks + 1) s1)"
    "kv_inv s1 D1 zt" "kv_abs s1 D1 zt A1" "\<And>n A'. expired n now A1 A' \<Longrightarrow> expired (Suc n) now A A'"
proof -
  note I = kv_invD [OF inv]
  from tq.first_in [OF I(3) first_item_root [OF due(1)]] obtain x where
    x: "x \<in> D" "hi_ref (theap s ! 0) = Some x" "ttl_of (theap s) x = Some (hi_val (theap s ! 0))"
      "\<forall>y t. ttl_of (theap s) y = Some t \<longrightarrow> hi_val (theap s ! 0) \<le> t" .
  let ?hc = "\<lambda>a. str_hash (e_key (ent s a))"
  from hm.rep_node [OF I(1) x(1)] obtain p where node: "enode s x = Some \<lparr>hnext = p, hcode = ?hc x\<rparr>" by blast
  from hm.node_delete [OF I(1) x(1)] obtain h m where
    d: "hm_delete (enode s) (db s) (?hc x) (hnode_same x) = Some (Some x, h, m)"
      "hmap_set h ?hc m (D - {x})" by blast
  from kv_unlink_ok [OF inv abs x(1) refl d(2), of now] obtain s1 where
    s1: "entry_del now (s\<lparr>enode := h, db := m\<rparr>) x = Some s1" "kv_inv s1 (D - {x}) zt"
      "kv_abs s1 (D - {x}) zt (A(e_key (ent s x) := None))" "\<forall>b \<in> D - {x}. ents s1 b = ents s b"
      "\<forall>b. b \<noteq> x \<longrightarrow> ttl_of (theap s1) b = ttl_of (theap s) b" "ttl_of (theap s1) x = None" .
  have key: "A (e_key (ent s x)) = Some (val_of (zm s) (ent s x) (zt x), Some (hi_val (theap s ! 0)))"
    using kv_absD(1) [OF abs x(1)] x(3) by simp
  have min: "\<forall>k' v' t'. A k' = Some (v', Some t') \<longrightarrow> hi_val (theap s ! 0) \<le> t'"
    using kv_abs_due [OF abs] x(4) by blast
  have step: "expire_loop now nworks s = (if nworks \<ge> K_MAX_WORKS then Some s1 else expire_loop now (nworks + 1) s1)"
    for nworks using due x(2) node d(1) s1(1) by (subst expire_loop.simps) simp
  show thesis by (rule that [OF step s1(2,3) expired_cons [OF key due(2) min]])
qed

lemma expire_loop_ok:
  assumes "kv_inv s D zt" "kv_abs s D zt A" "nworks + n = Suc K_MAX_WORKS" "n > 0"
  shows "\<exists>s' D' A'. expire_loop now nworks s = Some s' \<and> kv_inv s' D' zt \<and> kv_abs s' D' zt A' \<and> expired n now A A'"
  using assms
proof (induction n arbitrary: nworks s D A)
  case (Suc n)
  note inv = Suc.prems(1) and abs = Suc.prems(2)
  show ?case
  proof (cases "theap s \<noteq> [] \<and> hi_val (theap s ! 0) < now")
    case False
    then have "\<forall>i. first_item (theap s) = Some i \<longrightarrow> now \<le> hi_val i" by (auto simp: first_item_def not_less)
    then have "expired (Suc n) now A A"
      using tq.none_over [OF kv_invD(3) [OF inv]] kv_abs_due [OF abs] by (intro expired_none) blast
    moreover have "expire_loop now nworks s = Some s" using False by (subst expire_loop.simps) auto
    ultimately show ?thesis using inv abs by blast
  next
    case True
    from expire_one [OF inv abs conjunct1 [OF True] conjunct2 [OF True]] obtain s1 D1 A1 where
      s1: "\<And>nworks. expire_loop now nworks s = (if nworks \<ge> K_MAX_WORKS then Some s1 else expire_loop now (nworks + 1) s1)"
        "kv_inv s1 D1 zt" "kv_abs s1 D1 zt A1" "\<And>n A'. expired n now A1 A' \<Longrightarrow> expired (Suc n) now A A'" by blast
    show ?thesis
    proof (cases n)
      case 0
      then have "expire_loop now nworks s = Some s1" using s1(1) Suc.prems(3) by simp
      moreover have "expired 0 now B B" for B unfolding expired_def by (intro exI [of _ "{}"]) simp
      ultimately show ?thesis using s1(2,3,4) 0 by blast
    next
      case (Suc n')
      then have "(nworks + 1) + n = Suc K_MAX_WORKS" "0 < n" using Suc.prems(3) by simp_all
      from Suc.IH [OF s1(2,3) this] obtain s' D' A' where
        r: "expire_loop now (nworks + 1) s1 = Some s'" "kv_inv s' D' zt" "kv_abs s' D' zt A'"
          "expired n now A1 A'" by blast
      have "expire_loop now nworks s = Some s'" using s1(1) r(1) Suc Suc.prems(3) by simp
      then show ?thesis using r(2,3) s1(4) [OF r(4)] by blast
    qed
  qed
qed simp

lemma expire_loop_rep:
  assumes "kv_rep s A"
  obtains s' A' where "expire_loop now 0 s = Some s'" "kv_rep s' A'" "expired (Suc K_MAX_WORKS) now A A'"
proof -
  from assms obtain D zt where "kv_inv s D zt" "kv_abs s D zt A" unfolding kv_rep_def by blast
  from expire_loop_ok [OF this, of 0 "Suc K_MAX_WORKS" now] show thesis using that unfolding kv_rep_def by auto
qed

lemma process_timers_ok:
  assumes "tab_ok t s" "clock_ok t" "kv_rep (kv s) A"
  obtains s' A' where "process_timers now s = Some s'" "tab_ok t s'" "kv_rep (kv s') A'"
    "expired (Suc K_MAX_WORKS) now A A'"
    "\<forall>a. conns s' a = (case conns s a of None \<Rightarrow> None
       | Some c \<Rightarrow> if last_active c + K_IDLE_TIMEOUT_MS < now then None else Some c)"
proof -
  from idle_loop_all [OF assms(1,2), of now] obtain s1 where
    s1: "idle_loop now s = Some s1" "tab_ok t s1" "kv s1 = kv s"
      "\<forall>a. conns s1 a = (case conns s a of None \<Rightarrow> None
         | Some c \<Rightarrow> if last_active c + K_IDLE_TIMEOUT_MS < now then None else Some c)" .
  from expire_loop_rep [OF assms(3), of now] obtain k A' where
    k: "expire_loop now 0 (kv s) = Some k" "kv_rep k A'" "expired (Suc K_MAX_WORKS) now A A'" .
  have "process_timers now s = Some (s1\<lparr>kv := k\<rparr>)" using s1(1,3) k(1) by (simp add: process_timers_def)
  moreover have "tab_ok t (s1\<lparr>kv := k\<rparr>)" by (rule tab_ok_frame [OF s1(2)]) simp_all
  ultimately show thesis using that k(2,3) s1(4) by simp
qed

section \<open>The timeout\<close>

text \<open>The times at which something is due, as natural numbers.  A timer of \<open>2 ^ 64 - 1\<close> is never due.\<close>

definition deadlines :: "srv \<Rightarrow> keyspace \<Rightarrow> nat set" where
  "deadlines s A = {unat (last_active c) + 5000 | a c. conns s a = Some c} \<union>
     {unat t | k v t. A k = Some (v, Some t) \<and> t \<noteq> - 1}"

lemma idle_first:
  assumes i: "idle_ok t s xs" and t: "clock_ok t"
  shows "xs = [] \<Longrightarrow> conns s = Map.empty"
    and "xs = a # ys \<Longrightarrow> \<exists>c. conns s a = Some c \<and> unat (last_active c + K_IDLE_TIMEOUT_MS) = unat (last_active c) + 5000 \<and>
      (\<forall>b d. conns s b = Some d \<longrightarrow> unat (last_active c) \<le> unat (last_active d))"
proof -
  note I = idle_okD [OF i]
  show "xs = [] \<Longrightarrow> conns s = Map.empty" using I(2) by (metis dom_eq_empty_conv empty_set)
  assume xs: "xs = a # ys"
  then have "a \<in> dom (conns s)" using I(2) by auto
  then obtain c where c: "conns s a = Some c" by blast
  then have act: "active s a = last_active c" by (simp add: active_def)
  have "unat (last_active c) \<le> unat (last_active d)" if d: "conns s b = Some d" for b d
  proof -
    have "b \<in> set xs" using I(2) d by blast
    then have "active s a \<le> active s b" using I(3) xs by auto
    then show ?thesis using act d by (simp add: active_def word_le_nat_alt)
  qed
  moreover have "last_active c \<le> t" using I(4) xs act by simp
  ultimately show "\<exists>c. conns s a = Some c \<and> unat (last_active c + K_IDLE_TIMEOUT_MS) = unat (last_active c) + 5000 \<and>
      (\<forall>b d. conns s b = Some d \<longrightarrow> unat (last_active c) \<le> unat (last_active d))"
    using c clock_add [OF t] by blast
qed

definition next_idle :: "srv \<Rightarrow> addr list \<Rightarrow> u64" where
  "next_idle s xs = (case xs of [] \<Rightarrow> - 1 | a # _ \<Rightarrow> active s a + K_IDLE_TIMEOUT_MS)"

definition next_due :: "srv \<Rightarrow> addr list \<Rightarrow> u64" where
  "next_due s xs = (if theap (kv s) \<noteq> [] \<and> hi_val (theap (kv s) ! 0) < next_idle s xs
     then hi_val (theap (kv s) ! 0) else next_idle s xs)"

lemma next_timer_run:
  assumes i: "idle_ok t s xs"
  shows "next_timer_ms now s = Some (if next_due s xs = - 1 then - 1
    else if next_due s xs \<le> now then 0 else ucast (next_due s xs - now))"
proof (cases xs)
  case Nil
  then have "dlist_empty (dl s) (Some idle_head) = Some True" using idle.empty_law [OF idle_okD(1) [OF i]] by simp
  then show ?thesis using Nil by (simp add: next_timer_ms_def next_due_def next_idle_def Let_def)
next
  case (Cons a ys)
  note I = idle_okD [OF i]
  have e: "dlist_empty (dl s) (Some idle_head) = Some False" using idle.empty_law [OF I(1)] Cons by simp
  have d: "dlist (dl s) idle_head (a # ys)" using I(1) Cons by simp
  obtain n where n: "dl s idle_head = Some n" "d_next n = Some a" using dlist_head [OF d] .
  have "a \<in> dom (conns s)" using I(2) Cons by auto
  then obtain c where c: "conns s a = Some c" by blast
  have ni: "next_idle s xs = last_active c + K_IDLE_TIMEOUT_MS" using c Cons by (simp add: next_idle_def active_def)
  show ?thesis
    unfolding next_timer_ms_def next_due_def ni using e n c by (simp add: Let_def)
qed

text \<open>The two sources of a deadline: the first connection of the list, and the root of the heap.\<close>

lemma next_idle_ok:
  assumes i: "idle_ok t s xs" and t: "clock_ok t"
  shows "next_idle s xs = - 1 \<and> conns s = Map.empty \<or>
    (\<exists>a c. conns s a = Some c \<and> next_idle s xs = last_active c + K_IDLE_TIMEOUT_MS \<and>
       unat (next_idle s xs) = unat (last_active c) + 5000 \<and> next_idle s xs \<noteq> - 1 \<and>
       (\<forall>b d. conns s b = Some d \<longrightarrow> unat (next_idle s xs) \<le> unat (last_active d) + 5000))"
proof (cases xs)
  case Nil
  then show ?thesis using idle_first(1) [OF i t] by (simp add: next_idle_def)
next
  case (Cons a ys)
  from idle_first(2) [OF i t Cons] obtain c where c: "conns s a = Some c"
    "unat (last_active c + K_IDLE_TIMEOUT_MS) = unat (last_active c) + 5000"
    "\<forall>b d. conns s b = Some d \<longrightarrow> unat (last_active c) \<le> unat (last_active d)" by blast
  have ni: "next_idle s xs = last_active c + K_IDLE_TIMEOUT_MS" using c(1) Cons by (simp add: next_idle_def active_def)
  have "active s a \<le> t" using idle_okD(4) [OF i] Cons by simp
  then have "unat (last_active c) \<le> unat t" using c(1) by (simp add: active_def word_le_nat_alt)
  then have "unat (next_idle s xs) < 2 ^ 63" using t c(2) ni by (simp add: clock_ok_def)
  then have "next_idle s xs \<noteq> - 1" by (auto simp: unsigned_minus_1_eq_mask mask_eq_exp_minus_1)
  then show ?thesis using c ni by (intro disjI2 exI [of _ a] exI [of _ c]) simp
qed

lemma first_timer:
  assumes k: "kv_rep s A"
  shows "A key = Some (v, Some u) \<Longrightarrow> theap s \<noteq> [] \<and> hi_val (theap s ! 0) \<le> u"
    and "theap s \<noteq> [] \<Longrightarrow> \<exists>key v. A key = Some (v, Some (hi_val (theap s ! 0)))"
proof -
  from k obtain D zt where inv: "kv_inv s D zt" and abs: "kv_abs s D zt A" unfolding kv_rep_def by blast
  note tim = kv_invD(3) [OF inv]
  show "theap s \<noteq> [] \<and> hi_val (theap s ! 0) \<le> u" if A: "A key = Some (v, Some u)"
  proof -
    have "key \<in> (\<lambda>a. e_key (ent s a)) ` D" using A abs by (auto simp: kv_abs_def)
    then obtain a where "a \<in> D" "key = e_key (ent s a)" by blast
    then have a: "ttl_of (theap s) a = Some u" using A kv_absD(1) [OF abs, of a] by auto
    then have ne: "theap s \<noteq> []" by (auto simp: ttl_of_def)
    show ?thesis using tq.none_over [OF tim _ a] ne by (simp add: first_item_root)
  qed
  show "\<exists>key v. A key = Some (v, Some (hi_val (theap s ! 0)))" if ne: "theap s \<noteq> []"
  proof -
    from tq.first_in [OF tim first_item_root [OF ne]] obtain x where "x \<in> D" "ttl_of (theap s) x = Some (hi_val (theap s ! 0))" .
    then show ?thesis using kv_absD(1) [OF abs, of x] by metis
  qed
qed

lemma next_due_ok:
  assumes i: "idle_ok t s xs" and t: "clock_ok t" and k: "kv_rep (kv s) A"
  shows "next_due s xs = - 1 \<Longrightarrow> deadlines s A = {}"
    and "next_due s xs \<noteq> - 1 \<Longrightarrow> unat (next_due s xs) \<in> deadlines s A \<and> (\<forall>e \<in> deadlines s A. unat (next_due s xs) \<le> e)"
proof -
  let ?a = "theap (kv s)" and ?n = "next_due s xs"
  note root = first_timer(1) [OF k] and key = first_timer(2) [OF k] and idle = next_idle_ok [OF i t]
  have max: "u \<le> - 1" for u :: u64 by (rule word_n1_ge)
  have le1: "?n \<le> next_idle s xs" by (auto simp: next_due_def intro: less_imp_le)
  have le2: "?n \<le> u" if "A k = Some (v, Some u)" for k v u
  proof -
    have "?a \<noteq> []" "hi_val (?a ! 0) \<le> u" using root [OF that] by simp_all
    then show ?thesis by (auto simp: next_due_def not_less)
  qed
  show "deadlines s A = {}" if n: "?n = - 1"
  proof -
    have "next_idle s xs = - 1" using le1 n max by (metis antisym)
    then have "conns s = Map.empty" using idle by blast
    moreover have "u = - 1" if "A k = Some (v, Some u)" for k v u using le2 [OF that] n max by (metis antisym)
    ultimately show ?thesis unfolding deadlines_def by auto
  qed
  show "unat ?n \<in> deadlines s A \<and> (\<forall>e \<in> deadlines s A. unat ?n \<le> e)" if n: "?n \<noteq> - 1"
  proof
    show "unat ?n \<in> deadlines s A"
    proof (cases "?a \<noteq> [] \<and> hi_val (?a ! 0) < next_idle s xs")
      case True
      then have "?n = hi_val (?a ! 0)" by (simp add: next_due_def)
      then show ?thesis using key True n unfolding deadlines_def by auto
    next
      case False
      then have "?n = next_idle s xs" by (auto simp: next_due_def)
      then show ?thesis using idle n unfolding deadlines_def by auto
    qed
    show "\<forall>e \<in> deadlines s A. unat ?n \<le> e"
    proof
      fix e assume "e \<in> deadlines s A"
      then consider a c where "conns s a = Some c" "e = unat (last_active c) + 5000"
        | k v u where "A k = Some (v, Some u)" "e = unat u" unfolding deadlines_def by blast
      then show "unat ?n \<le> e"
      proof cases
        case 1
        then have "unat (next_idle s xs) \<le> e" using idle by auto
        then show ?thesis using le1 by (simp add: word_le_nat_alt)
      next
        case 2
        then show ?thesis using le2 by (simp add: word_le_nat_alt)
      qed
    qed
  qed
qed

section \<open>The clock\<close>

text \<open>\<^verbatim>\<open>get_monotonic_msec\<close> on what \<^verbatim>\<open>clock_gettime\<close> stores.\<close>

definition get_monotonic_msec :: "i64 \<Rightarrow> i64 \<Rightarrow> u64" where
  "get_monotonic_msec tv_sec tv_nsec = tv_sec * 1000 + of_int (sint tv_nsec sdiv 1000 sdiv 1000)"

lemma sdiv_nonneg: "0 \<le> x \<Longrightarrow> 0 < y \<Longrightarrow> x sdiv y = x div (y :: int)"
  by (cases "x = 0") (simp_all add: signed_divide_int_def)

lemma int_unat_of_int: "0 \<le> n \<Longrightarrow> n < 2 ^ 64 \<Longrightarrow> int (unat (of_int n :: u64)) = n"
  by (simp add: uint_word_of_int take_bit_eq_mod)

lemma unat_monotonic_msec:
  assumes "0 \<le> sint sec" "sint sec < 2 ^ 52" "0 \<le> sint nsec" "sint nsec < 10 ^ 9"
  shows "int (unat (get_monotonic_msec sec nsec)) = sint sec * 1000 + sint nsec div 1000000"
proof -
  have d: "sint nsec sdiv 1000 sdiv 1000 = sint nsec div 1000000"
    using assms(3) by (simp add: sdiv_nonneg zdiv_zmult2_eq [symmetric])
  have e: "get_monotonic_msec sec nsec = of_int (sint sec * 1000 + sint nsec div 1000000)"
    unfolding get_monotonic_msec_def d by simp
  have "0 \<le> sint nsec div 1000000" "sint nsec div 1000000 < 1000" using assms(3,4) by simp_all
  then have "0 \<le> sint sec * 1000 + sint nsec div 1000000" "sint sec * 1000 + sint nsec div 1000000 < 2 ^ 64"
    using assms(1,2) by simp_all
  then show ?thesis unfolding e by (rule int_unat_of_int)
qed

section \<open>Properties\<close>

text \<open>C39: the timeout of \<^verbatim>\<open>poll\<close>.  With no deadline pending it is \<open>-1\<close>, which waits for
  ever; otherwise there is an earliest deadline, of an idle connection or of a key, and the timeout
  is 0 when it has passed and else the time left, as long as that fits 32 bits.\<close>

theorem next_timer_correct:
  assumes "tab_ok t s" "clock_ok t" "kv_rep (kv s) A"
  shows "\<exists>r. next_timer_ms now s = Some r \<and>
    (if deadlines s A = {} then r = - 1
     else \<exists>d \<in> deadlines s A. (\<forall>e \<in> deadlines s A. d \<le> e) \<and>
       (if d \<le> unat now then r = 0 else unat r = (d - unat now) mod 2 ^ 32))"
proof -
  from assms(1) obtain xs where i: "idle_ok t s xs" by (auto simp: tab_ok_def)
  note n = next_due_ok [OF i assms(2,3)]
  let ?n = "next_due s xs"
  show ?thesis
  proof (cases "?n = - 1")
    case True
    then show ?thesis using next_timer_run [OF i, of now] n(1) by simp
  next
    case False
    have le: "?n \<le> now \<longleftrightarrow> unat ?n \<le> unat now" by (simp add: word_le_nat_alt)
    have "unat (ucast (?n - now) :: u32) = (unat ?n - unat now) mod 2 ^ 32" if "\<not> ?n \<le> now"
      using that by (simp add: unat_sub word_le_nat_alt unsigned_ucast_eq take_bit_eq_mod)
    then show ?thesis
      using next_timer_run [OF i, of now] False n(2) [OF False] le
      by (intro exI [of _ "if ?n \<le> now then 0 else ucast (?n - now)"]) auto
  qed
qed

lemma ex_srv_tab: "tab_ok 0 ex_srv"
proof -
  have "idle_ok 0 ex_srv [1]"
    by (simp add: idle_ok_def dlist_def dnext_def dprev_def ex_srv_def idle_head_def active_def ex_conn_def)
  moreover have "fds_ok ex_srv"
    unfolding fds_ok_def
  proof (intro conjI allI impI)
    fix i a assume "i < length (fd2conn ex_srv)" "fd2conn ex_srv ! i = Some a"
    then have "i = 4" "a = 1" by (auto simp: ex_srv_def nth_Cons split: nat.splits)
    then show "\<exists>c. conns ex_srv a = Some c \<and> c_fd c = i" by (simp add: ex_srv_def ex_conn_def)
  qed (auto simp: ex_srv_def ex_conn_def split: if_splits)
  ultimately show ?thesis by (auto simp: tab_ok_def)
qed

lemma clock_ok_0: "clock_ok 0"
  by (simp add: clock_ok_def)

theorem next_timer_witness:
  "\<exists>r. next_timer_ms 4000 ex_srv = Some r \<and> unat r = 1000"
proof -
  have "deadlines ex_srv Map.empty = {5000}" by (auto simp: deadlines_def ex_srv_def ex_conn_def)
  then show ?thesis using next_timer_correct [OF ex_srv_tab clock_ok_0 ex_srv_conn(2), of 4000] by auto
qed

text \<open>C38: one round of timers.  It is safe and terminates; exactly the connections whose last
  activity is more than the timeout ago are destroyed; and of the keys, those that are over are
  deleted, earliest first, up to \<open>K_MAX_WORKS + 1\<close> of them.\<close>

theorem process_timers_correct:
  assumes "tab_ok t s" "clock_ok t" "kv_rep (kv s) A"
  shows "\<exists>s' A'. process_timers now s = Some s' \<and> tab_ok t s' \<and>
    (\<forall>a. conns s' a = (case conns s a of None \<Rightarrow> None
       | Some c \<Rightarrow> if last_active c + K_IDLE_TIMEOUT_MS < now then None else Some c)) \<and>
    kv_rep (kv s') A' \<and> expired (Suc K_MAX_WORKS) now A A'"
proof -
  from process_timers_ok [OF assms, of now] obtain s' A' where
    r: "process_timers now s = Some s'" "tab_ok t s'" "kv_rep (kv s') A'" "expired (Suc K_MAX_WORKS) now A A'"
      "\<forall>a. conns s' a = (case conns s a of None \<Rightarrow> None
         | Some c \<Rightarrow> if last_active c + K_IDLE_TIMEOUT_MS < now then None else Some c)" .
  show ?thesis by (rule exI [of _ s'], rule exI [of _ A'], intro conjI r)
qed

theorem process_timers_witness:
  "\<exists>s' A'. process_timers 6000 ex_srv = Some s' \<and> tab_ok 0 s' \<and>
    (\<forall>a. conns s' a = (case conns ex_srv a of None \<Rightarrow> None
       | Some c \<Rightarrow> if last_active c + K_IDLE_TIMEOUT_MS < 6000 then None else Some c)) \<and>
    kv_rep (kv s') A' \<and> expired (Suc K_MAX_WORKS) 6000 Map.empty A'"
  by (rule process_timers_correct [OF ex_srv_tab clock_ok_0 ex_srv_conn(2)])

text \<open>C40: the clock is monotonic.  If \<^verbatim>\<open>clock_gettime\<close> never goes back and its seconds stay below
  \<open>2 ^ 52\<close>, then the millisecond readings are exact, never go back, and are far enough from
  wrapping around for every deadline that the timers compute.\<close>

theorem monotonic_msec:
  assumes "0 \<le> sint sec" "sint sec' < 2 ^ 52" "0 \<le> sint nsec" "sint nsec < 10 ^ 9" "0 \<le> sint nsec'" "sint nsec' < 10 ^ 9"
    and "sint sec < sint sec' \<or> sint sec = sint sec' \<and> sint nsec \<le> sint nsec'"
  shows "int (unat (get_monotonic_msec sec nsec)) = sint sec * 1000 + sint nsec div 1000000 \<and>
    get_monotonic_msec sec nsec \<le> get_monotonic_msec sec' nsec' \<and> clock_ok (get_monotonic_msec sec' nsec')"
proof -
  have le: "sint sec \<le> sint sec'" using assms(7) by auto
  have e: "int (unat (get_monotonic_msec sec nsec)) = sint sec * 1000 + sint nsec div 1000000"
    using unat_monotonic_msec [of sec nsec] assms le by simp
  have e': "int (unat (get_monotonic_msec sec' nsec')) = sint sec' * 1000 + sint nsec' div 1000000"
    using unat_monotonic_msec [of sec' nsec'] assms le by simp
  have "sint nsec div 1000000 < 1000" "0 \<le> sint nsec' div 1000000" "sint nsec' div 1000000 < 1000"
    using assms(3-6) by simp_all
  moreover have "sint sec = sint sec' \<Longrightarrow> sint nsec div 1000000 \<le> sint nsec' div 1000000"
    using assms(7) by (auto intro: zdiv_mono1)
  ultimately have "int (unat (get_monotonic_msec sec nsec)) \<le> int (unat (get_monotonic_msec sec' nsec'))"
    unfolding e e' using le by (cases "sint sec = sint sec'") simp_all
  then have "unat (get_monotonic_msec sec nsec) \<le> unat (get_monotonic_msec sec' nsec')" by (simp only: of_nat_le_iff)
  moreover have "int (unat (get_monotonic_msec sec' nsec') + 5000) < int (2 ^ 63)"
    unfolding of_nat_add e' using assms(2) \<open>sint nsec' div 1000000 < 1000\<close> by simp
  then have "unat (get_monotonic_msec sec' nsec') + 5000 < 2 ^ 63" by (simp only: of_nat_less_iff)
  ultimately show ?thesis using e by (simp add: word_le_nat_alt clock_ok_def)
qed

theorem monotonic_msec_witness:
  "get_monotonic_msec 1 999999999 \<le> get_monotonic_msec 2 0 \<and> clock_ok (get_monotonic_msec 2 0)"
  using monotonic_msec [of 1 2 999999999 0] by simp

end
