(* ===== verification/History.thy ===== *)
theory History
  imports Timer
begin

text \<open>
  The history of the whole server: the requests of all connections in the order in which they are
  executed, and the rounds of expiry between them.  \<open>hist\<close> says when a history is one of the abstract
  keyspace; \<open>strm\<close> ties the byte streams of one connection to the part of the history that is
  its own.
\<close>

section \<open>Histories\<close>

datatype hevent = Exec u64 addr "bytes list" reply | Expire u64

inductive hist :: "keyspace \<Rightarrow> hevent list \<Rightarrow> keyspace \<Rightarrow> bool" where
  hist_nil: "hist A [] A"
| hist_exec: "kv_step now A cmd r A1 \<Longrightarrow> hist A1 H A2 \<Longrightarrow> hist A (Exec now a cmd r # H) A2"
| hist_expire: "expired (Suc K_MAX_WORKS) now A A1 \<Longrightarrow> hist A1 H A2 \<Longrightarrow> hist A (Expire now # H) A2"

text \<open>The commands of one connection, with their replies.\<close>

fun execs :: "hevent list \<Rightarrow> addr \<Rightarrow> (bytes list \<times> reply) list" where
  "execs [] a = []"
| "execs (Exec now b cmd r # H) a = (if b = a then (cmd, r) # execs H a else execs H a)"
| "execs (Expire now # H) a = execs H a"

lemma hist_append: "hist A H A1 \<Longrightarrow> hist A1 H' A2 \<Longrightarrow> hist A (H @ H') A2"
  by (induction rule: hist.induct) (auto intro: hist.intros)

lemma execs_append [simp]: "execs (H @ H') a = execs H a @ execs H' a"
  by (induction H a rule: execs.induct) auto

lemma kv_run_hist:
  "kv_run clk i A cmds rs A' \<Longrightarrow> \<exists>H. hist A H A' \<and> (\<forall>b. execs H b = (if b = a then zip cmds rs else []))"
proof (induction rule: kv_run.induct)
  case (stop i A)
  show ?case by (intro exI [of _ "[]"]) (simp add: hist_nil)
next
  case (step i A cmd r A' cmds rs A'')
  then obtain H where "hist A' H A''" "\<forall>b. execs H b = (if b = a then zip cmds rs else [])" by blast
  then show ?case
    using hist_exec [OF step(1)] by (intro exI [of _ "Exec (clk i) a cmd r # H"]) simp
qed

section \<open>Traffic\<close>

text \<open>What was read from and written to the connections.\<close>

type_synonym traffic = "(addr \<times> bytes \<times> bytes) list"

definition received :: "traffic \<Rightarrow> addr \<Rightarrow> bytes" where
  "received L a = concat (map (\<lambda>(b, r, w). if b = a then r else []) L)"

definition transmitted :: "traffic \<Rightarrow> addr \<Rightarrow> bytes" where
  "transmitted L a = concat (map (\<lambda>(b, r, w). if b = a then w else []) L)"

lemma traffic_simps [simp]:
  "received [] a = []" "received ((b, r, w) # L) a = (if b = a then r else []) @ received L a" "received (L @ L') a = received L a @ received L' a"
  "transmitted [] a = []" "transmitted ((b, r, w) # L) a = (if b = a then w else []) @ transmitted L a" "transmitted (L @ L') a = transmitted L a @ transmitted L' a"
  by (simp_all add: received_def transmitted_def)

text \<open>\<open>R\<close> was read from and \<open>S\<close> written to a connection in state \<open>c\<close>, for which the pairs \<open>ps\<close> of a
  command and its reply have been executed.\<close>

definition strm :: "conn \<Rightarrow> bytes \<Rightarrow> bytes \<Rightarrow> (bytes list \<times> reply) list \<Rightarrow> bool" where
  "strm c R S ps \<longleftrightarrow> (\<exists>bad. split_reqs R = (map fst ps, incoming c, bad) \<and> (bad \<longrightarrow> want_close c)) \<and>
     S @ outgoing c = replies (map snd ps)"

lemma strm_cong:
  "strm c R S ps \<Longrightarrow> incoming c' = incoming c \<Longrightarrow> outgoing c' = outgoing c \<Longrightarrow> (want_close c \<Longrightarrow> want_close c') \<Longrightarrow>
     strm c' R S ps"
  unfolding strm_def by auto

lemma strm_new: "incoming c = [] \<Longrightarrow> outgoing c = [] \<Longrightarrow> strm c [] [] []"
  unfolding strm_def using split_reqs.simps [of "[]"] by auto

lemma strm_written: "strm c R S ps \<Longrightarrow> written c writer = (w, c') \<Longrightarrow> strm c' R (S @ w) ps"
  using written_stream [of c writer w c'] unfolding strm_def by auto

lemma strm_read:
  assumes st: "strm c R S ps" and open_c: "\<not> want_close c"
    and sp: "split_reqs (incoming c @ buf) = (cmds, rest, bad)" and len: "length rs = length cmds"
  shows "strm (c\<lparr>incoming := rest, outgoing := outgoing c @ replies rs, want_close := want_close c \<or> bad\<rparr>)
    (R @ buf) S (ps @ zip cmds rs)"
proof -
  from st open_c have o: "split_reqs R = (map fst ps, incoming c, False)" "S @ outgoing c = replies (map snd ps)"
    unfolding strm_def by auto
  have "split_reqs (R @ buf) = (map fst ps @ cmds, rest, bad)" unfolding split_reqs_append [OF o(1)] sp by simp
  moreover have "S @ outgoing c @ replies rs = replies (map snd ps @ rs)"
    using o(2) by (metis append_assoc replies_simps(3))
  ultimately show ?thesis using len unfolding strm_def by simp
qed

end
