(* ===== verification/Server.thy ===== *)
theory Server
  imports History
begin

text \<open>
  \<^verbatim>\<open>server.cpp\<close>: the event loop.  One turn of the loop is \<open>loop_iter\<close>; what the kernel does in
  that turn (which sockets are ready, what they deliver, the clock) is the record \<open>env\<close>, and
  \<open>env_ok\<close> states what \<^verbatim>\<open>poll\<close>, \<^verbatim>\<open>accept\<close>, \<^verbatim>\<open>read\<close>, \<^verbatim>\<open>write\<close> and the monotonic clock document.
  The lemmas describe one connection: what its callbacks leave of it, of the keys and of the history.
\<close>

section \<open>Operations\<close>

definition POLLIN :: u32 where "POLLIN = 1"
definition POLLOUT :: u32 where "POLLOUT = 4"
definition POLLERR :: u32 where "POLLERR = 8"

definition poll_events :: "conn \<Rightarrow> u32" where
  "poll_events c =
     (let events = POLLERR;
          events = (if want_read c then events OR POLLIN else events)
      in if want_write c then events OR POLLOUT else events)"

fun poll_args :: "srv \<Rightarrow> ptr list \<Rightarrow> (nat \<times> u32) list option" where
  "poll_args s [] = Some []"
| "poll_args s (NULL # ps) = poll_args s ps"
| "poll_args s (Some conn # ps) = do {
     c \<leftarrow> conns s conn;
     args \<leftarrow> poll_args s ps;
     Some ((c_fd c, poll_events c) # args)
   }"

text \<open>What the kernel does for one ready connection.\<close>

record io =
  io_now :: u64
  io_clk :: "nat \<Rightarrow> u64"
  io_read :: rres
  io_writer :: "bytes \<Rightarrow> wres"

text \<open>The callbacks of one connection.  Beside the state they yield what was read and written.\<close>

definition delivered :: "rres \<Rightarrow> bytes" where
  "delivered rv = (case rv of RData buf \<Rightarrow> buf | _ \<Rightarrow> [])"

definition serve :: "srv \<Rightarrow> addr \<Rightarrow> u32 \<Rightarrow> io \<Rightarrow> (bytes \<times> bytes \<times> srv) option" where
  "serve s conn ready x = do {
     c \<leftarrow> conns s conn;
     (r, w, s) \<leftarrow> (if ready AND POLLIN \<noteq> 0 then do {
         c_assert (want_read c);
         (w, s) \<leftarrow> handle_read (io_clk x) s conn (io_read x) (io_writer x);
         Some (delivered (io_read x), w, s)
       } else Some ([], [], s));
     c \<leftarrow> conns s conn;
     (w', s) \<leftarrow> (if ready AND POLLOUT \<noteq> 0 then do {
         c_assert (want_write c);
         handle_write s conn (io_writer x)
       } else Some ([], s));
     Some (r, w @ w', s)
   }"

definition handle_ready :: "srv \<Rightarrow> nat \<Rightarrow> u32 \<Rightarrow> io \<Rightarrow> (traffic \<times> srv) option" where
  "handle_ready s fd ready x =
     (if ready = 0 then Some ([], s)
      else do {
        p \<leftarrow> arr_get (fd2conn s) fd;
        conn \<leftarrow> p;
        s \<leftarrow> touch (io_now x) s conn;
        (r, w, s) \<leftarrow> serve s conn ready x;
        c \<leftarrow> conns s conn;
        s \<leftarrow> (if ready AND POLLERR \<noteq> 0 \<or> want_close c then conn_destroy s conn else Some s);
        Some ([(conn, r, w)], s)
      })"

record env =
  e_poll_now :: u64
  e_intr :: bool                   \<comment> \<open>\<^verbatim>\<open>poll\<close> was interrupted\<close>
  e_poll_err :: bool               \<comment> \<open>\<^verbatim>\<open>poll\<close> failed otherwise\<close>
  e_listen :: u32                  \<comment> \<open>\<^verbatim>\<open>poll_args[0].revents\<close>\<close>
  e_accept :: "newfd option"
  e_accept_now :: u64
  e_ready :: "nat \<Rightarrow> u32"          \<comment> \<open>\<^verbatim>\<open>poll_args[i].revents\<close>\<close>
  e_io :: "nat \<Rightarrow> io"
  e_timer_now :: u64

fun handle_conns :: "env \<Rightarrow> nat \<Rightarrow> (nat \<times> u32) list \<Rightarrow> srv \<Rightarrow> (traffic \<times> srv) option" where
  "handle_conns e i [] s = Some ([], s)"
| "handle_conns e i ((fd, asked) # args) s = do {
     (l, s) \<leftarrow> handle_ready s fd (e_ready e i) (e_io e i);
     (l', s) \<leftarrow> handle_conns e (i + 1) args s;
     Some (l @ l', s)
   }"

text \<open>\<^verbatim>\<open>die\<close> aborts, as a failed assertion does.\<close>

definition loop_iter :: "env \<Rightarrow> srv \<Rightarrow> (traffic \<times> srv) option" where
  "loop_iter e s = do {
     args \<leftarrow> poll_args s (fd2conn s);
     timeout_ms \<leftarrow> next_timer_ms (e_poll_now e) s;
     if e_intr e then Some ([], s)
     else do {
       c_assert (\<not> e_poll_err e);
       s \<leftarrow> (if e_listen e \<noteq> 0 then do {
           (rc, s) \<leftarrow> handle_accept (e_accept_now e) s (e_accept e);
           Some s
         } else Some s);
       (l, s) \<leftarrow> handle_conns e 1 args s;
       s \<leftarrow> process_timers (e_timer_now e) s;
       Some (l, s)
     }
   }"

definition srv_init :: "zmem \<Rightarrow> srv option" where
  "srv_init m = do {
     h \<leftarrow> dlist_init [idle_head \<mapsto> \<lparr>d_prev = NULL, d_next = NULL\<rparr>] (Some idle_head);
     Some \<lparr>kv = kvs_init m, conns = Map.empty, dl = h, fd2conn = [], cbrk = idle_head + 1\<rparr>
   }"

section \<open>Invariant\<close>

definition flags_ok :: "conn \<Rightarrow> bool" where
  "flags_ok c \<longleftrightarrow> (want_read c \<longleftrightarrow> outgoing c = []) \<and> (want_write c \<longleftrightarrow> outgoing c \<noteq> [])"

text \<open>Between two turns no connection is to be closed and no complete request waits.\<close>

definition conn_ok :: "conn \<Rightarrow> bool" where
  "conn_ok c \<longleftrightarrow> flags_ok c \<and> \<not> want_close c \<and> split_reqs (incoming c) = ([], incoming c, False)"

definition srv_ok :: "u64 \<Rightarrow> srv \<Rightarrow> keyspace \<Rightarrow> bool" where
  "srv_ok t s A \<longleftrightarrow> tab_ok t s \<and> (\<forall>a c. conns s a = Some c \<longrightarrow> conn_ok c) \<and> kv_rep (kv s) A"

lemma srv_okD:
  assumes "srv_ok t s A"
  shows "tab_ok t s" "fds_ok s" "conns s a = Some c \<Longrightarrow> conn_ok c" "kv_rep (kv s) A"
  using assms by (auto simp: srv_ok_def tab_ok_def)

text \<open>What the kernel documents.  \<open>poll\<close> reports only what was asked for, and errors; \<open>read\<close>
  delivers at most the size of the buffer.\<close>

definition io_ok :: "io \<Rightarrow> bool" where
  "io_ok x \<longleftrightarrow> write_ok (io_writer x) \<and> (case io_read x of RData buf \<Rightarrow> length buf \<le> 64 * 1024 | _ \<Rightarrow> True)"

definition ready_ok :: "u32 \<Rightarrow> u32 \<Rightarrow> bool" where
  "ready_ok asked ready \<longleftrightarrow> (ready AND POLLIN \<noteq> 0 \<longrightarrow> asked AND POLLIN \<noteq> 0) \<and>
     (ready AND POLLOUT \<noteq> 0 \<longrightarrow> asked AND POLLOUT \<noteq> 0)"

text \<open>The requests one connection can make in a turn.\<close>

definition K_TURN :: nat where "K_TURN = 2 ^ 17"

lemma poll_events_bits: "poll_events c AND POLLIN \<noteq> 0 \<longleftrightarrow> want_read c" "poll_events c AND POLLOUT \<noteq> 0 \<longleftrightarrow> want_write c"
  by (simp_all add: poll_events_def POLLIN_def POLLOUT_def POLLERR_def Let_def)

lemma split_reqs_rest: "split_reqs x = (cmds, rest, bad) \<Longrightarrow> split_reqs rest = ([], rest, bad)"
proof (induction cmds arbitrary: x)
  case Nil
  then show ?case using split_reqs_none [OF Nil] by simp
next
  case (Cons cmd cmds)
  obtain n where "split_reqs (drop (4 + n) x) = (cmds, rest, bad)" using split_reqs_some [OF Cons.prems] .
  then show ?case by (rule Cons.IH)
qed

lemma split_reqs_count: "split_reqs x = (cmds, rest, bad) \<Longrightarrow> length cmds \<le> length x"
proof (induction cmds arbitrary: x)
  case (Cons cmd cmds)
  obtain n where n: "first_req x n cmd" "split_reqs (drop (4 + n) x) = (cmds, rest, bad)"
    using split_reqs_some [OF Cons.prems] .
  have "4 \<le> length x" using n(1) by (simp add: first_req_def)
  then show ?case using Cons.IH [OF n(2)] by simp
qed simp

lemma kv_run_room: "kv_run clk i A cmds rs A' \<Longrightarrow> kv_room_for (length cmds + n) A \<Longrightarrow> kv_room_for n A'"
proof (induction rule: kv_run.induct)
  case (step i A cmd r A' cmds rs A'')
  then show ?case using kv_step_room [OF step(1)] by simp
qed simp

section \<open>One connection\<close>

text \<open>What the callbacks leave of a connection \<open>a\<close> in state \<open>c\<close>, having read \<open>r\<close> and written \<open>w\<close>, and
  of the keys: some history \<open>H\<close> of this connection alone has been executed.\<close>

definition served :: "addr \<Rightarrow> conn \<Rightarrow> keyspace \<Rightarrow> conn \<Rightarrow> bytes \<Rightarrow> bytes \<Rightarrow> kvs \<Rightarrow> hevent list \<Rightarrow> keyspace \<Rightarrow> bool" where
  "served a c A c' r w k H A' \<longleftrightarrow> c_fd c' = c_fd c \<and> last_active c' = last_active c \<and> flags_ok c' \<and>
     (want_close c' \<or> conn_ok c') \<and> hist A H A' \<and> kv_rep k A' \<and> (\<forall>b. b \<noteq> a \<longrightarrow> execs H b = []) \<and>
     (\<forall>R S ps. strm c R S ps \<longrightarrow> strm c' (R @ r) (S @ w) (ps @ execs H a))"

lemma served_idle:
  assumes "flags_ok c'" "want_close c' \<or> conn_ok c'" "kv_rep k A" "c_fd c' = c_fd c" "last_active c' = last_active c"
    "incoming c' = incoming c" "outgoing c' = outgoing c" "want_close c \<Longrightarrow> want_close c'"
  shows "served a c A c' [] [] k [] A"
  using assms strm_cong [of c _ _ _ c'] unfolding served_def by (auto intro: hist_nil)

lemma written_flags:
  assumes "written c writer = (sent, c')" "outgoing c \<noteq> []" "want_write c" "\<not> want_read c" "write_ok writer"
  shows "flags_ok c'"
proof (cases "writer (outgoing c)")
  case (Wrote k)
  then have "k \<le> length (outgoing c)" using assms(5) by (simp add: write_ok_def)
  then show ?thesis using assms Wrote by (auto simp: written_def flags_ok_def split: if_splits)
qed (use assms in \<open>auto simp: written_def flags_ok_def\<close>)

lemma write_phase:
  assumes c: "conns s a = Some c" "flags_ok c" "want_write c" "split_reqs (incoming c) = ([], incoming c, False)"
    and w: "write_ok writer" and k: "kv_rep (kv s) A"
  obtains w c' where "handle_write s a writer = Some (w, set_conn s a c')" "served a c A c' [] w (kv s) [] A"
proof -
  obtain w c' where wr: "written c writer = (w, c')" by fastforce
  have out: "outgoing c \<noteq> []" "\<not> want_read c" using c(2,3) by (simp_all add: flags_ok_def)
  have run: "handle_write s a writer = Some (w, set_conn s a c')"
    using handle_write_ok [OF c(1) out(1) w] wr by simp
  have "flags_ok c'" by (rule written_flags [OF wr out(1) c(3) out(2) w])
  then have "served a c A c' [] w (kv s) [] A"
    using written_stream [OF wr] strm_written [OF _ wr] c(4) k unfolding served_def conn_ok_def
    by (auto intro: hist_nil)
  then show thesis using that run by blast
qed

text \<open>Nothing was read: the connection waits, or is to be closed.\<close>

lemma read_nothing:
  assumes c: "conns s a = Some c" "conn_ok c" and k: "kv_rep (kv s) A" and rd: "rv = RAgain \<or> rv = RError \<or> rv = RData []"
  obtains c' where "handle_read clk s a rv writer = Some ([], set_conn (s\<lparr>kv := kv s\<rparr>) a c')"
    "served a c A c' (delivered rv) [] (kv s) [] A"
proof -
  have same: "set_conn (s\<lparr>kv := kv s\<rparr>) a c = s" using c(1) by (simp add: set_conn_def fun_upd_idem)
  have f: "flags_ok c" using c(2) by (simp add: conn_ok_def)
  show thesis
  proof (cases "rv = RAgain")
    case True
    have "served a c A c (delivered rv) [] (kv s) [] A"
      using served_idle [of c "kv s" A c a] f c(2) k True by (simp add: delivered_def)
    then show thesis using that [of c] True c(1) same by (simp add: handle_read_def)
  next
    case False
    have "served a c A (c\<lparr>want_close := True\<rparr>) [] [] (kv s) [] A"
      by (rule served_idle) (use f k in \<open>simp_all add: flags_ok_def\<close>)
    then have "served a c A (c\<lparr>want_close := True\<rparr>) (delivered rv) [] (kv s) [] A"
      using rd by (auto simp: delivered_def)
    then show thesis using that [of "c\<lparr>want_close := True\<rparr>"] rd False c(1) by (auto simp: handle_read_def)
  qed
qed

text \<open>The end of \<open>handle_read\<close>: the requests have been executed, which leaves the connection as \<open>d\<close>, and the
  replies are written at once.\<close>

lemma reply_phase:
  assumes old: "flags_ok c" and w: "write_ok writer"
    and d: "c_fd d = c_fd c" "last_active d = last_active c" "want_read d = want_read c" "want_write d = want_write c"
      "outgoing d = [] \<Longrightarrow> outgoing c = []" "want_close d \<or> split_reqs (incoming d) = ([], incoming d, False)"
    and H: "hist A H A'" "kv_rep k A'" "\<forall>b. b \<noteq> a \<longrightarrow> execs H b = []"
    and st: "\<And>R S ps. strm c R S ps \<Longrightarrow> strm d (R @ buf) S (ps @ execs H a)"
  obtains u c' where "(if outgoing d = [] then Some ([], set_conn s a d)
      else handle_write (set_conn s a (d\<lparr>want_read := False, want_write := True\<rparr>)) a writer) = Some (u, set_conn s a c')"
    "served a c A c' buf u k H A'"
proof (cases "outgoing d = []")
  case True
  then have "flags_ok d" "want_close d \<or> conn_ok d" using old d by (auto simp: conn_ok_def flags_ok_def)
  then have "served a c A d buf [] k H A'" unfolding served_def using d(1,2) H st by simp
  then show thesis using that True by simp
next
  case out: False
  let ?d = "d\<lparr>want_read := False, want_write := True\<rparr>"
  obtain u c' where wr: "written ?d writer = (u, c')" by fastforce
  have "handle_write (set_conn s a ?d) a writer = Some (u, set_conn s a c')"
    using handle_write_ok [of "set_conn s a ?d" a ?d writer] out w wr by simp
  moreover have "served a c A c' buf u k H A'"
  proof -
    note ws = written_stream [OF wr]
    have "flags_ok c'" by (rule written_flags [OF wr]) (use out w in simp_all)
    moreover from this have "want_close c' \<or> conn_ok c'" using ws d(6) by (auto simp: conn_ok_def)
    moreover have "strm c' (R @ buf) (S @ u) (ps @ execs H a)" if "strm c R S ps" for R S ps
      by (rule strm_written [OF strm_cong [OF st [OF that]] wr]) simp_all
    ultimately show ?thesis unfolding served_def using ws d(1,2) H by simp
  qed
  ultimately show thesis using that out by simp
qed

lemma read_phase:
  assumes c: "conns s a = Some c" "conn_ok c" and x: "io_ok x"
    and k: "kv_rep (kv s) A" "kv_room_for (K_TURN + n) A"
  obtains u c' k' H A' where
    "handle_read clk s a (io_read x) (io_writer x) = Some (u, set_conn (s\<lparr>kv := k'\<rparr>) a c')"
    "served a c A c' (delivered (io_read x)) u k' H A'" "kv_room_for n A'"
proof (cases "\<exists>buf. io_read x = RData buf \<and> buf \<noteq> []")
  case False
  then have "io_read x = RAgain \<or> io_read x = RError \<or> io_read x = RData []" by (cases "io_read x") auto
  from read_nothing [OF c k(1) this, of clk "io_writer x"] obtain c' where
    "handle_read clk s a (io_read x) (io_writer x) = Some ([], set_conn (s\<lparr>kv := kv s\<rparr>) a c')"
    "served a c A c' (delivered (io_read x)) [] (kv s) [] A" .
  then show thesis using that kv_room_for_less [OF k(2), of n] le_add2 by blast
next
  case True
  then obtain buf where buf: "io_read x = RData buf" "buf \<noteq> []" by blast
  then have d: "delivered (io_read x) = buf" "length buf \<le> 64 * 1024" "write_ok (io_writer x)"
    using x by (simp_all add: delivered_def io_ok_def)
  have oc: "\<not> want_close c" "flags_ok c" using c(2) by (simp_all add: conn_ok_def)
  obtain cmds rest bad where sp: "split_reqs (incoming c @ buf) = (cmds, rest, bad)" by (metis prod_cases3)
  have "length (incoming c) < 4 + K_MAX_MSG" using c(2) split_reqs_bound by (auto simp: conn_ok_def)
  then have "length cmds \<le> K_TURN" using d(2) split_reqs_count [OF sp] by (simp add: K_MAX_MSG_def K_TURN_def)
  then have r1: "kv_room_for (length cmds + n) A" by (intro kv_room_for_less [OF k(2)]) simp
  then have r2: "kv_room_for (length cmds) A" by (rule kv_room_for_less) simp
  from handle_read_ok [OF c(1) sp buf(2) k(1) r2, of clk "io_writer x"] obtain k' rs A' e where
    r: "kv_run clk 0 A cmds rs A'" "kv_rep k' A'"
      "e = c\<lparr>incoming := rest, outgoing := outgoing c @ replies rs, want_close := want_close c \<or> bad\<rparr>"
      "handle_read clk s a (RData buf) (io_writer x) =
       (if outgoing e = [] then Some ([], set_conn (s\<lparr>kv := k'\<rparr>) a e)
        else handle_write (set_conn (s\<lparr>kv := k'\<rparr>) a (e\<lparr>want_read := False, want_write := True\<rparr>)) a (io_writer x))" .
  from kv_run_hist [OF r(1), of a] obtain H where
    H: "hist A H A'" "\<forall>b. execs H b = (if b = a then zip cmds rs else [])" by blast
  have st: "strm e (R @ buf) S (ps @ execs H a)" if "strm c R S ps" for R S ps
    using strm_read [OF that oc(1) sp kv_run_length [OF r(1)]] r(3) H(2) by simp
  have "want_close e \<or> split_reqs (incoming e) = ([], incoming e, False)"
    using split_reqs_rest [OF sp] r(3) by (cases bad) simp_all
  from reply_phase [OF oc(2) d(3) _ _ _ _ _ this H(1) r(2) _ st, of "s\<lparr>kv := k'\<rparr>"] r(3) H(2)
  obtain u c' where "(if outgoing e = [] then Some ([], set_conn (s\<lparr>kv := k'\<rparr>) a e)
      else handle_write (set_conn (s\<lparr>kv := k'\<rparr>) a (e\<lparr>want_read := False, want_write := True\<rparr>)) a (io_writer x)) =
      Some (u, set_conn (s\<lparr>kv := k'\<rparr>) a c')" "served a c A c' buf u k' H A'" by auto
  then show thesis using that r(4) buf(1) d(1) kv_run_room [OF r(1) r1] by simp
qed

definition conns_ok :: "srv \<Rightarrow> bool" where
  "conns_ok s \<longleftrightarrow> (\<forall>a c. conns s a = Some c \<longrightarrow> conn_ok c)"

lemma conns_ok_upd: "conns_ok s \<Longrightarrow> conns s' = (conns s)(a := p) \<Longrightarrow> (\<forall>c. p = Some c \<longrightarrow> conn_ok c) \<Longrightarrow> conns_ok s'"
  by (simp add: conns_ok_def)

lemma serve_ok:
  assumes c: "conns s a = Some c" "conn_ok c" and x: "io_ok x" and r: "ready_ok (poll_events c) ready"
    and k: "kv_rep (kv s) A" "kv_room_for (K_TURN + n) A"
  obtains rd wr c' k H A' where "serve s a ready x = Some (rd, wr, set_conn (s\<lparr>kv := k\<rparr>) a c')"
    "served a c A c' rd wr k H A'" "kv_room_for n A'"
proof -
  have room: "kv_room_for n A" by (rule kv_room_for_less [OF k(2)]) simp
  have same: "set_conn (s\<lparr>kv := kv s\<rparr>) a c = s" using c(1) by (simp add: set_conn_def fun_upd_idem)
  have f: "flags_ok c" "split_reqs (incoming c) = ([], incoming c, False)" using c(2) by (simp_all add: conn_ok_def)
  have w: "write_ok (io_writer x)" using x by (simp add: io_ok_def)
  show thesis
  proof (cases "ready AND POLLIN \<noteq> 0")
    case True
    then have wr: "want_read c" using r by (simp add: ready_ok_def poll_events_bits)
    then have "\<not> want_write c" using f(1) by (simp add: flags_ok_def)
    then have no: "ready AND POLLOUT = 0" using r poll_events_bits(2) [of c] by (auto simp: ready_ok_def)
    from read_phase [OF c x k, of "io_clk x"] obtain u c' k' H A' where
      h: "handle_read (io_clk x) s a (io_read x) (io_writer x) = Some (u, set_conn (s\<lparr>kv := k'\<rparr>) a c')"
        "served a c A c' (delivered (io_read x)) u k' H A'" "kv_room_for n A'" .
    have "serve s a ready x = Some (delivered (io_read x), u, set_conn (s\<lparr>kv := k'\<rparr>) a c')"
      unfolding serve_def using c(1) True wr no h(1) by simp
    then show thesis using that h(2,3) by blast
  next
    case False
    show thesis
    proof (cases "ready AND POLLOUT \<noteq> 0")
      case True
      then have wr: "want_write c" using r by (simp add: ready_ok_def poll_events_bits)
      from write_phase [OF c(1) f(1) wr f(2) w k(1)] obtain u c' where
        h: "handle_write s a (io_writer x) = Some (u, set_conn s a c')" "served a c A c' [] u (kv s) [] A" .
      have "serve s a ready x = Some ([], u, set_conn (s\<lparr>kv := kv s\<rparr>) a c')"
        unfolding serve_def using c(1) True False wr h(1) by simp
      then show thesis using that h(2) room by blast
    next
      case no: False
      have "serve s a ready x = Some ([], [], set_conn (s\<lparr>kv := kv s\<rparr>) a c)"
        unfolding serve_def same using c(1) False no by simp
      moreover have "served a c A c [] [] (kv s) [] A" using served_idle f(1) c(2) k(1) by simp
      ultimately show thesis using that room by blast
    qed
  qed
qed

end
