(* ===== verification/ServerRun.thy ===== *)
theory ServerRun
  imports Server
begin

text \<open>
  \<^verbatim>\<open>server.cpp\<close>: runs of the server.  A turn of the event loop never fails, keeps the invariant of the
  whole server, and extends the history and the streams of the connections; \<open>runs\<close> are the turns and the
  workers from the start.  The theorems say that the server as a whole is linearizable, never
  fails and keeps its invariant.
\<close>

section \<open>Streams through a step\<close>

text \<open>A step with traffic \<open>l\<close> and history \<open>H\<close>: the connections it leaves have the streams they had
  and those of the step, and what is not a connection has none.\<close>

definition carried :: "srv \<Rightarrow> traffic \<Rightarrow> hevent list \<Rightarrow> srv \<Rightarrow> bool" where
  "carried s l H s' \<longleftrightarrow> cbrk s' = cbrk s \<and>
     (\<forall>b c'. conns s' b = Some c' \<longrightarrow> (\<exists>c. conns s b = Some c \<and> (\<forall>R S ps. strm c R S ps \<longrightarrow>
        strm c' (R @ received l b) (S @ transmitted l b) (ps @ execs H b)))) \<and>
     (\<forall>b. conns s b = None \<longrightarrow> received l b = [] \<and> transmitted l b = [] \<and> execs H b = [])"

lemma carriedD:
  assumes "carried s l H s'"
  shows "cbrk s' = cbrk s" "conns s b = None \<Longrightarrow> received l b = []" "conns s b = None \<Longrightarrow> transmitted l b = []"
    "conns s b = None \<Longrightarrow> execs H b = []" "conns s b = None \<Longrightarrow> conns s' b = None"
    "conns s' b = Some c' \<Longrightarrow> \<exists>c. conns s b = Some c \<and> (\<forall>R S ps. strm c R S ps \<longrightarrow>
        strm c' (R @ received l b) (S @ transmitted l b) (ps @ execs H b))"
  using assms unfolding carried_def by (auto, metis not_Some_eq option.distinct(1))

lemma carried_sub:
  assumes "cbrk s' = cbrk s" "\<forall>b. conns s' b = None \<or> conns s' b = conns s b" "\<forall>b. execs H b = []"
  shows "carried s [] H s'"
  unfolding carried_def
proof (intro conjI allI impI)
  fix b c' assume c': "conns s' b = Some c'"
  have "conns s' b = None \<or> conns s' b = conns s b" using assms(2) by blast
  then have "conns s b = Some c'" using c' by simp
  then show "\<exists>c. conns s b = Some c \<and> (\<forall>R S ps. strm c R S ps \<longrightarrow>
      strm c' (R @ received [] b) (S @ transmitted [] b) (ps @ execs H b))" using assms(3) by simp
qed (simp_all add: assms)

lemma carried_trans:
  assumes "carried s l H s1" "carried s1 l' H' s2"
  shows "carried s (l @ l') (H @ H') s2"
  unfolding carried_def
proof (intro conjI allI impI)
  note D = carriedD [OF assms(1)] and D' = carriedD [OF assms(2)]
  show "cbrk s2 = cbrk s" using D(1) D'(1) by simp
  fix b
  show "\<exists>c. conns s b = Some c \<and> (\<forall>R S ps. strm c R S ps \<longrightarrow>
      strm c2 (R @ received (l @ l') b) (S @ transmitted (l @ l') b) (ps @ execs (H @ H') b))"
    if c2: "conns s2 b = Some c2" for c2
  proof -
    from D'(6) [OF c2] obtain c1 where c1: "conns s1 b = Some c1" "\<forall>R S ps. strm c1 R S ps \<longrightarrow>
      strm c2 (R @ received l' b) (S @ transmitted l' b) (ps @ execs H' b)" by blast
    from D(6) [OF c1(1)] obtain c where c: "conns s b = Some c" "\<forall>R S ps. strm c R S ps \<longrightarrow>
      strm c1 (R @ received l b) (S @ transmitted l b) (ps @ execs H b)" by blast
    show ?thesis
    proof (intro exI [of _ c] conjI allI impI)
      fix R S ps assume "strm c R S ps"
      then have "strm c1 (R @ received l b) (S @ transmitted l b) (ps @ execs H b)" using c(2) by blast
      then have "strm c2 ((R @ received l b) @ received l' b) ((S @ transmitted l b) @ transmitted l' b)
        ((ps @ execs H b) @ execs H' b)" using c1(2) by blast
      then show "strm c2 (R @ received (l @ l') b) (S @ transmitted (l @ l') b) (ps @ execs (H @ H') b)" by simp
    qed (rule c(1))
  qed
  assume n: "conns s b = None"
  then show "received (l @ l') b = []" "transmitted (l @ l') b = []" "execs (H @ H') b = []"
    using D(2-5) D'(2-4) by simp_all
qed

lemma conn_destroy_cbrk: "conn_destroy s a = Some s' \<Longrightarrow> cbrk s' = cbrk s"
  by (auto simp: conn_destroy_def bind_eq_Some_conv)

lemma touch_cbrk: "touch now s a = Some s' \<Longrightarrow> cbrk s' = cbrk s"
  by (auto simp: touch_def set_conn_def Let_def bind_eq_Some_conv)

lemma idle_loop_cbrk:
  assumes "idle_loop now s = Some s'"
  shows "cbrk s' = cbrk s"
proof (rule idle_loop.raw_induct [OF _ assms, where P = "\<lambda>now s s'. cbrk s' = cbrk s"], goal_cases)
  case (1 idle now s s')
  obtain e where e: "dlist_empty (dl s) (Some idle_head) = Some e" using 1(2) by (cases "dlist_empty (dl s) (Some idle_head)") simp_all
  show ?case
  proof (cases e)
    case True
    then show ?thesis using 1(2) e by simp
  next
    case False
    obtain n conn c where n: "deref (dl s) (Some idle_head) = Some n" "d_next n = Some conn" "conns s conn = Some c"
      using 1(2) e False by (auto simp: bind_eq_Some_conv)
    show ?thesis
    proof (cases "last_active c + K_IDLE_TIMEOUT_MS \<ge> now")
      case True
      then show ?thesis using 1(2) e False n by simp
    next
      case late: False
      then obtain s1 where s1: "conn_destroy s conn = Some s1" "idle now s1 = Some s'"
        using 1(2) e False n by (auto simp: bind_eq_Some_conv)
      then show ?thesis using 1(1) [OF s1(2)] conn_destroy_cbrk [OF s1(1)] by simp
    qed
  qed
qed

text \<open>The callbacks of connection \<open>a\<close>, whether it is destroyed after them or not.\<close>

lemma carried_served:
  assumes c: "conns s a = Some c" and d: "served a (c\<lparr>last_active := now\<rparr>) A d r w k H A'"
    and s': "cbrk s' = cbrk s" "\<And>b. b \<noteq> a \<Longrightarrow> conns s' b = conns s b" "conns s' a = None \<or> conns s' a = Some d"
  shows "carried s [(a, r, w)] H s'"
  unfolding carried_def
proof (intro conjI allI impI)
  have hi: "\<forall>b. b \<noteq> a \<longrightarrow> execs H b = []"
    "\<forall>R S ps. strm (c\<lparr>last_active := now\<rparr>) R S ps \<longrightarrow> strm d (R @ r) (S @ w) (ps @ execs H a)"
    using d by (simp_all add: served_def)
  have st: "strm d (R @ r) (S @ w) (ps @ execs H a)" if "strm c R S ps" for R S ps
    using hi(2) strm_cong [OF that, of "c\<lparr>last_active := now\<rparr>"] by simp
  fix b
  show "\<exists>c. conns s b = Some c \<and> (\<forall>R S ps. strm c R S ps \<longrightarrow>
      strm c' (R @ received [(a, r, w)] b) (S @ transmitted [(a, r, w)] b) (ps @ execs H b))"
    if "conns s' b = Some c'" for c'
    using that s'(2,3) c st hi(1) by (cases "b = a") auto
  assume "conns s b = None"
  then have "b \<noteq> a" using c by auto
  then show "received [(a, r, w)] b = []" "transmitted [(a, r, w)] b = []" "execs H b = []" using hi(1) by simp_all
qed (rule s'(1))

text \<open>One ready connection: it is served or destroyed, and nothing else changes.\<close>

lemma conn_destroy_tab:
  assumes t: "tab_ok now s" and a: "conns s a = Some c"
  obtains s' where "conn_destroy s a = Some s'" "tab_ok now s'" "conns s' = (conns s)(a := None)" "kv s' = kv s"
    "cbrk s' = cbrk s"
proof -
  from t obtain xs where t2: "fds_ok s" "idle_ok now s xs" by (auto simp: tab_ok_def)
  from conn_destroy_ok [OF t2 a] obtain s' where
    s': "conn_destroy s a = Some s'" "fds_ok s'" "idle_ok now s' (remove1 a xs)"
      "conns s' = (conns s)(a := None)" "kv s' = kv s" .
  from s'(2,3) have "tab_ok now s'" by (auto simp: tab_ok_def)
  then show thesis by (rule that [OF s'(1) _ s'(4,5) conn_destroy_cbrk [OF s'(1)]])
qed

lemma handle_ready_ok:
  assumes tab: "tab_ok t s" and cs: "conns_ok s" and k: "kv_rep (kv s) A" "kv_room_for (K_TURN + n) A"
    and c: "conns s a = Some c" and x: "io_ok x" "ready_ok (poll_events c) ready" "t \<le> io_now x"
  obtains l s' H A' where "handle_ready s (c_fd c) ready x = Some (l, s')" "tab_ok (io_now x) s'" "conns_ok s'"
    "kv_rep (kv s') A'" "kv_room_for n A'" "hist A H A'" "carried s l H s'" "\<forall>b. b \<noteq> a \<longrightarrow> conns s' b = conns s b"
proof (cases "ready = 0")
  case True
  have "carried s [] [] s" by (rule carried_sub) simp_all
  moreover have "kv_room_for n A" by (rule kv_room_for_less [OF k(2)]) simp
  ultimately show thesis
    using that [of "[]" s A "[]"] tab_ok_later [OF tab x(3)] cs k(1) True hist_nil by (simp add: handle_ready_def)
next
  case False
  have f: "fds_ok s" using tab by (simp add: tab_ok_def)
  have ok: "conn_ok c" using cs c by (simp add: conns_ok_def)
  let ?c = "c\<lparr>last_active := io_now x\<rparr>"
  from touch_ok [OF tab c x(3)] obtain s1 where
    s1: "touch (io_now x) s a = Some s1" "tab_ok (io_now x) s1" "conns s1 = (conns s)(a \<mapsto> ?c)" "kv s1 = kv s"
      "fd2conn s1 = fd2conn s" .
  have c1: "conns s1 a = Some ?c" "conn_ok ?c" "ready_ok (poll_events ?c) ready" "kv_rep (kv s1) A"
    using s1(3,4) ok x(2) k(1) by (simp_all add: conn_ok_def flags_ok_def poll_events_def)
  from serve_ok [OF c1(1,2) x(1) c1(3,4) k(2)] obtain r w c2 k2 H A' where
    s2: "serve s1 a ready x = Some (r, w, set_conn (s1\<lparr>kv := k2\<rparr>) a c2)" "served a ?c A c2 r w k2 H A'"
      "kv_room_for n A'" .
  let ?s2 = "set_conn (s1\<lparr>kv := k2\<rparr>) a c2"
  have fd: "fd2conn s ! c_fd c = Some a" "c_fd c < length (fd2conn s)" using fds_okD [OF f c] by simp_all
  have run: "handle_ready s (c_fd c) ready x = do {
      s' \<leftarrow> (if ready AND POLLERR \<noteq> 0 \<or> want_close c2 then conn_destroy ?s2 a else Some ?s2);
      Some ([(a, r, w)], s') }"
    unfolding handle_ready_def using False fd s1(1) s2(1) by simp
  have tab2: "tab_ok (io_now x) ?s2"
    by (rule tab_ok_frame [OF s1(2)]) (use c1(1) s2(2) in \<open>simp_all add: set_conn_def served_def\<close>)
  have cs2: "conns ?s2 = (conns s)(a \<mapsto> c2)" "cbrk ?s2 = cbrk s"
    using s1(3) touch_cbrk [OF s1(1)] by (simp_all add: set_conn_def)
  have hi: "hist A H A'" "kv_rep k2 A'" using s2(2) by (simp_all add: served_def)
  note car = carried_served [OF c s2(2)]
  show thesis
  proof (cases "ready AND POLLERR \<noteq> 0 \<or> want_close c2")
    case True
    have "conns ?s2 a = Some c2" by simp
    from conn_destroy_tab [OF tab2 this] obtain s3 where
      s3: "conn_destroy ?s2 a = Some s3" "tab_ok (io_now x) s3" "conns s3 = (conns ?s2)(a := None)" "kv s3 = kv ?s2"
        "cbrk s3 = cbrk ?s2" .
    have c3: "conns s3 = (conns s)(a := None)" using s3(3) cs2(1) by simp
    then have "conns_ok s3" "\<forall>b. b \<noteq> a \<longrightarrow> conns s3 b = conns s b" using conns_ok_upd [OF cs] by simp_all
    moreover have "kv_rep (kv s3) A'" using hi(2) s3(4) by simp
    moreover have "handle_ready s (c_fd c) ready x = Some ([(a, r, w)], s3)" using run True s3(1) by simp
    moreover have "carried s [(a, r, w)] H s3" by (rule car) (use c3 s3(5) cs2(2) in simp_all)
    ultimately show thesis using that s2(3) hi(1) s3(2) by blast
  next
    case no: False
    then have "conn_ok c2" using s2(2) by (simp add: served_def)
    then have "conns_ok ?s2" using conns_ok_upd [OF cs cs2(1)] by simp
    moreover have "\<forall>b. b \<noteq> a \<longrightarrow> conns ?s2 b = conns s b" using cs2(1) by simp
    moreover have "handle_ready s (c_fd c) ready x = Some ([(a, r, w)], ?s2)" using run no by simp
    moreover have "carried s [(a, r, w)] H ?s2" by (rule car) (use cs2 in simp_all)
    moreover have "kv_rep (kv ?s2) A'" using hi(2) by simp
    ultimately show thesis using that tab2 s2(3) hi(1) by blast
  qed
qed

section \<open>One turn of the loop\<close>

lemma poll_args_ok:
  assumes "\<forall>a. Some a \<in> set ps \<longrightarrow> conns s a \<noteq> None"
  shows "poll_args s ps = Some (map (\<lambda>a. (c_fd (the (conns s a)), poll_events (the (conns s a)))) (List.map_filter (\<lambda>p. p) ps))"
  using assms by (induction s ps rule: poll_args.induct) (auto simp: map_filter_simps)

definition live :: "srv \<Rightarrow> addr list" where
  "live s = List.map_filter (\<lambda>p. p) (fd2conn s)"

lemma set_somes: "set (List.map_filter (\<lambda>p. p) ps) = {a. Some a \<in> set ps}"
  by (induction ps) (auto simp: map_filter_simps split: option.splits)

lemma set_live: "set (live s) = {a. Some a \<in> set (fd2conn s)}"
  by (simp add: live_def set_somes)

lemma live_conn: "fds_ok s \<Longrightarrow> a \<in> set (live s) \<Longrightarrow> \<exists>c. conns s a = Some c"
  unfolding set_live using fds_ok_conn [of s] by (fastforce simp: in_set_conv_nth)

lemma distinct_live:
  assumes "fds_ok s"
  shows "distinct (live s)"
proof -
  have "distinct (List.map_filter (\<lambda>p. p) ps)"
    if "\<forall>i < length ps. \<forall>j < length ps. \<forall>a. ps ! i = Some a \<longrightarrow> ps ! j = Some a \<longrightarrow> i = j" for ps :: "ptr list"
    using that
  proof (induction ps)
    case (Cons p ps)
    have "distinct (List.map_filter (\<lambda>p. p) ps)"
    proof (rule Cons.IH, intro allI impI)
      fix i j a assume "i < length ps" "j < length ps" "ps ! i = Some a" "ps ! j = Some a"
      then have "Suc i = Suc j" using Cons.prems by (metis Suc_less_eq length_Cons nth_Cons_Suc)
      then show "i = j" by simp
    qed
    moreover have "Some a \<notin> set ps" if "p = Some a" for a
    proof
      assume "Some a \<in> set ps"
      then obtain j where "j < length ps" "ps ! j = Some a" by (auto simp: in_set_conv_nth)
      then have "0 = Suc j" using Cons.prems that by (metis length_Cons nth_Cons_0 nth_Cons_Suc zero_less_Suc Suc_less_eq)
      then show False by simp
    qed
    ultimately show ?case by (cases p) (auto simp: map_filter_simps set_somes)
  qed (simp add: map_filter_simps)
  moreover have "i = j" if "i < length (fd2conn s)" "j < length (fd2conn s)" "fd2conn s ! i = Some a" "fd2conn s ! j = Some a" for i j a
    using fds_ok_conn [OF assms that(1,3)] fds_ok_conn [OF assms that(2,4)] by auto
  ultimately show ?thesis unfolding live_def by blast
qed

lemma length_live: "length (live s) \<le> length (fd2conn s)"
proof -
  have "length (List.map_filter (\<lambda>p. p) ps) \<le> length ps" for ps :: "ptr list"
    by (induction ps) (auto simp: map_filter_simps split: option.splits)
  then show ?thesis by (simp add: live_def)
qed

definition poll_arg :: "srv \<Rightarrow> addr \<Rightarrow> nat \<times> u32" where
  "poll_arg s a = (c_fd (the (conns s a)), poll_events (the (conns s a)))"

lemma handle_conns_ok:
  assumes "tab_ok t s" "conns_ok s" "kv_rep (kv s) A" "kv_room_for (K_TURN * length as + n) A" "distinct as"
    "\<forall>a \<in> set as. conns s a = conns s0 a \<and> conns s0 a \<noteq> None"
    "\<forall>j < length as. io_ok (e_io e (i + j)) \<and> ready_ok (snd (poll_arg s0 (as ! j))) (e_ready e (i + j))"
    "\<forall>j \<ge> i. t \<le> io_now (e_io e j)" "\<forall>j k. i \<le> j \<longrightarrow> j \<le> k \<longrightarrow> io_now (e_io e j) \<le> io_now (e_io e k)"
    "\<forall>j \<ge> i. io_now (e_io e j) \<le> t'" "t \<le> t'"
  shows "\<exists>l s' H A'. handle_conns e i (map (poll_arg s0) as) s = Some (l, s') \<and> tab_ok t' s' \<and> conns_ok s' \<and>
    kv_rep (kv s') A' \<and> hist A H A' \<and> carried s l H s'"
  using assms
proof (induction as arbitrary: i t s A)
  case Nil
  have "carried s [] [] s" by (rule carried_sub) simp_all
  then show ?case using Nil.prems(2,3) tab_ok_later [OF Nil.prems(1,11)] hist_nil by auto
next
  case (Cons a as)
  obtain c where c: "conns s a = Some c" "conns s0 a = Some c" using Cons.prems(6) by auto
  have pa: "poll_arg s0 a = (c_fd c, poll_events c)" using c(2) by (simp add: poll_arg_def)
  have x: "io_ok (e_io e i)" "ready_ok (poll_events c) (e_ready e i)" "t \<le> io_now (e_io e i)"
    using Cons.prems(7) [rule_format, of 0] pa Cons.prems(8) by simp_all
  have k: "kv_room_for (K_TURN + (K_TURN * length as + n)) A" using Cons.prems(4) by (simp add: add.assoc)
  from handle_ready_ok [OF Cons.prems(1,2,3) k c(1) x] obtain l s1 H A1 where
    s1: "handle_ready s (c_fd c) (e_ready e i) (e_io e i) = Some (l, s1)" "tab_ok (io_now (e_io e i)) s1" "conns_ok s1"
      "kv_rep (kv s1) A1" "kv_room_for (K_TURN * length as + n) A1" "hist A H A1" "carried s l H s1"
      "\<forall>b. b \<noteq> a \<longrightarrow> conns s1 b = conns s b" .
  have "\<exists>l' s' H' A'. handle_conns e (i + 1) (map (poll_arg s0) as) s1 = Some (l', s') \<and> tab_ok t' s' \<and> conns_ok s' \<and>
    kv_rep (kv s') A' \<and> hist A1 H' A' \<and> carried s1 l' H' s'"
  proof (rule Cons.IH [OF s1(2-5)])
    show "distinct as" using Cons.prems(5) by simp
    show "\<forall>b \<in> set as. conns s1 b = conns s0 b \<and> conns s0 b \<noteq> None"
    proof
      fix b assume b: "b \<in> set as"
      then have "b \<noteq> a" using Cons.prems(5) by auto
      then show "conns s1 b = conns s0 b \<and> conns s0 b \<noteq> None" using s1(8) Cons.prems(6) b by simp
    qed
    show "\<forall>j < length as. io_ok (e_io e (i + 1 + j)) \<and> ready_ok (snd (poll_arg s0 (as ! j))) (e_ready e (i + 1 + j))"
    proof (intro allI impI)
      fix j assume "j < length as"
      then show "io_ok (e_io e (i + 1 + j)) \<and> ready_ok (snd (poll_arg s0 (as ! j))) (e_ready e (i + 1 + j))"
        using Cons.prems(7) [rule_format, of "Suc j"] by simp
    qed
    show "\<forall>j \<ge> i + 1. io_now (e_io e i) \<le> io_now (e_io e j)" using Cons.prems(9) by simp
    show "\<forall>j k. i + 1 \<le> j \<longrightarrow> j \<le> k \<longrightarrow> io_now (e_io e j) \<le> io_now (e_io e k)" using Cons.prems(9) by simp
    show "\<forall>j \<ge> i + 1. io_now (e_io e j) \<le> t'" using Cons.prems(10) by simp
    show "io_now (e_io e i) \<le> t'" using Cons.prems(10) by simp
  qed
  then obtain l' s2 H' A2 where
    s2: "handle_conns e (i + 1) (map (poll_arg s0) as) s1 = Some (l', s2)" "tab_ok t' s2" "conns_ok s2"
      "kv_rep (kv s2) A2" "hist A1 H' A2" "carried s1 l' H' s2" by blast
  have "handle_conns e i (map (poll_arg s0) (a # as)) s = Some (l @ l', s2)" using s1(1) s2(1) pa by simp
  then show ?case
    using s2(2-4) hist_append [OF s1(6) s2(5)] carried_trans [OF s1(7) s2(6)] by blast
qed

section \<open>One turn as a whole\<close>

text \<open>The kernel's part of a turn: a descriptor that is not in use, what \<^verbatim>\<open>poll\<close> and the calls
  document, and clock readings that do not go back.\<close>

definition env_ok :: "u64 \<Rightarrow> srv \<Rightarrow> env \<Rightarrow> bool" where
  "env_ok t s e \<longleftrightarrow> \<not> e_poll_err e \<and> accept_ok s (e_accept e) \<and>
     (\<forall>j < length (live s). io_ok (e_io e (1 + j)) \<and> ready_ok (snd (poll_arg s (live s ! j))) (e_ready e (1 + j))) \<and>
     t \<le> e_accept_now e \<and> (\<forall>j \<ge> 1. e_accept_now e \<le> io_now (e_io e j) \<and> io_now (e_io e j) \<le> e_timer_now e) \<and>
     (\<forall>j k. 1 \<le> j \<longrightarrow> j \<le> k \<longrightarrow> io_now (e_io e j) \<le> io_now (e_io e k)) \<and>
     e_accept_now e \<le> e_timer_now e \<and> clock_ok (e_timer_now e)"

text \<open>Room for the keys one turn can add.\<close>

definition room :: "srv \<Rightarrow> bool" where
  "room s \<longleftrightarrow> (\<forall>A. kv_rep (kv s) A \<longrightarrow> kv_room_for (K_TURN * length (fd2conn s)) A)"

definition srv_inv :: "u64 \<Rightarrow> srv \<Rightarrow> keyspace \<Rightarrow> bool" where
  "srv_inv t s A \<longleftrightarrow> tab_ok t s \<and> clock_ok t \<and> conns_ok s \<and> kv_rep (kv s) A"

text \<open>The traffic \<open>L\<close> and the history \<open>H\<close> since the start account for the live connections.\<close>

definition streams :: "traffic \<Rightarrow> hevent list \<Rightarrow> srv \<Rightarrow> bool" where
  "streams L H s \<longleftrightarrow> (\<forall>b c. conns s b = Some c \<longrightarrow> strm c (received L b) (transmitted L b) (execs H b)) \<and>
     (\<forall>b \<ge> cbrk s. received L b = [] \<and> transmitted L b = [] \<and> execs H b = [])"

lemma tab_ok_new: "tab_ok t s \<Longrightarrow> cbrk s \<le> b \<Longrightarrow> conns s b = None"
  unfolding tab_ok_def using idle_okD(2,5) by (metis domIff leD list.set_intros(2))

lemma streams_carried:
  assumes st: "streams L H s" and tab: "tab_ok t s" and car: "carried s l H' s'"
  shows "streams (L @ l) (H @ H') s'"
  unfolding streams_def
proof (intro conjI allI impI)
  note D = carriedD [OF car]
  fix b c' assume "conns s' b = Some c'"
  from D(6) [OF this] obtain c where c: "conns s b = Some c"
    "\<forall>R S ps. strm c R S ps \<longrightarrow> strm c' (R @ received l b) (S @ transmitted l b) (ps @ execs H' b)" by blast
  have "strm c (received L b) (transmitted L b) (execs H b)" using st c(1) by (simp add: streams_def)
  then show "strm c' (received (L @ l) b) (transmitted (L @ l) b) (execs (H @ H') b)" using c(2) by simp
next
  note D = carriedD [OF car]
  fix b assume b: "cbrk s' \<le> b"
  then have n: "conns s b = None" using tab_ok_new [OF tab] D(1) by simp
  show "received (L @ l) b = []" "transmitted (L @ l) b = []" "execs (H @ H') b = []"
    using st b D(1) D(2-4) [OF n] by (simp_all add: streams_def)
qed

lemma streams_accept:
  assumes st: "streams L H s" and new: "conns s' = (conns s)(cbrk s \<mapsto> c)" "cbrk s' = Suc (cbrk s)"
    and c: "incoming c = []" "outgoing c = []"
  shows "streams L H s'"
  unfolding streams_def
proof (intro conjI allI impI)
  fix b d assume d: "conns s' b = Some d"
  show "strm d (received L b) (transmitted L b) (execs H b)"
  proof (cases "b = cbrk s")
    case True
    then have "d = c" using d new(1) by simp
    then show ?thesis using st strm_new [OF c] True by (simp add: streams_def)
  next
    case False
    then show ?thesis using d st new(1) by (simp add: streams_def)
  qed
qed (use st new(2) in \<open>simp_all add: streams_def\<close>)

lemma handle_accept_cbrk:
  "handle_accept now s (Some new) = Some (rc, s') \<Longrightarrow> cbrk s' = Suc (cbrk s) \<and> conns s' (cbrk s) \<noteq> None"
  by (auto simp: handle_accept_def set_conn_def Let_def bind_eq_Some_conv)

lemma accept_phase:
  assumes tab: "tab_ok t s" and cs: "conns_ok s" and fd: "accept_ok s acc" and now: "t \<le> now"
  obtains rc s' where "handle_accept now s acc = Some (rc, s')" "tab_ok now s'" "conns_ok s'" "kv s' = kv s"
    "\<forall>a. conns s a \<noteq> None \<longrightarrow> conns s' a = conns s a" "\<forall>L H. streams L H s \<longrightarrow> streams L H s'"
proof (cases acc)
  case None
  then show thesis using that [of "- 1" s] tab_ok_later [OF tab now] cs by (simp add: handle_accept_def)
next
  case (Some new)
  define n where "n = n_fd new"
  have fr: "accept_ok s (Some new)" using fd Some by simp
  from handle_accept_ok [OF tab fr now n_def [symmetric]] obtain s' a c where
    r: "handle_accept now s (Some new) = Some (0, s')" "tab_ok now s'" "conns s a = None" "conns s' = (conns s)(a \<mapsto> c)"
      "kv s' = kv s"
      "c = \<lparr>c_fd = n, want_read = True, want_write = False, want_close = False, incoming = [], outgoing = [],
         last_active = now\<rparr>"
      "fd2conn s' = (fd2conn s @ replicate (n + 1 - length (fd2conn s)) NULL)[n := Some a]" .
  have "split_reqs [] = ([], [], False)" by (subst split_reqs.simps) simp
  then have "conn_ok c" using r(6) by (simp add: conn_ok_def flags_ok_def)
  then have "conns_ok s'" using conns_ok_upd [OF cs r(4)] by simp
  moreover have "\<forall>b. conns s b \<noteq> None \<longrightarrow> conns s' b = conns s b" using r(3,4) by auto
  moreover have "\<forall>L H. streams L H s \<longrightarrow> streams L H s'"
  proof (intro allI impI)
    fix L H assume st: "streams L H s"
    note cb = handle_accept_cbrk [OF r(1)]
    have "a = cbrk s" using cb r(4) tab_ok_new [OF tab, of "cbrk s"] by (auto split: if_splits)
    then show "streams L H s'" using streams_accept [OF st, of s' c] r(4,6) cb by simp
  qed
  ultimately show thesis using that r(1,2,5) Some by blast
qed

lemma listen_phase:
  assumes "tab_ok t s" "conns_ok s" "accept_ok s (e_accept e)" "t \<le> e_accept_now e"
  obtains s' where "(if e_listen e \<noteq> 0 then do { (rc, s) \<leftarrow> handle_accept (e_accept_now e) s (e_accept e); Some s }
      else Some s) = Some s'" "tab_ok (e_accept_now e) s'" "conns_ok s'" "kv s' = kv s"
    "\<forall>a. conns s a \<noteq> None \<longrightarrow> conns s' a = conns s a" "\<forall>L H. streams L H s \<longrightarrow> streams L H s'"
proof (cases "e_listen e \<noteq> 0")
  case True
  from accept_phase [OF assms] obtain rc s' where
    "handle_accept (e_accept_now e) s (e_accept e) = Some (rc, s')" "tab_ok (e_accept_now e) s'" "conns_ok s'"
    "kv s' = kv s" "\<forall>a. conns s a \<noteq> None \<longrightarrow> conns s' a = conns s a" "\<forall>L H. streams L H s \<longrightarrow> streams L H s'" .
  then show thesis using that [of s'] True by simp
next
  case False
  then show thesis using that [of s] tab_ok_later [OF assms(1,4)] assms(2) by simp
qed

lemma timers_phase:
  assumes "tab_ok now s" "clock_ok now" "conns_ok s" "kv_rep (kv s) A"
  obtains s' A' where "process_timers now s = Some s'" "srv_inv now s' A'" "hist A [Expire now] A'" "carried s [] [Expire now] s'"
proof -
  from process_timers_ok [OF assms(1,2,4), of now] obtain s' A' where
    r: "process_timers now s = Some s'" "tab_ok now s'" "kv_rep (kv s') A'" "expired (Suc K_MAX_WORKS) now A A'"
      "\<forall>a. conns s' a = (case conns s a of None \<Rightarrow> None
         | Some c \<Rightarrow> if last_active c + K_IDLE_TIMEOUT_MS < now then None else Some c)" .
  have "conns_ok s'" using assms(3) r(5) unfolding conns_ok_def by (auto split: option.splits if_splits)
  then have "srv_inv now s' A'" using r(2,3) assms(2) by (simp add: srv_inv_def)
  moreover have "cbrk s' = cbrk s" using r(1) idle_loop_cbrk by (auto simp: process_timers_def bind_eq_Some_conv)
  moreover have "\<forall>b. conns s' b = None \<or> conns s' b = conns s b" using r(5) by (auto split: option.splits)
  ultimately show thesis using that r(1) hist_expire [OF r(4) hist_nil] carried_sub [of s' s "[Expire now]"] by simp
qed

lemma loop_iter_ok:
  assumes inv: "srv_inv t s A" and e: "env_ok t s e" and rm: "room s"
  obtains l s' H A' where "loop_iter e s = Some (l, s')" "srv_inv (if e_intr e then t else e_timer_now e) s' A'"
    "hist A H A'" "\<forall>L H0. streams L H0 s \<longrightarrow> streams (L @ l) (H0 @ H) s'"
proof -
  have tab: "tab_ok t s" and cs: "conns_ok s" and A: "kv_rep (kv s) A"
    using inv by (simp_all add: srv_inv_def)
  have pe: "\<not> e_poll_err e" using e by (simp add: env_ok_def)
  have E: "accept_ok s (e_accept e)"
    "\<forall>j < length (live s). io_ok (e_io e (1 + j)) \<and> ready_ok (snd (poll_arg s (live s ! j))) (e_ready e (1 + j))"
    "t \<le> e_accept_now e" "\<forall>j \<ge> 1. e_accept_now e \<le> io_now (e_io e j)" "\<forall>j \<ge> 1. io_now (e_io e j) \<le> e_timer_now e"
    "\<forall>j k. 1 \<le> j \<longrightarrow> j \<le> k \<longrightarrow> io_now (e_io e j) \<le> io_now (e_io e k)"
    "e_accept_now e \<le> e_timer_now e" "clock_ok (e_timer_now e)"
    using e by (simp_all add: env_ok_def)
  have f: "fds_ok s" using tab by (simp add: tab_ok_def)
  have lv: "\<forall>a. Some a \<in> set (fd2conn s) \<longrightarrow> conns s a \<noteq> None" using live_conn [OF f] by (auto simp: set_live)
  have args: "poll_args s (fd2conn s) = Some (map (poll_arg s) (live s))"
    using poll_args_ok [OF lv] by (simp add: poll_arg_def [abs_def] live_def)
  from tab obtain xs where "idle_ok t s xs" by (auto simp: tab_ok_def)
  note tm = next_timer_run [OF this, of "e_poll_now e"]
  show thesis
  proof (cases "e_intr e")
    case True
    then have "loop_iter e s = Some ([], s)" using args tm by (simp add: loop_iter_def)
    then show thesis using that [of "[]" s A "[]"] inv True hist_nil by simp
  next
    case False
    from listen_phase [OF tab cs E(1,3)] obtain s1 where
      s1: "(if e_listen e \<noteq> 0 then do { (rc, s) \<leftarrow> handle_accept (e_accept_now e) s (e_accept e); Some s }
          else Some s) = Some s1" "tab_ok (e_accept_now e) s1" "conns_ok s1" "kv s1 = kv s"
        "\<forall>a. conns s a \<noteq> None \<longrightarrow> conns s1 a = conns s a" "\<forall>L H. streams L H s \<longrightarrow> streams L H s1" .
    have A1: "kv_rep (kv s1) A" using A s1(4) by simp
    have "K_TURN * length (live s) + 0 \<le> K_TURN * length (fd2conn s)" using length_live by simp
    moreover have "kv_room_for (K_TURN * length (fd2conn s)) A" using rm A by (simp add: room_def)
    ultimately have k: "kv_room_for (K_TURN * length (live s) + 0) A" using kv_room_for_less by blast
    have same: "\<forall>a \<in> set (live s). conns s1 a = conns s a \<and> conns s a \<noteq> None" using s1(5) live_conn [OF f] by blast
    from handle_conns_ok [OF s1(2,3) A1 k distinct_live [OF f] same E(2,4,6,5,7)] obtain l s2 H B where
      s2: "handle_conns e 1 (map (poll_arg s) (live s)) s1 = Some (l, s2)" "tab_ok (e_timer_now e) s2" "conns_ok s2"
        "kv_rep (kv s2) B" "hist A H B" "carried s1 l H s2" by blast
    from timers_phase [OF s2(2) E(8) s2(3,4)] obtain s3 A3 where
      s3: "process_timers (e_timer_now e) s2 = Some s3" "srv_inv (e_timer_now e) s3 A3"
        "hist B [Expire (e_timer_now e)] A3" "carried s2 [] [Expire (e_timer_now e)] s3" .
    note s3(2)
    moreover have "loop_iter e s = Some (l, s3)"
      unfolding loop_iter_def args tm bind.bind_lunit using False pe s1(1) s2(1) s3(1) by simp
    moreover note hist_append [OF s2(5) s3(3)]
    moreover have "streams (L @ l) (H0 @ H @ [Expire (e_timer_now e)]) s3" if st: "streams L H0 s" for L H0
      using streams_carried [OF _ s1(2) carried_trans [OF s2(6) s3(4)], of L H0] s1(6) st by simp
    ultimately show thesis using that [of l s3 A3 "H @ [Expire (e_timer_now e)]"] False by simp
  qed
qed

section \<open>Runs\<close>

text \<open>The server from its start: turns of the loop, and workers of the thread pool between them.  The
  traffic of the turns is collected.\<close>

inductive runs :: "u64 \<Rightarrow> srv \<Rightarrow> traffic \<Rightarrow> bool" where
  start: "srv_init m = Some s \<Longrightarrow> runs 0 s []"
| turn: "runs t s L \<Longrightarrow> env_ok t s e \<Longrightarrow> room s \<Longrightarrow> loop_iter e s = Some (l, s') \<Longrightarrow>
    runs (if e_intr e then t else e_timer_now e) s' (L @ l)"
| worker: "runs t s L \<Longrightarrow> pool_work (kv s) a = Some k \<Longrightarrow> runs t (s\<lparr>kv := k\<rparr>) L"

lemma srv_init_ok:
  "\<exists>s. srv_init m = Some s \<and> srv_inv 0 s Map.empty \<and> kv s = kvs_init m \<and> conns s = Map.empty \<and> fd2conn s = []"
proof -
  let ?d = "[idle_head \<mapsto> \<lparr>d_prev = NULL, d_next = NULL\<rparr>] :: dheap"
  from dlist_init_ok [of ?d idle_head] obtain h where
    h: "dlist_init ?d (Some idle_head) = Some h" "dlist h idle_head []" by auto
  let ?s = "\<lparr>kv = kvs_init m, conns = Map.empty, dl = h, fd2conn = [], cbrk = idle_head + 1\<rparr>"
  have "idle_ok 0 ?s []" using h(2) by (simp add: idle_ok_def)
  moreover have "fds_ok ?s" by (simp add: fds_ok_def)
  ultimately have "tab_ok 0 ?s" by (auto simp: tab_ok_def)
  then have "srv_inv 0 ?s Map.empty"
    unfolding srv_inv_def using clock_ok_0 kv_rep_empty by (auto simp: conns_ok_def)
  then show ?thesis using h(1) by (simp add: srv_init_def)
qed

lemma pool_work_inv:
  assumes "srv_inv t s A" "pool_work (kv s) a = Some k"
  shows "srv_inv t (s\<lparr>kv := k\<rparr>) A"
proof -
  have i: "tab_ok t s" "clock_ok t" "conns_ok s" "kv_rep (kv s) A" using assms(1) by (simp_all add: srv_inv_def)
  from i(4) obtain D zt where d: "kv_inv (kv s) D zt" "kv_abs (kv s) D zt A" unfolding kv_rep_def by blast
  have a: "a \<in> set (pool (kv s))" using assms(2) by (auto simp: pool_work_def c_assert_def split: if_splits)
  from pool_work_ok [OF d a] obtain k' where "pool_work (kv s) a = Some k'" "kv_inv k' D zt" "kv_abs k' D zt A" by metis
  then have "kv_rep k A" using assms(2) unfolding kv_rep_def by auto
  moreover have "tab_ok t (s\<lparr>kv := k\<rparr>)" by (rule tab_ok_frame [OF i(1)]) simp_all
  ultimately show ?thesis using i(2,3) unfolding srv_inv_def conns_ok_def by simp
qed

lemma runs_inv: "runs t s L \<Longrightarrow> \<exists>H A. hist Map.empty H A \<and> srv_inv t s A \<and> streams L H s"
proof (induction rule: runs.induct)
  case (start m s)
  from srv_init_ok [of m] start have "srv_inv 0 s Map.empty" "conns s = Map.empty" by auto
  then show ?case using hist_nil [of Map.empty] by (intro exI [of _ "[]"] exI [of _ Map.empty]) (simp add: streams_def)
next
  case (turn t s L e l s')
  from turn(5) obtain H A where h: "hist Map.empty H A" "srv_inv t s A" "streams L H s" by blast
  from loop_iter_ok [OF h(2) turn(2,3)] turn(4) obtain H' A' where
    "srv_inv (if e_intr e then t else e_timer_now e) s' A'" "hist A H' A'" "streams (L @ l) (H @ H') s'"
    using h(3) by (metis Pair_inject option.inject)
  then show ?case using hist_append [OF h(1)] by blast
next
  case (worker t s L a k)
  from worker(3) obtain H A where h: "hist Map.empty H A" "srv_inv t s A" "streams L H s" by blast
  have "streams L H (s\<lparr>kv := k\<rparr>)" using h(3) by (simp add: streams_def)
  then show ?case using h(1) pool_work_inv [OF h(2) worker(2)] by blast
qed

section \<open>A run\<close>

text \<open>A server that has just been started; the kernel that reports one new client; and the
  kernel that reports a request of that client and takes the whole reply.\<close>

definition ex_start :: srv where
  "ex_start = \<lparr>kv = kvs_init ex_zmem, conns = Map.empty, dl = [0 \<mapsto> \<lparr>d_prev = Some 0, d_next = Some 0\<rparr>],
     fd2conn = [], cbrk = 1\<rparr>"

definition ex_req :: bytes where
  "ex_req = frame (enc_req [cstr ''flush''])"

definition ex_io :: io where
  "ex_io = \<lparr>io_now = 1, io_clk = (\<lambda>_. 1), io_read = RAgain, io_writer = (\<lambda>b. Wrote (length b))\<rparr>"

definition ex_newfd :: newfd where
  "ex_newfd = \<lparr>n_fd = 1, n_getfl = 0, n_flags = 2, n_setfl = 0\<rparr>"

definition ex_env :: env where
  "ex_env = \<lparr>e_poll_now = 0, e_intr = False, e_poll_err = False, e_listen = POLLIN, e_accept = Some ex_newfd, e_accept_now = 1,
     e_ready = (\<lambda>_. 0), e_io = (\<lambda>_. ex_io), e_timer_now = 1\<rparr>"

text \<open>The client's socket delivers \<open>buf\<close> and takes whatever is sent.\<close>

definition ex_read :: "bytes \<Rightarrow> env" where
  "ex_read buf = ex_env\<lparr>e_listen := 0, e_accept := None, e_ready := (\<lambda>_. POLLIN),
     e_io := (\<lambda>_. ex_io\<lparr>io_read := RData buf\<rparr>)\<rparr>"

definition ex_client :: conn where
  "ex_client = \<lparr>c_fd = 1, want_read = True, want_write = False, want_close = False, incoming = [], outgoing = [],
     last_active = 1\<rparr>"

definition ex_open :: srv where
  "ex_open = \<lparr>kv = kvs_init ex_zmem, conns = [1 \<mapsto> ex_client],
     dl = [0 \<mapsto> \<lparr>d_prev = Some 1, d_next = Some 1\<rparr>, 1 \<mapsto> \<lparr>d_prev = Some 0, d_next = Some 0\<rparr>],
     fd2conn = [NULL, Some 1], cbrk = 2\<rparr>"

lemma dl_upd:
  "deref h (Some a) = h a" "assign (h(a \<mapsto> x)) (Some a) f = Some (h(a \<mapsto> f x))"
  "a \<noteq> b \<Longrightarrow> h b = Some y \<Longrightarrow> assign (h(a \<mapsto> x)) (Some b) f = Some ((h(a \<mapsto> x))(b \<mapsto> f y))"
  by (simp_all add: assign_def deref_def)

lemma ex_room_keys: "kv s = kvs_init m \<Longrightarrow> length (fd2conn s) \<le> 2 \<Longrightarrow> room s"
proof -
  assume s: "kv s = kvs_init m" "length (fd2conn s) \<le> 2"
  have "A = Map.empty" if A: "kv_rep (kv s) A" for A
  proof -
    from A obtain D zt where d: "kv_inv (kv s) D zt" "kv_abs (kv s) D zt A" unfolding kv_rep_def by blast
    have "D = {}" using hm.rep_node [OF kv_invD(1) [OF d(1)]] s(1) by (auto simp: kvs_init_def)
    then show ?thesis using d(2) by (simp add: kv_abs_def)
  qed
  moreover have "K_TURN * length (fd2conn s) \<le> 2 ^ 18" using s(2) by (simp add: K_TURN_def)
  ultimately show ?thesis by (fastforce simp: room_def kv_room_for_def)
qed

lemma ex_start_ok: "srv_init ex_zmem = Some ex_start" "runs 0 ex_start []" "env_ok 0 ex_start ex_env" "room ex_start"
proof -
  show i: "srv_init ex_zmem = Some ex_start" by (simp add: ex_start_def srv_init_def dlist_init_def idle_head_def Let_def dl_upd)
  show "runs 0 ex_start []" by (rule runs.start [OF i])
  show "env_ok 0 ex_start ex_env"
    by (simp add: env_ok_def accept_ok_def ex_newfd_def fresh_fd_def live_def map_filter_simps ex_env_def ex_start_def ex_io_def clock_ok_def K_IDLE_TIMEOUT_MS_def)
  show "room ex_start" by (rule ex_room_keys [of _ ex_zmem]) (simp_all add: ex_start_def)
qed

lemma ex_turn: "loop_iter ex_env ex_start = Some ([], ex_open)"
  apply (simp add: loop_iter_def ex_env_def ex_start_def ex_open_def ex_client_def next_timer_ms_def POLLIN_def handle_accept_def ex_newfd_def fd_set_nb_works idle_head_def dlist_empty_def dl_upd kvs_init_def)
  apply (simp add: set_conn_def dlist_insert_before_def process_timers_def Let_def dl_upd fun_upd_twist)
  apply (simp add: idle_loop.simps [of 1] idle_head_def expire_loop.simps [of 1 0] dlist_empty_def dl_upd K_IDLE_TIMEOUT_MS_def)
  done

lemma ex_open_same: "ex_open\<lparr>kv := kvs_init ex_zmem\<rparr> = ex_open"
  by (simp add: ex_open_def)

lemma ex_read_ok:
  assumes "length buf \<le> 64 * 1024"
  shows "env_ok 1 (ex_open\<lparr>kv := K\<rparr>) (ex_read buf)"
  using assms
  by (simp add: env_ok_def accept_ok_def live_def map_filter_simps ex_read_def ex_env_def ex_open_def ex_io_def
    ex_client_def clock_ok_def K_IDLE_TIMEOUT_MS_def io_ok_def write_ok_def ready_ok_def poll_arg_def poll_events_bits)
    (simp add: POLLIN_def POLLOUT_def)

lemma ex_req_ok: "split_reqs ex_req = ([[cstr ''flush'']], [], False)" "ex_req \<noteq> []" "length ex_req \<le> 64 * 1024"
proof -
  show "split_reqs ex_req = ([[cstr ''flush'']], [], False)"
    using split_reqs_frame [OF ex_flush, of "[]"] by (simp add: ex_req_def split_reqs.simps [of "[]"])
  have "length ex_req = 17" by (simp add: ex_req_def frame_def length_enc_req enc_args_def)
  then show "ex_req \<noteq> []" "length ex_req \<le> 64 * 1024" by auto
qed

lemma ex_open_ok: "runs 1 ex_open []" "env_ok 1 ex_open (ex_read ex_req)" "room ex_open"
proof -
  show "runs 1 ex_open []" using runs.turn [OF ex_start_ok(2-4) ex_turn] by (simp add: ex_env_def)
  show "env_ok 1 ex_open (ex_read ex_req)"
    using ex_read_ok [OF ex_req_ok(3), of "kvs_init ex_zmem"] by (simp only: ex_open_same)
  show "room ex_open" by (rule ex_room_keys [of _ ex_zmem]) (simp_all add: ex_open_def)
qed

lemma ex_tab: "tab_ok 1 (ex_open\<lparr>kv := K\<rparr>)"
proof -
  have "tab_ok 1 ex_open" using runs_inv [OF ex_open_ok(1)] by (auto simp: srv_inv_def)
  then show ?thesis by (rule tab_ok_frame) simp_all
qed

lemma ex_serve:
  assumes rep: "kv_rep K A" and sp: "split_reqs buf = (cmds, [], False)" and b: "buf \<noteq> []"
    and room: "kv_room_for (length cmds) A"
  obtains rs B k K' B' where
    "handle_read (\<lambda>_. 1) (ex_open\<lparr>kv := K\<rparr>) 1 (RData buf) (\<lambda>b. Wrote (length b)) = Some (replies rs, ex_open\<lparr>kv := k\<rparr>)"
    "kv_run (\<lambda>_. 1) 0 A cmds rs B" "kv_rep k B" "expire_loop 1 0 k = Some K'" "kv_rep K' B'"
    "expired (Suc K_MAX_WORKS) 1 B B'"
    "loop_iter (ex_read buf) (ex_open\<lparr>kv := K\<rparr>) = Some ([(1, buf, replies rs)], ex_open\<lparr>kv := K'\<rparr>)"
proof -
  let ?s = "ex_open\<lparr>kv := K\<rparr>" and ?wr = "\<lambda>b. Wrote (length b)" and ?io = "ex_io\<lparr>io_read := RData buf\<rparr>"
  have c: "conns ?s 1 = Some ex_client" by (simp add: ex_open_def)
  have sp': "split_reqs (incoming ex_client @ buf) = (cmds, [], False)" using sp by (simp add: ex_client_def)
  have w: "write_ok ?wr" by (simp add: write_ok_def)
  have K: "kv_rep (kv ?s) A" using rep by simp
  from handle_read_ok [OF c sp' b K room, of "\<lambda>_. 1" ?wr] obtain k rs B c1 where
    r: "kv_run (\<lambda>_. 1) 0 A cmds rs B" "kv_rep k B"
      "c1 = ex_client\<lparr>incoming := [], outgoing := outgoing ex_client @ replies rs, want_close := want_close ex_client \<or> False\<rparr>"
      "handle_read (\<lambda>_. 1) ?s 1 (RData buf) ?wr =
         (if outgoing c1 = [] then Some ([], set_conn (?s\<lparr>kv := k\<rparr>) 1 c1)
          else handle_write (set_conn (?s\<lparr>kv := k\<rparr>) 1 (c1\<lparr>want_read := False, want_write := True\<rparr>)) 1 ?wr)" .
  have c1: "outgoing c1 = replies rs" "c1\<lparr>outgoing := [], want_read := True, want_write := False\<rparr> = ex_client"
    using r(3) by (simp_all add: ex_client_def)
  have bk: "set_conn (?s\<lparr>kv := k\<rparr>) 1 ex_client = ex_open\<lparr>kv := k\<rparr>" by (simp add: set_conn_def ex_open_def)
  have rd: "handle_read (\<lambda>_. 1) ?s 1 (RData buf) ?wr = Some (replies rs, ex_open\<lparr>kv := k\<rparr>)"
  proof (cases "outgoing c1 = []")
    case True
    then have "c1 = ex_client" using r(3) by (simp add: ex_client_def)
    then show ?thesis using r(4) True c1(1) bk by simp
  next
    case False
    let ?t = "set_conn (?s\<lparr>kv := k\<rparr>) 1 (c1\<lparr>want_read := False, want_write := True\<rparr>)"
    have "conns ?t 1 = Some (c1\<lparr>want_read := False, want_write := True\<rparr>)" by simp
    from handle_write_ok [OF this _ w] have "handle_write ?t 1 ?wr = Some (outgoing c1,
        set_conn ?t 1 (c1\<lparr>want_read := False, want_write := True, outgoing := [], want_read := True, want_write := False\<rparr>))"
      using False by (simp add: written_def)
    then show ?thesis using r(4) False c1 bk by (simp add: set_conn_def)
  qed
  have touched: "touch 1 ?s 1 = Some ?s"
    by (simp add: touch_def ex_open_def ex_client_def set_conn_def dlist_detach_def dlist_insert_before_def idle_head_def
      Let_def dl_upd fun_upd_twist)
  have serve: "serve ?s 1 POLLIN ?io = Some (buf, replies rs, ex_open\<lparr>kv := k\<rparr>)"
    using c rd by (simp add: serve_def delivered_def ex_client_def POLLIN_def POLLOUT_def ex_io_def)
  have ready: "handle_ready ?s 1 POLLIN ?io = Some ([(1, buf, replies rs)], ex_open\<lparr>kv := k\<rparr>)"
    using touched serve by (simp add: handle_ready_def ex_io_def POLLIN_def POLLERR_def) (simp add: ex_open_def ex_client_def)
  from expire_loop_rep [OF r(2), of 1] obtain K' B' where
    K': "expire_loop 1 0 k = Some K'" "kv_rep K' B'" "expired (Suc K_MAX_WORKS) 1 B B'" .
  have "idle_loop 1 (ex_open\<lparr>kv := k\<rparr>) = Some (ex_open\<lparr>kv := k\<rparr>)"
    by (simp add: idle_loop.simps [of 1] ex_open_def ex_client_def idle_head_def dlist_empty_def dl_upd K_IDLE_TIMEOUT_MS_def)
  then have timers: "process_timers 1 (ex_open\<lparr>kv := k\<rparr>) = Some (ex_open\<lparr>kv := K'\<rparr>)" using K'(1) by (simp add: process_timers_def)
  have args: "poll_args ?s (fd2conn ?s) = Some [(1, poll_events ex_client)]"
    by (simp add: ex_open_def) (simp add: ex_client_def)
  obtain xs where "idle_ok 1 ?s xs" using ex_tab [of K] by (auto simp: tab_ok_def)
  then obtain ms where timer: "next_timer_ms (e_poll_now (ex_read buf)) ?s = Some ms" using next_timer_run by blast
  have "loop_iter (ex_read buf) ?s = Some ([(1, buf, replies rs)], ex_open\<lparr>kv := K'\<rparr>)"
    unfolding loop_iter_def args timer using ready timers by (simp add: ex_read_def ex_env_def)
  then show thesis using that rd r(1,2) K' by blast
qed

lemma ex_reply:
  obtains s w c where "loop_iter (ex_read ex_req) ex_open = Some ([(1, ex_req, w)], s)" "runs 1 s [(1, ex_req, w)]"
    "conns s 1 = Some c" "outgoing c = []"
proof -
  have room: "kv_room_for (length [[cstr ''flush'']]) Map.empty" using ex_room by simp
  from ex_serve [OF kv_rep_empty ex_req_ok(1,2) room, of ex_zmem] obtain rs K' where
    r: "loop_iter (ex_read ex_req) ex_open = Some ([(1, ex_req, replies rs)], ex_open\<lparr>kv := K'\<rparr>)"
    unfolding ex_open_same by metis
  have "runs 1 (ex_open\<lparr>kv := K'\<rparr>) [(1, ex_req, replies rs)]"
    using runs.turn [OF ex_open_ok r] by (simp add: ex_read_def ex_env_def)
  moreover have "conns (ex_open\<lparr>kv := K'\<rparr>) 1 = Some ex_client" "outgoing ex_client = []"
    by (simp_all add: ex_open_def ex_client_def)
  ultimately show thesis using that r by blast
qed

section \<open>Properties\<close>

text \<open>C1: the whole server is linearizable.  Whatever clients connect, however their bytes arrive and
  leave, and however the event loop, the timers and the workers of the thread pool interleave: there
  is one sequential history of commands and rounds of expiry, allowed by the keyspace from the empty
  one, such that the server's keys represent its outcome and every live connection has had exactly its
  own complete requests executed, in order, and has been sent, or has waiting, exactly the framed replies
  to them.\<close>

theorem server_linearizable:
  assumes "runs t s L"
  shows "\<exists>H A. hist Map.empty H A \<and> kv_rep (kv s) A \<and>
    (\<forall>a c. conns s a = Some c \<longrightarrow> split_reqs (received L a) = (map fst (execs H a), incoming c, False) \<and>
       transmitted L a @ outgoing c = replies (map snd (execs H a)))"
proof -
  from runs_inv [OF assms] obtain H A where h: "hist Map.empty H A" "srv_inv t s A" "streams L H s" by blast
  have "split_reqs (received L a) = (map fst (execs H a), incoming c, False) \<and>
      transmitted L a @ outgoing c = replies (map snd (execs H a))" if "conns s a = Some c" for a c
  proof -
    have "strm c (received L a) (transmitted L a) (execs H a)" "\<not> want_close c"
      using h(2,3) that by (auto simp: streams_def srv_inv_def conns_ok_def conn_ok_def)
    then show ?thesis by (auto simp: strm_def)
  qed
  moreover have "kv_rep (kv s) A" using h(2) by (simp add: srv_inv_def)
  ultimately show ?thesis using h(1) by blast
qed

theorem server_linearizable_witness:
  "\<exists>s w H A. loop_iter (ex_read ex_req) ex_open = Some ([(1, ex_req, w)], s) \<and> hist Map.empty H A \<and> kv_rep (kv s) A \<and>
     map fst (execs H 1) = [[cstr ''flush'']] \<and> w = replies (map snd (execs H 1))"
proof -
  from ex_reply obtain s w c where
    r: "loop_iter (ex_read ex_req) ex_open = Some ([(1, ex_req, w)], s)" "runs 1 s [(1, ex_req, w)]" "conns s 1 = Some c" "outgoing c = []" .
  show ?thesis using server_linearizable [OF r(2)] r(1,3,4) ex_req_ok(1) by fastforce
qed

text \<open>C4: the invariant of the server.  In every reachable state the vector \<^verbatim>\<open>fd2conn\<close> holds
  exactly the live connections at their descriptors; the idle list holds exactly the live
  connections, ordered by their last activity; every connection wants to read when it has nothing to
  send and to write when it has, is not due for closing, and has answered every complete
  request; and the keys represent a keyspace.\<close>

theorem server_invariant:
  assumes "runs t s L"
  shows "(\<forall>a c. conns s a = Some c \<longrightarrow> c_fd c < length (fd2conn s) \<and> fd2conn s ! c_fd c = Some a \<and>
      (want_read c \<longleftrightarrow> outgoing c = []) \<and> (want_write c \<longleftrightarrow> outgoing c \<noteq> []) \<and> \<not> want_close c \<and>
      split_reqs (incoming c) = ([], incoming c, False)) \<and>
    (\<forall>i < length (fd2conn s). \<forall>a. fd2conn s ! i = Some a \<longrightarrow> (\<exists>c. conns s a = Some c \<and> c_fd c = i)) \<and>
    (\<exists>xs. dlist (dl s) idle_head xs \<and> set xs = dom (conns s) \<and> sorted (map (active s) xs)) \<and>
    (\<exists>A. kv_rep (kv s) A)"
proof (intro conjI)
  from runs_inv [OF assms] obtain A where i: "srv_inv t s A" by blast
  have tab: "tab_ok t s" and cs: "conns_ok s" using i by (simp_all add: srv_inv_def)
  have f: "fds_ok s" using tab by (simp add: tab_ok_def)
  show "\<forall>a c. conns s a = Some c \<longrightarrow> c_fd c < length (fd2conn s) \<and> fd2conn s ! c_fd c = Some a \<and>
      (want_read c \<longleftrightarrow> outgoing c = []) \<and> (want_write c \<longleftrightarrow> outgoing c \<noteq> []) \<and> \<not> want_close c \<and>
      split_reqs (incoming c) = ([], incoming c, False)"
  proof (intro allI impI)
    fix a c assume c: "conns s a = Some c"
    then have "conn_ok c" using cs by (simp add: conns_ok_def)
    then show "c_fd c < length (fd2conn s) \<and> fd2conn s ! c_fd c = Some a \<and>
      (want_read c \<longleftrightarrow> outgoing c = []) \<and> (want_write c \<longleftrightarrow> outgoing c \<noteq> []) \<and> \<not> want_close c \<and>
      split_reqs (incoming c) = ([], incoming c, False)"
      using fds_okD [OF f c] by (simp add: conn_ok_def flags_ok_def)
  qed
  show "\<forall>i < length (fd2conn s). \<forall>a. fd2conn s ! i = Some a \<longrightarrow> (\<exists>c. conns s a = Some c \<and> c_fd c = i)"
    using f by (simp add: fds_ok_def)
  show "\<exists>xs. dlist (dl s) idle_head xs \<and> set xs = dom (conns s) \<and> sorted (map (active s) xs)"
    using tab by (auto simp: tab_ok_def idle_ok_def)
  show "\<exists>A. kv_rep (kv s) A" using i by (auto simp: srv_inv_def)
qed

theorem server_invariant_witness:
  "\<exists>xs A. loop_iter ex_env ex_start = Some ([], ex_open) \<and> dlist (dl ex_open) idle_head xs \<and>
     set xs = dom (conns ex_open) \<and> sorted (map (active ex_open) xs) \<and> kv_rep (kv ex_open) A"
  using server_invariant [OF ex_open_ok(1)] ex_turn by blast



end
