(* ===== verification/ThreadPool.thy ===== *)
theory ThreadPool
  imports Prelude "HOL-Library.Multiset"
begin

text \<open>
  \<^verbatim>\<open>lib/server/thread_pool.cpp\<close>: the thread pool.  Its threads share the queue and the mutex, so it
  is a step relation: one rule for each atomic action of a worker (\<^verbatim>\<open>worker\<close>) and of the
  caller of \<^verbatim>\<open>thread_pool_queue\<close>, with the position of each thread as its program counter.
  \<^verbatim>\<open>pthread_cond_signal\<close> wakes one waiting thread when there is one, and a waiting thread may wake
  up by itself at any time.  Three fields record the history: what was queued, what was
  taken from the queue and what was run.
\<close>

section \<open>Data\<close>

record work =
  w_f :: nat          \<comment> \<open>the address of the function\<close>
  w_arg :: ptr

text \<open>A worker is before the call of lines 8 (\<open>WLock\<close>), 10 (\<open>WTest\<close>), 15 (\<open>WPop\<close>), 17
  (\<open>WUnlock\<close>) or 20 (\<open>WRun\<close>), inside \<^verbatim>\<open>pthread_cond_wait\<close> (\<open>WWait\<close>), or woken up there and waiting
  for the mutex (\<open>WWoken\<close>).\<close>

datatype wpc = WLock | WTest | WWait | WWoken | WPop | WUnlock work | WRun work

text \<open>The caller is outside \<^verbatim>\<open>thread_pool_queue\<close>, or before one of its lines 41 to 44.\<close>

datatype ppc = PIdle | PLock work | PPush work | PSignal | PUnlock

datatype tid = Main | Worker nat

record tpool =
  queue :: "work list"
  mu :: "tid option"
  threads :: "wpc list"
  caller :: ppc
  put :: "work list"
  got :: "work list"
  ran :: "work list"

section \<open>Steps\<close>

text \<open>What the \<^verbatim>\<open>pthread\<close> functions return is an argument.\<close>

definition thread_pool_init :: "nat \<Rightarrow> int \<Rightarrow> int \<Rightarrow> (nat \<Rightarrow> int) \<Rightarrow> tpool option" where
  "thread_pool_init num_threads mutex_rv cond_rv create_rv = do {
     c_assert (num_threads > 0);
     c_assert (mutex_rv = 0);
     c_assert (cond_rv = 0);
     c_assert (\<forall>i < num_threads. create_rv i = 0);
     Some \<lparr>queue = [], mu = None, threads = replicate num_threads WLock, caller = PIdle,
       put = [], got = [], ran = []\<rparr>
   }"

definition goto :: "tpool \<Rightarrow> nat \<Rightarrow> wpc \<Rightarrow> tpool" where
  "goto s i pc = s\<lparr>threads := (threads s)[i := pc]\<rparr>"

abbreviation (input) at_pc :: "tpool \<Rightarrow> nat \<Rightarrow> wpc \<Rightarrow> bool" where
  "at_pc s i pc \<equiv> i < length (threads s) \<and> threads s ! i = pc"

inductive worker :: "nat \<Rightarrow> tpool \<Rightarrow> tpool \<Rightarrow> bool" for i s where
  lock: "at_pc s i WLock \<Longrightarrow> mu s = None \<Longrightarrow> worker i s (goto (s\<lparr>mu := Some (Worker i)\<rparr>) i WTest)"
| wait: "at_pc s i WTest \<Longrightarrow> queue s = [] \<Longrightarrow> worker i s (goto (s\<lparr>mu := None\<rparr>) i WWait)"
| relock: "at_pc s i WWoken \<Longrightarrow> mu s = None \<Longrightarrow> worker i s (goto (s\<lparr>mu := Some (Worker i)\<rparr>) i WTest)"
| ready: "at_pc s i WTest \<Longrightarrow> queue s \<noteq> [] \<Longrightarrow> worker i s (goto s i WPop)"
| pop: "at_pc s i WPop \<Longrightarrow> queue s = w # ws \<Longrightarrow> worker i s (goto (s\<lparr>queue := ws, got := got s @ [w]\<rparr>) i (WUnlock w))"
| unlock: "at_pc s i (WUnlock w) \<Longrightarrow> worker i s (goto (s\<lparr>mu := None\<rparr>) i (WRun w))"
| run: "at_pc s i (WRun w) \<Longrightarrow> worker i s (goto (s\<lparr>ran := ran s @ [w]\<rparr>) i WLock)"

inductive thread_pool_queue :: "tpool \<Rightarrow> tpool \<Rightarrow> bool" for s where
  lock: "caller s = PLock w \<Longrightarrow> mu s = None \<Longrightarrow> thread_pool_queue s (s\<lparr>mu := Some Main, caller := PPush w\<rparr>)"
| push: "caller s = PPush w \<Longrightarrow>
    thread_pool_queue s (s\<lparr>queue := queue s @ [w], put := put s @ [w], caller := PSignal\<rparr>)"
| wake: "caller s = PSignal \<Longrightarrow> at_pc s i WWait \<Longrightarrow> thread_pool_queue s (goto (s\<lparr>caller := PUnlock\<rparr>) i WWoken)"
| nobody: "caller s = PSignal \<Longrightarrow> \<forall>i < length (threads s). threads s ! i \<noteq> WWait \<Longrightarrow>
    thread_pool_queue s (s\<lparr>caller := PUnlock\<rparr>)"
| unlock: "caller s = PUnlock \<Longrightarrow> thread_pool_queue s (s\<lparr>mu := None, caller := PIdle\<rparr>)"

text \<open>The steps of the pool itself; a new call and a spurious wake-up come from outside.\<close>

definition tp_step :: "tpool \<Rightarrow> tpool \<Rightarrow> bool" where
  "tp_step s s' \<longleftrightarrow> thread_pool_queue s s' \<or> (\<exists>i. worker i s s')"

inductive tp_reach :: "nat \<Rightarrow> tpool \<Rightarrow> bool" for n where
  start: "thread_pool_init n 0 0 (\<lambda>_. 0) = Some s \<Longrightarrow> tp_reach n s"
| step: "tp_reach n s \<Longrightarrow> tp_step s s' \<Longrightarrow> tp_reach n s'"
| call: "tp_reach n s \<Longrightarrow> caller s = PIdle \<Longrightarrow> tp_reach n (s\<lparr>caller := PLock w\<rparr>)"
| spurious: "tp_reach n s \<Longrightarrow> at_pc s i WWait \<Longrightarrow> tp_reach n (goto s i WWoken)"

section \<open>Invariant\<close>

fun inside :: "wpc \<Rightarrow> bool" where
  "inside WTest = True"
| "inside WPop = True"
| "inside (WUnlock _) = True"
| "inside _ = False"

fun p_inside :: "ppc \<Rightarrow> bool" where
  "p_inside PIdle = False"
| "p_inside (PLock _) = False"
| "p_inside _ = True"

fun job :: "wpc \<Rightarrow> work multiset" where
  "job (WUnlock w) = {#w#}"
| "job (WRun w) = {#w#}"
| "job _ = {#}"

definition running :: "tpool \<Rightarrow> work multiset" where
  "running s = sum_list (map job (threads s))"

definition tp_inv :: "nat \<Rightarrow> tpool \<Rightarrow> bool" where
  "tp_inv n s \<longleftrightarrow> 0 < n \<and> length (threads s) = n \<and>
     (\<forall>i < n. inside (threads s ! i) \<longleftrightarrow> mu s = Some (Worker i)) \<and>
     (\<forall>i. mu s = Some (Worker i) \<longrightarrow> i < n) \<and>
     (p_inside (caller s) \<longleftrightarrow> mu s = Some Main) \<and>
     (\<forall>i < n. threads s ! i = WPop \<longrightarrow> queue s \<noteq> []) \<and>
     put s = got s @ queue s \<and> mset (got s) = mset (ran s) + running s \<and>
     (queue s \<noteq> [] \<longrightarrow> (\<exists>i < n. threads s ! i \<noteq> WWait) \<or> caller s = PSignal)"

lemma sum_list_upd:
  fixes f :: "'a \<Rightarrow> 'b :: comm_monoid_add"
  shows "i < length xs \<Longrightarrow> sum_list (map f (xs[i := y])) + f (xs ! i) = sum_list (map f xs) + f y"
  by (induction xs arbitrary: i) (auto simp: ac_simps split: nat.splits)

lemma running_goto: "i < length (threads s) \<Longrightarrow> running (goto s i pc) + job (threads s ! i) = running s + job pc"
  by (simp add: running_def goto_def sum_list_upd)

lemma goto_simps [simp]:
  "queue (goto s i pc) = queue s" "mu (goto s i pc) = mu s" "caller (goto s i pc) = caller s" "put (goto s i pc) = put s"
  "got (goto s i pc) = got s" "ran (goto s i pc) = ran s" "length (threads (goto s i pc)) = length (threads s)"
  "threads (goto s i pc) ! j = (if j = i \<and> i < length (threads s) then pc else threads s ! j)"
  by (auto simp: goto_def list_update_beyond)

lemma running_simps [simp]:
  "running (s\<lparr>mu := m\<rparr>) = running s" "running (s\<lparr>queue := q\<rparr>) = running s" "running (s\<lparr>got := g\<rparr>) = running s"
  "running (s\<lparr>ran := r\<rparr>) = running s" "running (s\<lparr>caller := c\<rparr>) = running s" "running (s\<lparr>put := p\<rparr>) = running s"
  by (simp_all add: running_def)

lemma tp_invD:
  assumes "tp_inv n s"
  shows "0 < n" "length (threads s) = n" "i < n \<Longrightarrow> inside (threads s ! i) \<longleftrightarrow> mu s = Some (Worker i)"
    "mu s = Some (Worker i) \<Longrightarrow> i < n" "p_inside (caller s) \<longleftrightarrow> mu s = Some Main"
    "i < n \<Longrightarrow> threads s ! i = WPop \<Longrightarrow> queue s \<noteq> []" "put s = got s @ queue s"
    "mset (got s) = mset (ran s) + running s"
    "queue s \<noteq> [] \<Longrightarrow> (\<exists>i < n. threads s ! i \<noteq> WWait) \<or> caller s = PSignal"
  using assms by (auto simp: tp_inv_def)

lemma worker_inv:
  assumes "worker i s s'" "tp_inv n s"
  shows "tp_inv n s'"
  using assms(1)
proof cases
  case lock
  note I = tp_invD [OF assms(2)] and run = running_goto [of i "s\<lparr>mu := Some (Worker i)\<rparr>" WTest]
  show ?thesis using lock I run unfolding tp_inv_def by auto
next
  case wait
  note I = tp_invD [OF assms(2)] and run = running_goto [of i "s\<lparr>mu := None\<rparr>" WWait]
  have "mu s = Some (Worker i)" using wait I(2) I(3) [of i] by auto
  then show ?thesis using wait I run unfolding tp_inv_def by auto
next
  case relock
  note I = tp_invD [OF assms(2)] and run = running_goto [of i "s\<lparr>mu := Some (Worker i)\<rparr>" WTest]
  show ?thesis using relock I run unfolding tp_inv_def by auto
next
  case ready
  note I = tp_invD [OF assms(2)] and run = running_goto [of i s WPop]
  have "mu s = Some (Worker i)" using ready I(2) I(3) [of i] by auto
  then show ?thesis using ready I run unfolding tp_inv_def by auto
next
  case (pop w ws)
  note I = tp_invD [OF assms(2)] and run = running_goto [of i "s\<lparr>queue := ws, got := got s @ [w]\<rparr>" "WUnlock w"]
  have m: "mu s = Some (Worker i)" using pop I(2) I(3) [of i] by auto
  have "\<forall>j < n. j \<noteq> i \<longrightarrow> threads s ! j \<noteq> WPop"
  proof (intro allI impI notI)
    fix j assume "j < n" "j \<noteq> i" "threads s ! j = WPop"
    then show False using I(3) [of j] m by simp
  qed
  with m show ?thesis using pop I run unfolding tp_inv_def by auto
next
  case (unlock w)
  note I = tp_invD [OF assms(2)] and run = running_goto [of i "s\<lparr>mu := None\<rparr>" "WRun w"]
  have "mu s = Some (Worker i)" using unlock I(2) I(3) [of i] by auto
  then show ?thesis using unlock I run unfolding tp_inv_def by auto
next
  case (run w)
  note I = tp_invD [OF assms(2)] and r = running_goto [of i "s\<lparr>ran := ran s @ [w]\<rparr>" WLock]
  have "running s = add_mset w (running (goto (s\<lparr>ran := ran s @ [w]\<rparr>) i WLock))" using r run by simp
  moreover have "mu s \<noteq> Some (Worker i)" using run I(2) I(3) [of i] by auto
  ultimately show ?thesis using run I unfolding tp_inv_def by auto
qed

lemma thread_pool_queue_inv:
  assumes "thread_pool_queue s s'" "tp_inv n s"
  shows "tp_inv n s'"
  using assms(1)
proof cases
  case (lock w)
  note I = tp_invD [OF assms(2)]
  show ?thesis using lock I unfolding tp_inv_def by auto
next
  case (push w)
  note I = tp_invD [OF assms(2)]
  show ?thesis using push I unfolding tp_inv_def by auto
next
  case (wake i)
  note I = tp_invD [OF assms(2)] and run = running_goto [of i "s\<lparr>caller := PUnlock\<rparr>" WWoken]
  show ?thesis using wake I run unfolding tp_inv_def by auto
next
  case nobody
  note I = tp_invD [OF assms(2)]
  show ?thesis using nobody I unfolding tp_inv_def by auto
next
  case unlock
  note I = tp_invD [OF assms(2)]
  show ?thesis using unlock I unfolding tp_inv_def by auto
qed

lemma tp_step_inv: "tp_step s s' \<Longrightarrow> tp_inv n s \<Longrightarrow> tp_inv n s'"
  unfolding tp_step_def using worker_inv thread_pool_queue_inv by blast

lemma sum_list_empty: "\<forall>x \<in> set xs. f x = {#} \<Longrightarrow> sum_list (map f xs) = {#}"
  by (induction xs) auto

lemma thread_pool_init_inv:
  assumes "thread_pool_init n mutex_rv cond_rv create_rv = Some s"
  shows "tp_inv n s" "queue s = []" "caller s = PIdle" "running s = {#}"
proof -
  from assms have s: "0 < n" "s = \<lparr>queue = [], mu = None, threads = replicate n WLock, caller = PIdle,
       put = [], got = [], ran = []\<rparr>"
    by (auto simp: thread_pool_init_def c_assert_def split: if_splits)
  have r: "running s = {#}" unfolding running_def by (rule sum_list_empty) (simp add: s(2))
  then show "tp_inv n s" "queue s = []" "caller s = PIdle" "running s = {#}"
    using s unfolding tp_inv_def by simp_all
qed

lemma call_inv: "tp_inv n s \<Longrightarrow> caller s = PIdle \<Longrightarrow> tp_inv n (s\<lparr>caller := PLock w\<rparr>)"
  unfolding tp_inv_def by auto

lemma spurious_inv:
  assumes "tp_inv n s" "at_pc s i WWait"
  shows "tp_inv n (goto s i WWoken)"
proof -
  note I = tp_invD [OF assms(1)] and run = running_goto [of i s WWoken]
  have "mu s \<noteq> Some (Worker i)" using assms(2) I(2) I(3) [of i] by auto
  then show ?thesis using assms(2) I run unfolding tp_inv_def by auto
qed

lemma tp_reach_inv: "tp_reach n s \<Longrightarrow> tp_inv n s"
proof (induction rule: tp_reach.induct)
  case (start s)
  then show ?case by (rule thread_pool_init_inv(1))
next
  case (step s s')
  then show ?case using tp_step_inv by blast
next
  case (call s w)
  then show ?case using call_inv by blast
next
  case (spurious s i)
  then show ?case using spurious_inv by blast
qed

section \<open>Termination\<close>

fun rank :: "wpc \<Rightarrow> nat" where
  "rank WWait = 0"
| "rank WPop = 1"
| "rank WTest = 2"
| "rank WLock = 3"
| "rank WWoken = 3"
| "rank (WRun _) = 5"
| "rank (WUnlock _) = 6"

fun p_rank :: "ppc \<Rightarrow> nat" where
  "p_rank PIdle = 0"
| "p_rank PUnlock = 1"
| "p_rank PSignal = 5"
| "p_rank (PPush _) = 18"
| "p_rank (PLock _) = 19"

definition work_left :: "tpool \<Rightarrow> nat" where
  "work_left s = 10 * length (queue s) + sum_list (map rank (threads s)) + p_rank (caller s)"

lemma work_left_simps [simp]:
  "work_left (s\<lparr>mu := m\<rparr>) = work_left s" "work_left (s\<lparr>got := g\<rparr>) = work_left s"
  "work_left (s\<lparr>ran := r\<rparr>) = work_left s" "work_left (s\<lparr>put := p\<rparr>) = work_left s"
  by (simp_all add: work_left_def)

lemma work_left_goto:
  "i < length (threads s) \<Longrightarrow> work_left (goto s i pc) + rank (threads s ! i) = work_left s + rank pc"
  using sum_list_upd [of i "threads s" rank pc] by (simp add: work_left_def goto_def)

lemma worker_less:
  assumes "worker i s s'"
  shows "work_left s' < work_left s"
  using assms
proof cases
  case lock
  then show ?thesis using work_left_goto [of i "s\<lparr>mu := Some (Worker i)\<rparr>" WTest] by simp
next
  case wait
  then show ?thesis using work_left_goto [of i "s\<lparr>mu := None\<rparr>" WWait] by simp
next
  case relock
  then show ?thesis using work_left_goto [of i "s\<lparr>mu := Some (Worker i)\<rparr>" WTest] by simp
next
  case ready
  then show ?thesis using work_left_goto [of i s WPop] by simp
next
  case (pop w ws)
  have "work_left (s\<lparr>queue := ws, got := got s @ [w]\<rparr>) + 10 = work_left s"
    using pop by (simp add: work_left_def)
  then show ?thesis using pop work_left_goto [of i "s\<lparr>queue := ws, got := got s @ [w]\<rparr>" "WUnlock w"] by simp
next
  case (unlock w)
  then show ?thesis using work_left_goto [of i "s\<lparr>mu := None\<rparr>" "WRun w"] by simp
next
  case (run w)
  then show ?thesis using work_left_goto [of i "s\<lparr>ran := ran s @ [w]\<rparr>" WLock] by simp
qed

lemma thread_pool_queue_less:
  assumes "thread_pool_queue s s'"
  shows "work_left s' < work_left s"
  using assms
proof cases
  case (wake i)
  have "work_left (s\<lparr>caller := PUnlock\<rparr>) + 4 = work_left s" using wake by (simp add: work_left_def)
  then show ?thesis using wake work_left_goto [of i "s\<lparr>caller := PUnlock\<rparr>" WWoken] by simp
qed (simp_all add: work_left_def)

lemma tp_step_less: "tp_step s s' \<Longrightarrow> work_left s' < work_left s"
  unfolding tp_step_def using worker_less thread_pool_queue_less by blast

text \<open>When nothing moves any more, everything that was queued has been run.\<close>

lemma stuck_drained:
  assumes inv: "tp_inv n s" and stuck: "\<forall>s'. \<not> tp_step s s'"
  shows "queue s = []" "caller s = PIdle" "mset (ran s) = mset (put s)"
proof -
  note I = tp_invD [OF inv]
  have no: "\<not> worker i s s'" "\<not> thread_pool_queue s s'" for i s' using stuck by (auto simp: tp_step_def)
  have pop: "threads s ! i \<noteq> WPop" if i: "i < n" for i
  proof
    assume p: "threads s ! i = WPop"
    then obtain w ws where "queue s = w # ws" using I(6) [OF i] by (cases "queue s") auto
    then show False using no(1) worker.pop [of i s w ws] p i I(2) by auto
  qed
  have test: "threads s ! i \<noteq> WTest" if i: "i < n" for i
    using no(1) worker.wait [of i s] worker.ready [of i s] i I(2) by (cases "queue s = []") auto
  have out: "\<not> inside (threads s ! i)" "job (threads s ! i) = {#}" if i: "i < n" for i
    using pop [OF i] test [OF i] no(1) worker.unlock [of i s] worker.run [of i s] i I(2)
    by (cases "threads s ! i"; auto)+
  have main: "\<not> p_inside (caller s)"
  proof
    assume p: "p_inside (caller s)"
    show False
    proof (cases "caller s")
      case (PPush w)
      then show False using no(2) thread_pool_queue.push by blast
    next
      case PSignal
      then show False using no(2) thread_pool_queue.wake thread_pool_queue.nobody by blast
    next
      case PUnlock
      then show False using no(2) thread_pool_queue.unlock by blast
    qed (use p in simp_all)
  qed
  have mu: "mu s = None"
  proof (cases "mu s")
    case (Some t)
    then show ?thesis using I(3,4,5) out(1) main by (cases t) auto
  qed
  show idle: "caller s = PIdle"
    using main no(2) thread_pool_queue.lock [of s] mu by (cases "caller s") auto
  have waits: "threads s ! i = WWait" if i: "i < n" for i
    using out [OF i] no(1) worker.lock [of i s] worker.relock [of i s] mu i I(2)
    by (cases "threads s ! i") auto
  show q: "queue s = []" using I(9) waits idle by (metis ppc.distinct(5))
  have "running s = {#}" unfolding running_def
    by (rule sum_list_empty) (use out(2) I(2) in \<open>auto simp: in_set_conv_nth\<close>)
  then show "mset (ran s) = mset (put s)" using I(7,8) q by simp
qed

section \<open>Properties\<close>

text \<open>C6: the thread pool is safe.  In every reachable state and schedule, whatever the
  wake-ups: at most one thread is between locking and unlocking the mutex; a worker
  about to take a job finds the queue non-empty; jobs leave the queue in the order they were
  queued; and each job taken has been run once or is about to be run by exactly one worker.\<close>

theorem thread_pool_safe:
  assumes "tp_reach n s"
  shows "(\<forall>i j. i < n \<longrightarrow> j < n \<longrightarrow> inside (threads s ! i) \<longrightarrow> inside (threads s ! j) \<longrightarrow> i = j) \<and>
    (\<forall>i. i < n \<longrightarrow> inside (threads s ! i) \<longrightarrow> \<not> p_inside (caller s)) \<and>
    (\<forall>i. i < n \<longrightarrow> threads s ! i = WPop \<longrightarrow> queue s \<noteq> []) \<and>
    put s = got s @ queue s \<and> mset (got s) = mset (ran s) + running s"
  using tp_invD [OF tp_reach_inv [OF assms]] by auto

text \<open>A pool of one thread that has been given one job.\<close>

definition ex_pool :: tpool where
  "ex_pool = \<lparr>queue = [\<lparr>w_f = 1, w_arg = NULL\<rparr>], mu = Some Main, threads = [WLock], caller = PSignal,
     put = [\<lparr>w_f = 1, w_arg = NULL\<rparr>], got = [], ran = []\<rparr>"

lemma ex_pool_reach: "tp_reach 1 ex_pool"
proof -
  let ?w = "\<lparr>w_f = 1, w_arg = NULL\<rparr>"
  let ?s = "\<lparr>queue = [], mu = None, threads = [WLock], caller = PIdle, put = [], got = [], ran = []\<rparr> :: tpool"
  have "tp_reach 1 ?s" by (rule tp_reach.start) (simp add: thread_pool_init_def)
  then have "tp_reach 1 (?s\<lparr>caller := PLock ?w\<rparr>)" by (rule tp_reach.call) simp
  then have "tp_reach 1 (?s\<lparr>mu := Some Main, caller := PPush ?w\<rparr>)"
    by (rule tp_reach.step) (use thread_pool_queue.lock [of "?s\<lparr>caller := PLock ?w\<rparr>" ?w] in \<open>simp add: tp_step_def\<close>)
  then show ?thesis
    by (rule tp_reach.step)
      (use thread_pool_queue.push [of "?s\<lparr>mu := Some Main, caller := PPush ?w\<rparr>" ?w] in \<open>simp add: tp_step_def ex_pool_def\<close>)
qed

theorem thread_pool_safe_witness:
  "put ex_pool = got ex_pool @ queue ex_pool \<and> mset (got ex_pool) = mset (ran ex_pool) + running ex_pool"
  using thread_pool_safe [OF ex_pool_reach] by simp

text \<open>C7: every queued job is run.  From every reachable state, and as long as no further job
  is queued and no thread wakes up by itself, every schedule comes to an end, no thread is ever
  stuck while there is work, and at the end every job that was queued has been run exactly
  once: no wake-up is lost.\<close>

theorem thread_pool_drains:
  assumes "tp_reach n s"
  shows "\<not> (\<exists>f. f 0 = s \<and> (\<forall>k. tp_step (f k) (f (Suc k)))) \<and>
    (\<forall>s'. tp_step\<^sup>*\<^sup>* s s' \<longrightarrow> (\<forall>t. \<not> tp_step s' t) \<longrightarrow> queue s' = [] \<and> mset (ran s') = mset (put s'))"
proof (intro conjI allI impI)
  show "\<not> (\<exists>f. f 0 = s \<and> (\<forall>k. tp_step (f k) (f (Suc k))))"
    by (rule no_infinite_descent [where m = work_left]) (rule tp_step_less)
  fix s' assume steps: "tp_step\<^sup>*\<^sup>* s s'" and stuck: "\<forall>t. \<not> tp_step s' t"
  from steps have "tp_reach n s'"
    by (induction rule: rtranclp_induct) (auto intro: assms tp_reach.step)
  then show "queue s' = []" "mset (ran s') = mset (put s')"
    using stuck_drained [OF tp_reach_inv stuck] by simp_all
qed

theorem thread_pool_drains_witness:
  "\<not> (\<exists>f. f 0 = ex_pool \<and> (\<forall>k. tp_step (f k) (f (Suc k))))"
  using thread_pool_drains [OF ex_pool_reach] by simp

end
