(* ===== verification/Debug.thy ===== *)
theory Debug
  imports Prelude
begin

text \<open>
  The debug output (\<^verbatim>\<open>lib/debug.cpp\<close>), with \<^verbatim>\<open>DEBUG_ON\<close> defined as \<^verbatim>\<open>debug.h\<close> has it and for Linux.  An
  operation yields the text it prints.  The lemmas say that the text determines the number:
  reading the digits back gives the word that was printed; and that the text is what the format
  string of the code stands for (\<open>vformat\<close>, which \<^verbatim>\<open>ErrPack\<close> uses as well).
\<close>

section \<open>Formats\<close>

definition newline :: string where "newline = [CHR 0x0A]"

definition figure :: "nat \<Rightarrow> char" where
  "figure n = ''0123456789ABCDEF'' ! n"

text \<open>\<^verbatim>\<open>%0kX\<close> of a number with at most \<open>k\<close> digits.\<close>

fun hex :: "nat \<Rightarrow> nat \<Rightarrow> string" where
  "hex 0 n = []"
| "hex (Suc k) n = hex k (n div 16) @ [figure (n mod 16)]"

text \<open>\<^verbatim>\<open>%d\<close>\<close>

fun decimal :: "nat \<Rightarrow> string" where
  "decimal n = (if n < 10 then [figure n] else decimal (n div 10) @ [figure (n mod 10)])"

declare decimal.simps [simp del]

definition dec :: "int \<Rightarrow> string" where
  "dec x = (if x < 0 then ''-'' @ decimal (nat (- x)) else decimal (nat x))"

text \<open>\<^verbatim>\<open>%X\<close>\<close>

fun hexadecimal :: "nat \<Rightarrow> string" where
  "hexadecimal n = (if n < 16 then [figure n] else hexadecimal (n div 16) @ [figure (n mod 16)])"

declare hexadecimal.simps [simp del]

text \<open>The conversions of a format string that the program uses, and what \<^verbatim>\<open>vfprintf\<close> prints:
  \<open>None\<close> for a directive that has no argument, or one of another type.\<close>

datatype farg = FStr string | FInt int | FUInt nat
datatype fdir = DStr | DInt | DUInt | DHex nat

fun directive :: "string \<Rightarrow> (fdir \<times> string) option" where
  "directive [] = None"
| "directive (c # r) =
     (if c = CHR ''s'' then Some (DStr, r)
      else if c = CHR ''d'' then Some (DInt, r)
      else if c = CHR ''u'' then Some (DUInt, r)
      else if c = CHR ''0'' then
        (case r of
           k # x # r \<Rightarrow> if x = CHR ''X'' \<and> k \<in> set ''123456789'' then Some (DHex (of_char k - 48), r) else None
         | _ \<Rightarrow> None)
      else None)"

fun convert :: "fdir \<Rightarrow> farg \<Rightarrow> string option" where
  "convert DStr (FStr t) = Some t"
| "convert DInt (FInt x) = Some (dec x)"
| "convert DUInt (FUInt n) = Some (decimal n)"
| "convert (DHex k) (FUInt n) = (let t = hexadecimal n in Some (replicate (k - length t) (CHR ''0'') @ t))"
| "convert _ _ = None"

lemma directive_shorter: "directive f = Some (d, r) \<Longrightarrow> length r < length f"
  by (cases f) (auto split: if_splits list.splits)

function vformat :: "string \<Rightarrow> farg list \<Rightarrow> string option" where
  "vformat [] args = Some []"
| "vformat (c # f) args =
     (if c \<noteq> CHR ''%'' then do { t \<leftarrow> vformat f args; Some (c # t) }
      else do {
        (d, r) \<leftarrow> directive f;
        (case args of
           [] \<Rightarrow> None
         | a # as \<Rightarrow> do { t \<leftarrow> convert d a; u \<leftarrow> vformat r as; Some (t @ u) })
      })"
  by pat_completeness auto
termination by (relation "measure (\<lambda>(f, args). length f)") (auto dest: directive_shorter)

declare vformat.simps(2) [simp del]

section \<open>Operations\<close>

text \<open>\<^verbatim>\<open>debug_print\<close> with \<^verbatim>\<open>DEBUG_ON\<close>.\<close>

definition debug_print :: "string \<Rightarrow> farg list \<Rightarrow> string option" where
  "debug_print format args = vformat format args"

text \<open>\<^verbatim>\<open>debug_global_tag\<close> is an \<^verbatim>\<open>int\<close>; its overflow is undefined.\<close>

definition dbpr_tag :: "int \<Rightarrow> (string \<times> int) option" where
  "dbpr_tag debug_global_tag = do {
     c_assert (debug_global_tag + 1 < 2 ^ 31);
     Some (''tag'' @ dec debug_global_tag @ newline, debug_global_tag + 1)
   }"

function arr_hex :: "bytes \<Rightarrow> int \<Rightarrow> int \<Rightarrow> string option" where
  "arr_hex arr len i =
     (if i < len then do {
        b \<leftarrow> arr_get arr (nat i);
        rest \<leftarrow> arr_hex arr len (i + 1);
        Some (''0x'' @ hex 2 (unat b) @ '' '' @ rest)
      } else Some [])"
  by pat_completeness auto
termination by (relation "measure (\<lambda>(arr, len, i). nat (len - i))") auto

declare arr_hex.simps [simp del]

definition dbpr_uint8_arr_hex :: "bytes \<Rightarrow> int \<Rightarrow> string option" where
  "dbpr_uint8_arr_hex uint8_arr len = do { t \<leftarrow> arr_hex uint8_arr len 0; Some (t @ newline) }"

definition dbpr_uint32_hex :: "u32 \<Rightarrow> string" where
  "dbpr_uint32_hex uint32 = ''0x'' @ hex 8 (unat uint32) @ newline"

definition high :: "u32 \<Rightarrow> u32" where
  "high uint32 = drop_bit 31 (uint32 AND 0x80000000)"

function bin_loop :: "nat \<Rightarrow> u32 \<Rightarrow> string" where
  "bin_loop i uint32 =
     (if i < 32 then
        dec (uint (high uint32)) @ (if (i + 1) mod 8 = 0 then '' '' else []) @
        bin_loop (i + 1) (push_bit 1 uint32)
      else [])"
  by pat_completeness auto
termination by (relation "measure (\<lambda>(i, x). 32 - i)") auto

declare bin_loop.simps [simp del]

definition dbpr_uint32_bin :: "u32 \<Rightarrow> string" where
  "dbpr_uint32_bin uint32 = bin_loop 0 uint32 @ newline"

definition dbpr_int :: "string \<Rightarrow> int \<Rightarrow> string" where
  "dbpr_int var_name int2pr = var_name @ '' == '' @ dec int2pr @ newline"

section \<open>The text determines the number\<close>

definition figure_val :: "char \<Rightarrow> nat" where
  "figure_val c = (let n = of_char c in if n < 58 then n - 48 else n - 55)"

definition numeral_val :: "nat \<Rightarrow> string \<Rightarrow> nat" where
  "numeral_val b s = foldl (\<lambda>v c. b * v + figure_val c) 0 s"

lemma figure_val [simp]: "n < 16 \<Longrightarrow> figure_val (figure n) = n"
proof -
  assume "n < 16"
  then have "n \<in> set [0..<16]" by simp
  moreover have "\<forall>n \<in> set [0..<16]. figure_val (figure n) = n" by (simp add: upt_rec figure_def figure_val_def)
  ultimately show ?thesis by blast
qed

lemma numeral_val_snoc [simp]: "numeral_val b (s @ [c]) = b * numeral_val b s + figure_val c"
  by (simp add: numeral_val_def)

lemma hex_back: "n < 16 ^ k \<Longrightarrow> numeral_val 16 (hex k n) = n \<and> length (hex k n) = k"
proof (induction k arbitrary: n)
  case (Suc k)
  then have "n div 16 < 16 ^ k" by (simp add: less_mult_imp_div_less mult.commute)
  then show ?case using Suc.IH [of "n div 16"] by simp
qed (simp add: numeral_val_def)

lemma dec_back: "numeral_val 10 (decimal n) = n"
proof (induction n rule: decimal.induct)
  case (1 n)
  then show ?case by (subst decimal.simps) (auto simp: numeral_val_def [of 10 "[figure n]"])
qed

lemma dbpr_uint32_hex_back:
  obtains s where "dbpr_uint32_hex x = ''0x'' @ s @ newline" "length s = 8" "numeral_val 16 s = unat x"
  using hex_back [of "unat x" 8] unat_u32_less [of x] that by (simp add: dbpr_uint32_hex_def)

lemma arr_hex_run:
  "0 \<le> i \<Longrightarrow> len \<le> int (length arr) \<Longrightarrow>
   arr_hex arr len i = Some (concat (map (\<lambda>b. ''0x'' @ hex 2 (unat b) @ '' '') (take (nat (len - i)) (drop (nat i) arr))))"
proof (induction arr len i rule: arr_hex.induct)
  case (1 arr len i)
  show ?case
  proof (cases "i < len")
    case True
    then have n: "nat i < length arr" "nat (len - i) = Suc (nat (len - (i + 1)))" "nat (i + 1) = Suc (nat i)" using 1(2,3) by auto
    have "drop (nat i) arr = arr ! nat i # drop (Suc (nat i)) arr" using n(1) by (rule Cons_nth_drop_Suc [symmetric])
    then show ?thesis using 1(1) [OF True] True 1(2,3) n by (subst arr_hex.simps) simp
  qed (subst arr_hex.simps, simp)
qed

lemma dbpr_uint8_arr_hex_ok:
  assumes "0 \<le> len" "len \<le> int (length arr)"
  shows "dbpr_uint8_arr_hex arr len =
    Some (concat (map (\<lambda>b. ''0x'' @ hex 2 (unat b) @ '' '') (take (nat len) arr)) @ newline)"
  using arr_hex_run [of 0 len arr] assms by (simp add: dbpr_uint8_arr_hex_def)

text \<open>The bits are printed from the highest to the lowest, with a space after each byte.\<close>

definition bit_char :: "u32 \<Rightarrow> nat \<Rightarrow> char" where
  "bit_char x i = (if bit x i then CHR ''1'' else CHR ''0'')"

lemma high_bit: "dec (uint (high x)) = [bit_char x 31]"
proof -
  have "high x = (if bit x 31 then 1 else 0)"
  proof (rule bit_word_eqI)
    fix n assume "n < LENGTH(32)"
    then show "bit (high x) n \<longleftrightarrow> bit (if bit x 31 then 1 else 0 :: u32) n"
      by (cases "n = 0") (auto simp: high_def bit_simps dest: bit_imp_le_length)
  qed
  then show ?thesis by (simp add: dec_def decimal.simps figure_def bit_char_def)
qed

lemma bin_loop_run:
  "i \<le> 32 \<Longrightarrow> bin_loop i (push_bit i x) = concat (map (\<lambda>j. bit_char x (31 - j) # (if (j + 1) mod 8 = 0 then '' '' else [])) [i..<32])"
proof (induction "32 - i" arbitrary: i)
  case 0
  then show ?case by (subst bin_loop.simps) simp
next
  case (Suc n)
  then have i: "i < 32" "[i..<32] = i # [Suc i..<32]" by (simp_all add: upt_rec)
  have "bit_char (push_bit i x) 31 = bit_char x (31 - i)" using i by (simp add: bit_char_def bit_push_bit_iff)
  moreover have "push_bit 1 (push_bit i x) = push_bit (Suc i) x" by (simp only: push_bit_push_bit plus_1_eq_Suc)
  ultimately have "bin_loop i (push_bit i x) =
      bit_char x (31 - i) # (if (i + 1) mod 8 = 0 then '' '' else []) @ bin_loop (Suc i) (push_bit (Suc i) x)"
    using i by (subst bin_loop.simps) (simp only: high_bit if_True append_Cons append_Nil Suc_eq_plus1)
  also have "bin_loop (Suc i) (push_bit (Suc i) x) =
      concat (map (\<lambda>j. bit_char x (31 - j) # (if (j + 1) mod 8 = 0 then '' '' else [])) [Suc i..<32])"
    by (rule Suc(1)) (use Suc(2) i in auto)
  finally show ?case unfolding i(2) by simp
qed

lemma dbpr_uint32_bin_bits:
  "dbpr_uint32_bin x = concat (map (\<lambda>j. bit_char x (31 - j) # (if (j + 1) mod 8 = 0 then '' '' else [])) [0..<32]) @ newline"
  using bin_loop_run [of 0 x] by (simp add: dbpr_uint32_bin_def)

section \<open>The operations print what their formats say\<close>

lemma vformat_char [simp]: "c \<noteq> CHR ''%'' \<Longrightarrow> vformat (c # f) args = map_option ((#) c) (vformat f args)"
  by (cases "vformat f args") (simp_all add: vformat.simps(2))

lemma vformat_dir [simp]:
  "directive f = Some (d, r) \<Longrightarrow> vformat (CHR ''%'' # f) (a # as) =
     do { t \<leftarrow> convert d a; u \<leftarrow> vformat r as; Some (t @ u) }"
  "vformat (CHR ''%'' # f) [] = None"
  by (simp_all add: vformat.simps(2)) (cases "directive f"; auto)

lemma vformat_literal: "CHR ''%'' \<notin> set f \<Longrightarrow> vformat f args = Some f"
  by (induction f) auto

lemma hex_zero: "hex k 0 = replicate k (CHR ''0'')"
  by (induction k) (simp_all add: figure_def replicate_append_same)

lemma hex_padded: "n < 16 ^ k \<Longrightarrow> 0 < k \<Longrightarrow> length (hexadecimal n) \<le> k \<and>
  hex k n = replicate (k - length (hexadecimal n)) (CHR ''0'') @ hexadecimal n"
proof (induction k arbitrary: n)
  case (Suc k)
  show ?case
  proof (cases "n < 16")
    case True
    then show ?thesis by (simp add: hex_zero hexadecimal.simps [of n])
  next
    case False
    then have "n div 16 < 16 ^ k" "0 < k" using Suc.prems by (auto simp: less_mult_imp_div_less mult.commute intro: Nat.gr0I)
    then show ?thesis using Suc.IH [of "n div 16"] False by (simp add: hexadecimal.simps [of n])
  qed
qed simp

lemma debug_print_int: "debug_print (''%s == %d'' @ newline) [FStr v, FInt x] = Some (dbpr_int v x)"
  by (simp add: debug_print_def dbpr_int_def newline_def)

lemma debug_print_byte: "debug_print ''0x%02X '' [FUInt (unat b)] = Some (''0x'' @ hex 2 (unat (b :: u8)) @ '' '')"
proof -
  have "unat b < 16 ^ 2" using unat_u8_less [of b] by simp
  then show ?thesis using hex_padded [of "unat b" 2] by (simp add: debug_print_def Let_def)
qed

lemma debug_print_hex: "debug_print (''0x%08X'' @ newline) [FUInt (unat x)] = Some (dbpr_uint32_hex x)"
proof -
  have "unat x < 16 ^ 8" using unat_u32_less [of x] by simp
  then show ?thesis using hex_padded [of "unat x" 8] by (simp add: debug_print_def dbpr_uint32_hex_def newline_def Let_def)
qed

end
