(* ===== verification/ErrPack.thy ===== *)
theory ErrPack
  imports Debug Bytes
begin

text \<open>
  Error reporting (\<^verbatim>\<open>lib/err_pack.cpp\<close>).  An operation yields the text it writes to the standard
  error stream, or \<open>None\<close> when a directive of its format has no argument of the right type;
  \<^verbatim>\<open>errno\<close> is an argument.  After \<^verbatim>\<open>die\<close> the program aborts.  The messages of \<^verbatim>\<open>conn.cpp\<close> that are
  formatted there stand at the end.
\<close>

section \<open>Operations\<close>

definition stream_printf :: "string \<Rightarrow> farg list \<Rightarrow> string option" where
  "stream_printf format args = vformat format args"

definition msg :: "string \<Rightarrow> string option" where
  "msg m = stream_printf (''%s'' @ newline) [FStr m]"

definition msgf :: "string \<Rightarrow> farg list \<Rightarrow> string option" where
  "msgf m args = vformat m args"

definition msg_errno :: "int \<Rightarrow> string \<Rightarrow> string option" where
  "msg_errno errno m = stream_printf (''[errno:%d] %s'' @ newline) [FInt errno, FStr m]"

definition die :: "int \<Rightarrow> string \<Rightarrow> string option" where
  "die errno m = do {
     let err = errno;
     stream_printf (''[%d] %s'' @ newline) [FInt err, FStr m]
   }"

text \<open>The line for a new client; \<open>ip\<close> and \<open>port\<close> are in network byte order.\<close>

definition ntohs :: "16 word \<Rightarrow> 16 word" where
  "ntohs x = push_bit 8 x OR drop_bit 8 x"

definition accept_line :: "u32 \<Rightarrow> 16 word \<Rightarrow> string option" where
  "accept_line ip sin_port = stream_printf (''new client from %u.%u.%u.%u:%u'' @ newline)
     [FUInt (unat (ip AND 255)), FUInt (unat (drop_bit 8 ip AND 255)), FUInt (unat (drop_bit 16 ip AND 255)),
      FUInt (unat (drop_bit 24 ip)), FUInt (unat (ntohs sin_port))]"

section \<open>What is printed\<close>

text \<open>A message is printed literally, whatever characters it has; only \<^verbatim>\<open>msgf\<close> takes a format.\<close>

lemma msg_text [simp]: "msg m = Some (m @ newline)"
  by (simp add: msg_def stream_printf_def newline_def)

lemma msg_errno_text [simp]: "msg_errno errno m = Some (''[errno:'' @ dec errno @ ''] '' @ m @ newline)"
  by (simp add: msg_errno_def stream_printf_def newline_def)

lemma die_text [simp]: "die errno m = Some (''['' @ dec errno @ ''] '' @ m @ newline)"
  by (simp add: die_def stream_printf_def newline_def Let_def)

lemma msgf_percent: "msgf ''100%'' [] = None"
  by (simp add: msgf_def)

lemma and_byte: "unat (x AND 255 :: u32) = unat x mod 256"
proof -
  have "x AND 255 = take_bit 8 x" by (simp add: take_bit_eq_mask mask_eq_exp_minus_1)
  then show ?thesis by (simp add: unsigned_take_bit_eq take_bit_nat_def)
qed

lemma unat_shift: "unat (drop_bit k x) = unat x div 2 ^ k"
  by (simp only: unat_drop_bit_eq drop_bit_nat_def)

lemma ntohs_bytes: "unat (ntohs (of_nat (le_val [p0, p1]))) = 256 * unat p0 + unat p1"
proof -
  have b: "unat p0 < 256" "unat p1 < 256" by (rule unat_u8_less)+
  let ?x = "of_nat (le_val [p0, p1]) :: 16 word"
  have x: "unat ?x = unat p0 + 256 * unat p1" using b using le_val_less [of "[p0, p1]"] by (subst unat_of_nat) (simp add: take_bit_nat_def)
  have "push_bit 8 ?x AND drop_bit 8 ?x = 0"
    by (rule bit_word_eqI) (auto simp: bit_simps simp del: le_val.simps dest: bit_imp_le_length)
  then have "ntohs ?x = push_bit 8 ?x + drop_bit 8 ?x" by (simp add: ntohs_def disjunctive_add_eq_or del: le_val.simps)
  moreover have "unat (push_bit 8 ?x) = 256 * unat p0"
    using x b by (simp add: unsigned_push_bit_eq take_bit_nat_def push_bit_nat_def del: le_val.simps)
  moreover have "unat (drop_bit 8 ?x) = unat p1"
    using x b by (simp add: unat_shift del: le_val.simps)
  ultimately show ?thesis using b by (simp add: unat_word_ariths del: le_val.simps)
qed

text \<open>The address is printed in its usual notation: a byte of memory each, in order.\<close>

lemma accept_line_quad:
  "accept_line (u32_of_bytes [a, b, c, d]) (of_nat (le_val [p0, p1])) =
     Some (''new client from '' @ decimal (unat a) @ ''.'' @ decimal (unat b) @ ''.'' @ decimal (unat c) @ ''.'' @
       decimal (unat d) @ '':'' @ decimal (256 * unat p0 + unat p1) @ newline)"
proof -
  have l: "unat a < 256" "unat b < 256" "unat c < 256" "unat d < 256" by (rule unat_u8_less)+
  let ?x = "u32_of_bytes [a, b, c, d]"
  have n: "unat ?x = unat a + 256 * (unat b + 256 * (unat c + 256 * unat d))"
    unfolding u32_of_bytes_def using l by (subst unat_of_nat_u32) simp_all
  have q: "(r + 256 * m) mod 256 = r \<and> (r + 256 * m) div 256 = m" if "r < 256" for r m :: nat using that by simp
  note Q = q [OF l(1)] q [OF l(2)] q [OF l(3)]
  have s: "(2 :: nat) ^ 8 = 256" "(2 :: nat) ^ 16 = 256 * 256" "(2 :: nat) ^ 24 = 256 * (256 * 256)" by simp_all
  have "unat (?x AND 255) = unat a" "unat (drop_bit 8 ?x AND 255) = unat b"
    "unat (drop_bit 16 ?x AND 255) = unat c" "unat (drop_bit 24 ?x) = unat d"
    by (simp_all only: and_byte unat_shift s div_mult2_eq n Q)
  then show ?thesis by (simp add: accept_line_def stream_printf_def newline_def ntohs_bytes del: le_val.simps)
qed

end
