(* ===== verification/Startup.thy ===== *)
theory Startup
  imports ServerRun ThreadPool ErrPack
begin

text \<open>
  The start of \<^verbatim>\<open>main\<close> (\<^verbatim>\<open>server.cpp\<close>) up to the event loop: it establishes the invariants of the
  server and of the thread pool.  The results of the system calls are arguments; \<^verbatim>\<open>die\<close> ends the
  program with a message.
\<close>

record sys =
  sys_errno :: int        \<comment> \<open>after \<^verbatim>\<open>socket\<close>, \<^verbatim>\<open>bind\<close> or \<^verbatim>\<open>listen\<close> has failed\<close>
  sys_socket :: int
  sys_bind :: int
  sys_listen :: int
  sys_getfl :: "int \<times> u32"
  sys_setfl :: int
  sys_mutex :: int
  sys_cond :: int
  sys_create :: "nat \<Rightarrow> int"

definition main_start :: "sys \<Rightarrow> zmem \<Rightarrow> (string + int \<times> u32 \<times> srv \<times> tpool) option" where
  "main_start y m = do {
     s \<leftarrow> srv_init m;
     tp \<leftarrow> thread_pool_init 4 (sys_mutex y) (sys_cond y) (sys_create y);
     let fd = sys_socket y;
     if fd < 0 then do { t \<leftarrow> die (sys_errno y) ''socket()''; Some (Inl t) }
     else if sys_bind y \<noteq> 0 then do { t \<leftarrow> die (sys_errno y) ''bind()''; Some (Inl t) }
     else (case fd_set_nb (fst (sys_getfl y)) (snd (sys_getfl y)) (sys_setfl y) of
       Inl (err, e) \<Rightarrow> do { t \<leftarrow> die err e; Some (Inl t) }
     | Inr flags \<Rightarrow>
         if sys_listen y \<noteq> 0 then do { t \<leftarrow> die (sys_errno y) ''listen()''; Some (Inl t) }
         else Some (Inr (fd, flags, s, tp)))
   }"

lemma thread_pool_init_Some:
  "thread_pool_init n mu_rv cond_rv create_rv = Some tp \<Longrightarrow> thread_pool_init n 0 0 (\<lambda>_. 0) = Some tp"
  by (auto simp: thread_pool_init_def c_assert_def split: if_splits)

text \<open>The start fails only when a call fails, and then with a message.\<close>

lemma main_start_works:
  assumes "0 \<le> sys_socket y" "sys_bind y = 0" "sys_listen y = 0" "fst (sys_getfl y) = 0" "sys_setfl y = 0"
    "sys_mutex y = 0" "sys_cond y = 0" "\<forall>i. sys_create y i = 0"
  obtains fd flags s tp where "main_start y m = Some (Inr (fd, flags, s, tp))"
proof -
  from srv_init_ok [of m] obtain s where s: "srv_init m = Some s" by auto
  have "thread_pool_init 4 0 0 (sys_create y) \<noteq> None"
    using assms(8) by (simp add: thread_pool_init_def c_assert_def)
  then show thesis using that s assms by (auto simp: main_start_def fd_set_nb_works Let_def)
qed

lemma main_start_dies:
  assumes "main_start y m = Some (Inl t)"
  obtains err e where "die err e = Some t" "e \<in> {''socket()'', ''bind()'', ''fcntl error'', ''listen()''}"
  using assms
  by (auto simp: main_start_def Let_def bind_eq_Some_conv fd_set_nb_fails split: if_splits sum.splits)

lemma main_start_parts:
  assumes "main_start y m = Some (Inr (fd, flags, s, tp))"
  shows "srv_init m = Some s" "thread_pool_init 4 (sys_mutex y) (sys_cond y) (sys_create y) = Some tp"
    "fd_set_nb (fst (sys_getfl y)) (snd (sys_getfl y)) (sys_setfl y) = Inr flags" "0 \<le> fd"
  using assms by (auto simp: main_start_def Let_def bind_eq_Some_conv split: if_splits sum.splits)

lemma main_start_ok:
  assumes "main_start y m = Some (Inr (fd, flags, s, tp))"
  shows "0 \<le> fd" "flags = snd (sys_getfl y) OR O_NONBLOCK" "runs 0 s []" "tp_reach 4 tp" "kv_rep (kv s) Map.empty"
proof -
  note i = main_start_parts [OF assms]
  show "0 \<le> fd" by (rule i(4))
  show "flags = snd (sys_getfl y) OR O_NONBLOCK" by (rule fd_set_nb_flags [OF i(3)])
  show "runs 0 s []" by (rule runs.start [OF i(1)])
  show "tp_reach 4 tp" by (rule tp_reach.start [OF thread_pool_init_Some [OF i(2)]])
  show "kv_rep (kv s) Map.empty" using srv_init_ok [of m] i(1) kv_rep_empty by auto
qed

end
