(* ===== verification/PoolGrowth.thy ===== *)
theory PoolGrowth
  imports ServerRun "HOL-Library.Sublist"
begin

text \<open>
  The event loop only ever appends to the queue of the thread pool: what a turn leaves there is
  what was there, followed by the entries whose disposal the turn has handed over.
\<close>

section \<open>Commands\<close>

lemmas pool_simps = bind_eq_Some_conv Let_def
lemmas case_asms = option.split_asm if_split_asm prod.split_asm

lemma bind_SomeE: "Option.bind f g = Some r \<Longrightarrow> (\<And>x. f = Some x \<Longrightarrow> g x = Some r \<Longrightarrow> P) \<Longrightarrow> P"
  by (cases f) auto

lemma entry_set_ttl_pool: "entry_set_ttl now s a ttl = Some s' \<Longrightarrow> pool s' = pool s"
  by (auto simp: entry_set_ttl_def pool_simps split: if_splits)

lemma entry_del_sync_pool: "entry_del_sync s a = Some s' \<Longrightarrow> pool s' = pool s"
  by (auto simp: entry_del_sync_def entry_free_def pool_simps split: if_splits)

lemma entry_del_pool: "entry_del now s a = Some s' \<Longrightarrow> prefix (pool s) (pool s')"
  by (auto simp: entry_del_def pool_simps dest!: entry_set_ttl_pool entry_del_sync_pool split: if_splits)

lemma db_lookup_pool: "db_lookup s key = Some (p, s') \<Longrightarrow> pool s' = pool s"
  by (auto simp: db_lookup_def pool_simps)

lemma db_insert_new_pool: "db_insert_new s ty key str = Some (a, s') \<Longrightarrow> pool s' = pool s"
  by (auto simp: db_insert_new_def entry_new_def pool_simps)

lemma expect_zset_pool: "expect_zset s key = Some (zr, s') \<Longrightarrow> pool s' = pool s"
  by (auto simp: expect_zset_def pool_simps dest!: db_lookup_pool split: option.splits)

lemma zref_put_pool: "zref_put s zr z = Some s' \<Longrightarrow> pool s' = pool s"
  by (auto simp: zref_put_def pool_simps split: zref.splits if_splits)

lemmas entry_pools = entry_set_ttl_pool entry_del_sync_pool db_lookup_pool db_insert_new_pool expect_zset_pool zref_put_pool

lemma do_get_pool: "do_get s cmd out = Some (s', out') \<Longrightarrow> pool s' = pool s"
  unfolding do_get_def Let_def
  by (auto elim!: bind_SomeE dest!: entry_pools split: case_asms)

lemma do_set_pool: "do_set s cmd out = Some (s', out') \<Longrightarrow> pool s' = pool s"
  unfolding do_set_def Let_def
  by (auto elim!: bind_SomeE dest!: entry_pools split: case_asms)

lemma do_del_pool: "do_del now s cmd out = Some (s', out') \<Longrightarrow> prefix (pool s) (pool s')"
  unfolding do_del_def Let_def
  by (auto elim!: bind_SomeE dest!: entry_del_pool split: case_asms)

lemma do_keys_pool: "do_keys s cmd out = Some (s', out') \<Longrightarrow> pool s' = pool s"
  by (auto simp: do_keys_def pool_simps)

lemma do_zadd_pool: "do_zadd s cmd out = Some (s', out') \<Longrightarrow> pool s' = pool s"
  unfolding do_zadd_def Let_def
  by (auto elim!: bind_SomeE dest!: entry_pools split: case_asms)

lemma do_zrem_pool: "do_zrem s cmd out = Some (s', out') \<Longrightarrow> pool s' = pool s"
  unfolding do_zrem_def Let_def
  by (auto elim!: bind_SomeE dest!: entry_pools split: case_asms)

lemma do_zscore_pool: "do_zscore s cmd out = Some (s', out') \<Longrightarrow> pool s' = pool s"
  unfolding do_zscore_def Let_def
  by (auto elim!: bind_SomeE dest!: entry_pools split: case_asms)

lemma do_zquery_pool: "do_zquery s cmd out = Some (s', out') \<Longrightarrow> pool s' = pool s"
  unfolding do_zquery_def Let_def
  by (auto elim!: bind_SomeE dest!: entry_pools split: case_asms)

lemma do_expire_pool: "do_expire now s cmd out = Some (s', out') \<Longrightarrow> pool s' = pool s"
  unfolding do_expire_def Let_def
  by (auto elim!: bind_SomeE dest!: entry_pools split: case_asms)

lemma do_ttl_pool: "do_ttl now s cmd out = Some (s', out') \<Longrightarrow> pool s' = pool s"
  unfolding do_ttl_def Let_def
  by (auto elim!: bind_SomeE dest!: entry_pools split: case_asms)

lemma do_request_pool: "do_request now s cmd out = Some (s', out') \<Longrightarrow> prefix (pool s) (pool s')"
  by (auto simp: do_request_def Let_def dest: do_get_pool do_set_pool do_del_pool do_expire_pool do_ttl_pool
    do_keys_pool do_zadd_pool do_zrem_pool do_zscore_pool do_zquery_pool split: if_splits)

section \<open>Connections\<close>

abbreviation (input) growth :: "srv \<Rightarrow> srv \<Rightarrow> bool" where
  "growth s s' \<equiv> prefix (pool (kv s)) (pool (kv s'))"

lemma set_conn_kv [simp]: "kv (set_conn s a c) = kv s"
  by (simp add: set_conn_def)

lemma try_one_request_pool: "try_one_request now s conn = Some (go, s') \<Longrightarrow> growth s s'"
  by (auto simp: try_one_request_def pool_simps dest!: do_request_pool split: if_splits prod.splits)

lemma handle_write_kv: "handle_write s conn wr = Some (w, s') \<Longrightarrow> kv s' = kv s"
  unfolding handle_write_def Let_def
  by (auto elim!: bind_SomeE split: wres.split_asm if_split_asm)

lemma conn_destroy_kv: "conn_destroy s conn = Some s' \<Longrightarrow> kv s' = kv s"
  by (auto simp: conn_destroy_def pool_simps)

lemma touch_kv: "touch now s conn = Some s' \<Longrightarrow> kv s' = kv s"
  by (auto simp: touch_def pool_simps)

lemma handle_accept_kv: "handle_accept now s acc = Some (rc, s') \<Longrightarrow> kv s' = kv s"
  by (auto simp: handle_accept_def pool_simps split: option.splits)

lemma request_loop_pool:
  assumes "request_loop clk i s conn = Some s'"
  shows "growth s s'"
proof (rule request_loop.raw_induct [OF _ assms, where P = "\<lambda>clk i s conn s'. growth s s'"], goal_cases)
  case (1 loop clk i s conn s')
  then obtain go s1 where s1: "try_one_request (clk i) s conn = Some (go, s1)"
    by (cases "try_one_request (clk i) s conn") auto
  note g = try_one_request_pool [OF s1]
  show ?case
  proof (cases go)
    case True
    then have "loop clk (i + 1) s1 conn = Some s'" using 1(2) s1 by simp
    then show ?thesis using 1(1) g prefix_order.order_trans by blast
  next
    case False
    then show ?thesis using 1(2) s1 g by simp
  qed
qed

lemma handle_read_pool: "handle_read clk s conn rv wr = Some (w, s') \<Longrightarrow> growth s s'"
  unfolding handle_read_def Let_def
  by (auto elim!: bind_SomeE dest!: request_loop_pool handle_write_kv split: rres.split_asm if_split_asm)

text \<open>The first complete request of what is read is executed before anything else.\<close>

lemma handle_read_first:
  assumes "handle_read clk s conn (RData buf) wr = Some (w, s')" "conns s conn = Some c" "incoming c = []"
    "split_reqs buf = (cmd # cmds, rest, bad)"
  obtains k out out' where "do_request (clk 0) (kv s) cmd out = Some (k, out')" "prefix (pool k) (pool (kv s'))"
proof -
  let ?c = "c\<lparr>incoming := buf_append (incoming c) buf\<rparr>" and ?s = "set_conn s conn (c\<lparr>incoming := buf_append (incoming c) buf\<rparr>)"
  have ne: "buf \<noteq> []" using assms(4) by (auto simp: split_reqs.simps [of "[]"])
  from assms(1,2) ne obtain s1 where s1: "request_loop clk 0 ?s conn = Some s1" and g: "kv s' = kv s1"
    unfolding handle_read_def Let_def by (auto elim!: bind_SomeE dest!: handle_write_kv split: if_split_asm)
  have c: "conns ?s conn = Some ?c" by (simp add: set_conn_def)
  have "split_reqs (incoming ?c) = (cmd # cmds, rest, bad)" using assms(3,4) by (simp add: buf_append_def)
  then obtain n where n: "first_req (incoming ?c) n cmd" by (rule split_reqs_some)
  note one = try_one_request_some [OF c n, of "clk 0"]
  obtain go s2 where s2: "try_one_request (clk 0) ?s conn = Some (go, s2)"
    using s1 by (subst (asm) request_loop.simps) (auto elim!: bind_SomeE)
  then obtain k out' where k: "do_request (clk 0) (kv ?s) cmd (fst (response_begin (outgoing ?c))) = Some (k, out')" "kv s2 = k"
    unfolding one by (auto elim!: bind_SomeE)
  have "prefix (pool (kv s2)) (pool (kv s1))"
    using s1 s2 by (subst (asm) request_loop.simps) (auto dest: request_loop_pool split: if_split_asm)
  then show thesis using that k g by simp
qed

section \<open>Turns of the loop\<close>

lemma serve_pool: "serve s conn ready x = Some (r, w, s') \<Longrightarrow> growth s s'"
  by (auto simp: serve_def pool_simps dest!: handle_read_pool handle_write_kv split: if_splits)

lemma handle_ready_pool: "handle_ready s fd ready x = Some (l, s') \<Longrightarrow> growth s s'"
  by (auto simp: handle_ready_def pool_simps dest!: serve_pool touch_kv conn_destroy_kv split: if_splits)

lemma handle_conns_pool: "handle_conns e i args s = Some (l, s') \<Longrightarrow> growth s s'"
proof (induction args arbitrary: i s l)
  case (Cons a args)
  obtain fd asked where a: "a = (fd, asked)" by fastforce
  from Cons.prems obtain l1 s1 l2 where
    "handle_ready s fd (e_ready e i) (e_io e i) = Some (l1, s1)" "handle_conns e (i + 1) args s1 = Some (l2, s')"
    by (auto simp: a bind_eq_Some_conv)
  then show ?case using handle_ready_pool Cons.IH prefix_order.order_trans by blast
qed simp

lemma idle_loop_kv:
  assumes "idle_loop now s = Some s'"
  shows "kv s' = kv s"
proof (rule idle_loop.raw_induct [OF _ assms, where P = "\<lambda>now s s'. kv s' = kv s"], goal_cases)
  case (1 loop now s s')
  show ?case
    using 1(2) by (auto simp: pool_simps deref_def dest!: conn_destroy_kv 1(1) split: if_splits)
qed

lemma expire_loop_pool:
  assumes "expire_loop now n s = Some s'"
  shows "prefix (pool s) (pool s')"
proof (rule expire_loop.raw_induct [OF _ assms, where P = "\<lambda>now n s s'. prefix (pool s) (pool s')"], goal_cases)
  case (1 loop now n s s')
  show ?case
  proof (cases "theap s \<noteq> [] \<and> hi_val (theap s ! 0) < now")
    case True
    then obtain b h m s1 where d: "entry_del now (s\<lparr>enode := h, db := m\<rparr>) b = Some s1"
      and r: "(if n \<ge> K_MAX_WORKS then Some s1 else loop now (n + 1) s1) = Some s'"
      using 1(2) by (auto simp: pool_simps)
    have "prefix (pool s1) (pool s')" using r 1(1) by (auto split: if_splits)
    then show ?thesis using entry_del_pool [OF d] by (simp add: prefix_order.order_trans)
  next
    case False
    then show ?thesis using 1(2) by (simp split: if_splits)
  qed
qed

lemma process_timers_pool: "process_timers now s = Some s' \<Longrightarrow> growth s s'"
  by (auto simp: process_timers_def pool_simps dest!: idle_loop_kv expire_loop_pool)

lemma loop_iter_pool: "loop_iter e s = Some (l, s') \<Longrightarrow> growth s s'"
  unfolding loop_iter_def
  by (auto simp: pool_simps dest!: handle_accept_kv handle_conns_pool process_timers_pool split: if_splits
      intro: prefix_order.order_trans)

end
