(* ===== verification/Deferral.thy ===== *)
theory Deferral
  imports KeyRefine
begin

text \<open>
  Two consequences of the refinement of \<^verbatim>\<open>KeyRefine\<close>: a store represents one keyspace only, so that
  \<open>kv_rep\<close> is a function of the store; and the decision of \<^verbatim>\<open>entry_del\<close> which deletions are left to the
  thread pool, in terms of the keyspace.
\<close>

section \<open>The store determines the keyspace\<close>

text \<open>Two keyspaces that one store represents answer every request alike, and the answers tell
  all of a keyspace.\<close>

lemma same_reply:
  assumes "cmd_ok now A cmd [] p" "cmd_ok now B cmd [] p" "\<forall>A r A'. kv_step now A cmd r A' \<longrightarrow> r = f A"
  shows "encode (f A) = encode (f B)"
proof -
  from assms(1) obtain s r A' where 1: "p = Some (s, encode r)" "kv_step now A cmd r A'" unfolding cmd_ok_def by auto
  from assms(2) obtain s2 r2 B' where 2: "p = Some (s2, encode r2)" "kv_step now B cmd r2 B'" unfolding cmd_ok_def by auto
  have "r = f A" "r2 = f B" using assms(3) 1(2) 2(2) by blast+
  then show ?thesis using 1(1) 2(1) by simp
qed

definition get_reply :: "keyspace \<Rightarrow> bytes \<Rightarrow> reply" where
  "get_reply A k = (case A k of None \<Rightarrow> VNil | Some (KStr v, _) \<Rightarrow> VStr v
     | Some (KZSet _, _) \<Rightarrow> wrong_type ''not a string value'')"

definition ttl_reply :: "u64 \<Rightarrow> keyspace \<Rightarrow> bytes \<Rightarrow> reply" where
  "ttl_reply now A k = VInt (case A k of None \<Rightarrow> - 2 | Some (_, None) \<Rightarrow> - 1
     | Some (_, Some t) \<Rightarrow> if t > now then t - now else 0)"

definition score_reply :: "keyspace \<Rightarrow> bytes \<Rightarrow> bytes \<Rightarrow> reply" where
  "score_reply A k n = (case zset_of A k of None \<Rightarrow> wrong_type ''expect zset''
     | Some Z \<Rightarrow> (case Z n of None \<Rightarrow> VNil | Some s \<Rightarrow> VDbl s))"

lemma encode_same:
  "encode VNil \<noteq> encode (VStr v)" "encode VNil \<noteq> encode (VErr c m)" "encode (VStr v) \<noteq> encode (VErr c m)"
  "encode VNil \<noteq> encode (VDbl x)" "encode (VDbl x) = encode (VDbl y) \<longleftrightarrow> x = y"
  "encode (VInt x) = encode (VInt y) \<longleftrightarrow> x = y" "encode (VStr v) = encode (VStr w) \<longleftrightarrow> v = w"
proof -
  show "encode (VStr v) = encode (VStr w) \<longleftrightarrow> v = w" by (auto simp: append_eq_append_conv)
qed (simp_all add: u64c.enc_inject)

lemma same_value:
  assumes "encode (get_reply A k) = encode (get_reply B k)" "\<forall>n. encode (score_reply A k n) = encode (score_reply B k n)"
  shows "map_option fst (A k) = map_option fst (B k)"
proof -
  have z: "Z1 = Z2" if "zset_of A k = Some Z1" "zset_of B k = Some Z2" for Z1 Z2
  proof
    fix n
    show "Z1 n = Z2 n" using spec [OF assms(2), of n] that
      by (auto simp: score_reply_def encode_same encode_same(4) [symmetric] simp del: encode.simps split: option.splits)
  qed
  show ?thesis
    using assms(1) z
    by (auto simp: get_reply_def zset_of_def encode_same encode_same(1-3) [symmetric] simp del: encode.simps split: option.splits kval.splits)
qed

lemma same_time:
  assumes "\<forall>now. encode (ttl_reply now A k) = encode (ttl_reply now B k)" "A k = Some (v, t)" "B k = Some (v, u)"
  shows "t = u"
  using spec [OF assms(1), of 0] spec [OF assms(1), of 1] assms(2,3)
  by (auto simp: ttl_reply_def encode_same word_gt_0 simp del: encode.simps split: option.splits if_splits)

lemma kv_rep_functional:
  assumes "kv_rep s A" "kv_rep s B"
  shows "A = B"
proof
  fix k
  from assms obtain D zt where A: "kv_inv s D zt" "kv_abs s D zt A" unfolding kv_rep_def by blast
  from assms obtain E zu where B: "kv_inv s E zu" "kv_abs s E zu B" unfolding kv_rep_def by blast
  have get: "encode (get_reply A k) = encode (get_reply B k)"
    by (rule same_reply [OF do_get_ok [OF A, of 0 k] do_get_ok [OF B, of 0 k]]) (simp add: step_get get_reply_def)
  have ttl: "\<forall>now. encode (ttl_reply now A k) = encode (ttl_reply now B k)"
  proof
    fix now
    show "encode (ttl_reply now A k) = encode (ttl_reply now B k)"
      by (rule same_reply [OF do_ttl_ok [OF A, of now k] do_ttl_ok [OF B, of now k]]) (simp add: step_ttl ttl_reply_def)
  qed
  have score: "\<forall>n. encode (score_reply A k n) = encode (score_reply B k n)"
  proof
    fix n
    show "encode (score_reply A k n) = encode (score_reply B k n)"
      by (rule same_reply [OF do_zscore_ok [OF A, of 0 k n] do_zscore_ok [OF B, of 0 k n]])
        (simp add: step_zscore score_reply_def)
  qed
  have v: "map_option fst (A k) = map_option fst (B k)" by (rule same_value [OF get score])
  show "A k = B k"
  proof (cases "A k")
    case None
    then show ?thesis using v by simp
  next
    case (Some p)
    then obtain q where q: "B k = Some q" "fst q = fst p" using v by (cases "B k") simp_all
    have "A k = Some (fst p, snd p)" "B k = Some (fst p, snd q)" using Some q by simp_all (metis prod.collapse)
    from same_time [OF ttl this] have "snd p = snd q" .
    then show ?thesis using Some q by (simp add: prod_eq_iff)
  qed
qed

section \<open>Deferred deletions\<close>

lemma entry_set_ttl_frame: "entry_set_ttl now s a ttl = Some s' \<Longrightarrow> ents s' = ents s \<and> pool s' = pool s"
  by (auto simp: entry_set_ttl_def bind_eq_Some_conv Let_def split: if_splits)

lemma entry_del_defers:
  assumes inv: "kv_inv s D zt" and abs: "kv_abs s D zt A" and a: "a \<in> D" "A (e_key (ent s a)) = Some (KZSet Z, t)"
    and card: "card (dom Z) < 2 ^ 31" and run: "entry_del now (s\<lparr>enode := h, db := m\<rparr>) a = Some s'"
  shows "pool s' = (if 1000 < card (dom Z) then pool s @ [a] else pool s)"
proof -
  note I = kv_invD [OF inv]
  obtain e where e: "ents s a = Some e" using I(4) [of a] a(1) by blast
  have v: "val_of (zm s) e (zt a) = KZSet Z" using kv_absD(1) [OF abs a(1)] a(2) e by simp
  then have ty: "e_type e = T_ZSET" and z: "zabs (zm s) (zt a) = Z"
    using I(6) [of a] a(1) e by (auto simp: val_of_def split: if_splits)
  have ok: "zset_ok (zm s) (e_zset e) (zt a)" using I(5) [of a] a(1) e by simp
  have "hm_size (zhmap (e_zset e)) = of_nat (card (set_tree (zt a)))"
    using ok by (auto simp: zset_ok_def intro: hmap_set_size)
  moreover have "card (set_tree (zt a)) = card (dom Z)"
  proof -
    show ?thesis using zset_okD(5) [OF ok] unfolding z [symmetric] dom_zabs by (simp add: card_image)
  qed
  ultimately have size: "unat (hm_size (zhmap (e_zset e))) = card (dom Z)" using card by (simp add: unat_of_nat_u64)
  from run obtain s1 where s1: "entry_set_ttl now (s\<lparr>enode := h, db := m\<rparr>) a (- 1) = Some s1"
    by (auto simp: entry_del_def bind_eq_Some_conv)
  note F = entry_set_ttl_frame [OF s1]
  have "pool u = pool s1" if "entry_del_sync s1 a = Some u" for u
    using that by (auto simp: entry_del_sync_def entry_free_def bind_eq_Some_conv split: if_splits)
  then show ?thesis
    using run s1 F e ty size
    by (auto simp: entry_del_def bind_eq_Some_conv Let_def word_less_nat_alt split: if_splits)
qed

lemma large_del_deferred:
  assumes "kv_rep s A" "A k = Some (KZSet Z, t)" "card (dom Z) < 2 ^ 31" "1000 < card (dom Z)"
    and run: "do_request now s [cstr ''del'', k] out = Some (s', out')"
  obtains a where "pool s' = pool s @ [a]"
proof -
  from assms(1) obtain D zt where inv: "kv_inv s D zt" and abs: "kv_abs s D zt A" unfolding kv_rep_def by blast
  note I = kv_invD [OF inv]
  from hm.keyed_delete [where hash = str_hash and k = k, OF I(1) _ I(2) entry_eq_key [OF inv]] obtain r h m where
    r: "hm_delete (enode s) (db s) (str_hash k) (entry_eq s k) = Some (r, h, m)"
      "\<forall>a. r = Some a \<longleftrightarrow> a \<in> D \<and> e_key (ent s a) = k" by auto
  obtain a where a: "a \<in> D" "e_key (ent s a) = k" using kv_absD(2) [OF abs, of k] assms(2) by auto
  have "do_del now s [cstr ''del'', k] out = Some (s', out')" using run by (simp add: do_request_dispatch)
  then have "entry_del now (s\<lparr>enode := h, db := m\<rparr>) a = Some s'"
    using r a by (auto simp: do_del_def bind_eq_Some_conv)
  from entry_del_defers [OF inv abs a(1) _ assms(3) this] show thesis using that assms(2,4) a(2) by simp
qed
end
