(* ===== verification/System.thy ===== *)
theory System
  imports Startup PoolGrowth Deferral
begin

text \<open>
  The server as a whole: the event loop together with the thread pool it hands large sorted sets
  to.  A turn of the loop leaves the jobs it wants done in \<open>todo\<close>; the thread of the loop then calls
  \<^verbatim>\<open>thread_pool_queue\<close> for each, whose steps interleave with those of the workers in any order; a
  worker that reaches its job runs \<^verbatim>\<open>entry_del_func\<close> on the store of the server.  The address of
  \<^verbatim>\<open>entry_del_func\<close> is the parameter \<open>f\<close>.
\<close>

section \<open>Steps\<close>

record system =
  clock :: u64
  server :: srv
  seen :: traffic
  tp :: tpool
  todo :: "work list"

definition del_job :: "nat \<Rightarrow> addr \<Rightarrow> work" where
  "del_job f a = \<lparr>w_f = f, w_arg = Some a\<rparr>"

definition new_jobs :: "nat \<Rightarrow> srv \<Rightarrow> srv \<Rightarrow> work list" where
  "new_jobs f s s' = map (del_job f) (drop (length (pool (kv s))) (pool (kv s')))"

inductive sys_step :: "nat \<Rightarrow> system \<Rightarrow> system \<Rightarrow> bool" for f S where
  call: "caller (tp S) = PIdle \<Longrightarrow> todo S = w # ws \<Longrightarrow>
    sys_step f S (S\<lparr>todo := ws, tp := (tp S)\<lparr>caller := PLock w\<rparr>\<rparr>)"
| queue: "thread_pool_queue (tp S) p \<Longrightarrow> sys_step f S (S\<lparr>tp := p\<rparr>)"
| work: "worker i (tp S) p \<Longrightarrow> ran p = ran (tp S) \<Longrightarrow> sys_step f S (S\<lparr>tp := p\<rparr>)"
| dispose: "worker i (tp S) p \<Longrightarrow> ran p = ran (tp S) @ [w] \<Longrightarrow> w_f w = f \<Longrightarrow> w_arg w = Some a \<Longrightarrow>
    pool_work (kv (server S)) a = Some k \<Longrightarrow> sys_step f S (S\<lparr>tp := p, server := (server S)\<lparr>kv := k\<rparr>\<rparr>)"

inductive system_run :: "nat \<Rightarrow> system \<Rightarrow> bool" for f where
  start: "main_start y m = Some (Inr (fd, flags, s, p)) \<Longrightarrow>
    system_run f \<lparr>clock = 0, server = s, seen = [], tp = p, todo = []\<rparr>"
| turn: "system_run f S \<Longrightarrow> todo S = [] \<Longrightarrow> caller (tp S) = PIdle \<Longrightarrow> env_ok (clock S) (server S) e \<Longrightarrow>
    room (server S) \<Longrightarrow> loop_iter e (server S) = Some (l, s') \<Longrightarrow>
    system_run f (S\<lparr>clock := (if e_intr e then clock S else e_timer_now e), server := s', seen := seen S @ l,
      todo := new_jobs f (server S) s'\<rparr>)"
| step: "system_run f S \<Longrightarrow> sys_step f S S' \<Longrightarrow> system_run f S'"
| spurious: "system_run f S \<Longrightarrow> at_pc (tp S) i WWait \<Longrightarrow> system_run f (S\<lparr>tp := goto (tp S) i WWoken\<rparr>)"

section \<open>Jobs in the pool\<close>

fun pend :: "ppc \<Rightarrow> work multiset" where
  "pend (PLock w) = {#w#}"
| "pend (PPush w) = {#w#}"
| "pend _ = {#}"

text \<open>The jobs the pool has been given and has not run.\<close>

definition held :: "tpool \<Rightarrow> work multiset" where
  "held s = pend (caller s) + mset (queue s) + running s"

lemma running_goto_same:
  "i < length (threads s) \<Longrightarrow> job (threads s ! i) = {#} \<Longrightarrow> job pc = {#} \<Longrightarrow> running (goto s i pc) = running s"
  using running_goto [of i s pc] by simp

lemma worker_held:
  assumes "worker i s s'"
  shows "ran s' = ran s \<and> held s' = held s \<or>
    (\<exists>w. at_pc s i (WRun w) \<and> ran s' = ran s @ [w] \<and> held s = add_mset w (held s'))"
  using assms
proof cases
  case (pop w ws)
  have "running s' = add_mset w (running s)"
    using running_goto [of i "s\<lparr>queue := ws, got := got s @ [w]\<rparr>" "WUnlock w"] pop by simp
  then show ?thesis using pop by (simp add: held_def)
next
  case (unlock w)
  have "running s' = running s" using running_goto [of i "s\<lparr>mu := None\<rparr>" "WRun w"] unlock by simp
  then show ?thesis using unlock by (simp add: held_def)
next
  case (run w)
  have "running s = add_mset w (running s')"
    using running_goto [of i "s\<lparr>ran := ran s @ [w]\<rparr>" WLock] run by simp
  then show ?thesis using run by (simp add: held_def)
qed (simp_all add: held_def running_goto_same)

lemma thread_pool_queue_held: "thread_pool_queue s s' \<Longrightarrow> ran s' = ran s \<and> held s' = held s"
  by (erule thread_pool_queue.cases) (simp_all add: held_def running_goto_same)

lemma job_running: "i < length (threads s) \<Longrightarrow> w \<in># job (threads s ! i) \<Longrightarrow> w \<in># running s"
  unfolding running_def by (force simp: set_mset_sum_list)

text \<open>Two workers at the same job would have taken it twice.\<close>

lemma jobs_twice:
  assumes "i < length (threads s)" "j < length (threads s)" "i \<noteq> j" "threads s ! i = WRun w" "threads s ! j = WRun w"
  shows "Suc 0 < count (running s) w"
proof -
  have "running s = add_mset w (running (goto s i WLock))" using running_goto [of i s WLock] assms(1,4) by simp
  moreover have "w \<in># running (goto s i WLock)" by (rule job_running [of j]) (use assms in simp_all)
  ultimately show ?thesis by simp
qed

section \<open>Invariant\<close>

definition sys_inv :: "nat \<Rightarrow> system \<Rightarrow> bool" where
  "sys_inv f S \<longleftrightarrow> runs (clock S) (server S) (seen S) \<and> tp_inv 4 (tp S) \<and>
     image_mset (del_job f) (mset (pool (kv (server S)))) = mset (todo S) + held (tp S)"

lemma sys_invD:
  assumes "sys_inv f S"
  shows "runs (clock S) (server S) (seen S)" "tp_inv 4 (tp S)"
    "image_mset (del_job f) (mset (pool (kv (server S)))) = mset (todo S) + held (tp S)"
  using assms by (simp_all add: sys_inv_def)

lemma del_job_inj: "del_job f a = del_job f b \<longleftrightarrow> a = b"
  by (simp add: del_job_def)

lemma pool_work_pool: "pool_work s a = Some k \<Longrightarrow> a \<in> set (pool s) \<and> pool k = remove1 a (pool s) \<and> ents k = (ents s)(a := None)"
  by (auto simp: pool_work_def entry_del_func_def entry_del_sync_def entry_free_def pool_simps split: if_splits)

lemma system_start_inv:
  assumes "main_start y m = Some (Inr (fd, flags, s, p))"
  shows "sys_inv f \<lparr>clock = 0, server = s, seen = [], tp = p, todo = []\<rparr>"
proof -
  note M = main_start_parts [OF assms]
  have "pool (kv s) = []" using srv_init_ok [of m] M(1) by (auto simp: kvs_init_def)
  moreover have "held p = {#}" using thread_pool_init_inv(2-4) [OF M(2)] by (simp add: held_def)
  ultimately show ?thesis using runs.start [OF M(1)] thread_pool_init_inv(1) [OF M(2)] by (simp add: sys_inv_def)
qed

lemma sys_step_inv:
  assumes "sys_step f S S'" "sys_inv f S"
  shows "sys_inv f S'"
  using assms(1)
proof cases
  case (call w ws)
  note I = sys_invD [OF assms(2)]
  have "tp_inv 4 ((tp S)\<lparr>caller := PLock w\<rparr>)" using call_inv I(2) call(2) by blast
  then show ?thesis using I call by (simp add: sys_inv_def held_def)
next
  case (queue p)
  note I = sys_invD [OF assms(2)]
  show ?thesis using I queue thread_pool_queue_held thread_pool_queue_inv by (simp add: sys_inv_def)
next
  case (work i p)
  note I = sys_invD [OF assms(2)]
  show ?thesis using I work worker_held [OF work(2)] worker_inv by (auto simp: sys_inv_def)
next
  case (dispose i p w a k)
  note I = sys_invD [OF assms(2)]
  have w: "w = del_job f a" using dispose by (simp add: del_job_def)
  have h: "held (tp S) = add_mset w (held p)" using worker_held [OF dispose(2)] dispose(3) by auto
  note P = pool_work_pool [OF dispose(6)]
  have "image_mset (del_job f) (mset (pool k)) = mset (todo S) + held p"
    using I(3) h P w by (simp add: image_mset_Diff)
  then show ?thesis using dispose I worker_inv runs.worker [OF I(1) dispose(6)] by (simp add: sys_inv_def)
qed

lemma system_run_inv: "system_run f S \<Longrightarrow> sys_inv f S"
proof (induction rule: system_run.induct)
  case (start y m fd flags s p)
  then show ?case by (rule system_start_inv)
next
  case (turn S e l s')
  note I = sys_invD [OF turn.IH]
  obtain js where js: "pool (kv s') = pool (kv (server S)) @ js"
    using loop_iter_pool [OF turn.hyps(6)] by (auto simp: prefix_def)
  then have "new_jobs f (server S) s' = map (del_job f) js" by (simp add: new_jobs_def)
  then show ?case using I js turn.hyps(2) runs.turn [OF I(1) turn.hyps(4-6)] by (simp add: sys_inv_def)
next
  case (step S S')
  then show ?case using sys_step_inv by blast
next
  case (spurious S i)
  note I = sys_invD [OF spurious.IH]
  have "tp_inv 4 (goto (tp S) i WWoken)" using spurious_inv I(2) spurious.hyps(2) by blast
  moreover have "held (goto (tp S) i WWoken) = held (tp S)" using spurious.hyps(2) by (simp add: held_def running_goto_same)
  ultimately show ?case using I by (simp add: sys_inv_def)
qed

section \<open>Disposal\<close>

lemma held_job:
  assumes "sys_inv f S" "i < 4" "w \<in># job (threads (tp S) ! i)"
  obtains a where "w = del_job f a" "a \<in> set (pool (kv (server S)))"
proof -
  note I = sys_invD [OF assms(1)]
  have "w \<in># running (tp S)" by (rule job_running [OF _ assms(3)]) (use assms(2) tp_invD(2) [OF I(2)] in simp)
  then have "w \<in># image_mset (del_job f) (mset (pool (kv (server S))))" unfolding I(3) by (simp add: held_def)
  then show thesis using that by auto
qed

lemma one_worker_each:
  assumes inv: "sys_inv f S" and p: "distinct (pool (kv (server S)))"
    and ij: "i < 4" "j < 4" "threads (tp S) ! i = WRun w" "threads (tp S) ! j = WRun w"
  shows "i = j"
proof (rule ccontr)
  assume "i \<noteq> j"
  note I = sys_invD [OF inv]
  have "Suc 0 < count (running (tp S)) w" by (rule jobs_twice [of i _ j]) (use ij \<open>i \<noteq> j\<close> tp_invD(2) [OF I(2)] in simp_all)
  also have "\<dots> \<le> count (image_mset (del_job f) (mset (pool (kv (server S))))) w" unfolding I(3) by (simp add: held_def)
  also have "\<dots> \<le> 1"
  proof -
    have "distinct (map (del_job f) (pool (kv (server S))))" using p by (simp add: distinct_map inj_on_def del_job_inj)
    then show ?thesis by (metis count_mset_0_iff distinct_count_atmost_1 eq_refl le0 mset_map zero_le_one)
  qed
  finally show False by simp
qed

lemma sys_inv_keys:
  assumes "sys_inv f S"
  obtains A D zt where "srv_inv (clock S) (server S) A" "kv_inv (kv (server S)) D zt" "kv_abs (kv (server S)) D zt A"
proof -
  from runs_inv [OF sys_invD(1) [OF assms]] obtain A where A: "srv_inv (clock S) (server S) A" by blast
  then have "kv_rep (kv (server S)) A" by (simp add: srv_inv_def)
  then show thesis using that A unfolding kv_rep_def by blast
qed

section \<open>Reclamation\<close>

definition sys_left :: "system \<Rightarrow> nat" where
  "sys_left S = work_left (tp S) + 20 * length (todo S)"

lemma sys_step_less: "sys_step f S S' \<Longrightarrow> sys_left S' < sys_left S"
  by (erule sys_step.cases)
    (auto simp: sys_left_def dest: worker_less thread_pool_queue_less, simp add: work_left_def)

lemma sys_step_rep:
  assumes "sys_step f S S'" "kv_rep (kv (server S)) A"
  shows "kv_rep (kv (server S')) A"
  using assms(1)
proof cases
  case (dispose i p w b k)
  from assms(2) obtain D zt where d: "kv_inv (kv (server S)) D zt" "kv_abs (kv (server S)) D zt A"
    unfolding kv_rep_def by blast
  have b: "b \<in> set (pool (kv (server S)))" using pool_work_pool [OF dispose(6)] by simp
  from pool_work_ok [OF d b] have "kv_rep k A" using dispose(6) unfolding kv_rep_def by (metis option.inject)
  then show ?thesis using dispose(1) by simp
qed (use assms(2) in simp_all)

text \<open>An entry that waits for disposal or has been freed.\<close>

definition given_up :: "system \<Rightarrow> addr \<Rightarrow> bool" where
  "given_up S a \<longleftrightarrow> a \<in> set (pool (kv (server S))) \<or> ents (kv (server S)) a = None"

lemma sys_step_given_up:
  assumes "sys_step f S S'" "given_up S a"
  shows "given_up S' a"
  using assms(1)
proof cases
  case (dispose i p w b k)
  then show ?thesis using assms(2) pool_work_pool [OF dispose(6)] by (auto simp: given_up_def in_set_remove1)
qed (use assms(2) in \<open>simp_all add: given_up_def\<close>)

lemma sys_steps:
  assumes "(sys_step f)\<^sup>*\<^sup>* S S'" "sys_inv f S"
  shows "sys_inv f S'" "kv_rep (kv (server S)) A \<Longrightarrow> kv_rep (kv (server S')) A" "given_up S a \<Longrightarrow> given_up S' a"
  using assms by (induction rule: rtranclp_induct) (auto intro: sys_step_inv sys_step_rep sys_step_given_up)

lemma sys_stuck:
  assumes inv: "sys_inv f S" and stuck: "\<forall>T. \<not> sys_step f S T"
  shows "todo S = []" "pool (kv (server S)) = []" "caller (tp S) = PIdle"
proof -
  note I = sys_invD [OF inv]
  have "\<not> tp_step (tp S) p" for p
  proof
    assume "tp_step (tp S) p"
    then consider "thread_pool_queue (tp S) p" | i where "worker i (tp S) p" unfolding tp_step_def by blast
    then show False
    proof cases
      case 1
      then show ?thesis using stuck sys_step.queue by blast
    next
      case 2
      then show ?thesis
      proof (cases "ran p = ran (tp S)")
        case True
        then show ?thesis using stuck sys_step.work 2 by blast
      next
        case False
        then obtain w where w: "at_pc (tp S) i (WRun w)" "ran p = ran (tp S) @ [w]" using worker_held [OF 2] by blast
        have i: "i < 4" using w(1) tp_invD(2) [OF I(2)] by simp
        obtain a where a: "w = del_job f a" "a \<in> set (pool (kv (server S)))"
          by (rule held_job [OF inv i, of w]) (use w(1) in simp_all)
        from sys_inv_keys [OF inv] obtain A D zt where d: "kv_inv (kv (server S)) D zt" "kv_abs (kv (server S)) D zt A" .
        from pool_work_ok [OF d a(2)] obtain k where "pool_work (kv (server S)) a = Some k" by metis
        then show ?thesis using stuck sys_step.dispose [OF 2 w(2), of f a k] a(1) by (simp add: del_job_def)
      qed
    qed
  qed
  then have tp: "queue (tp S) = []" "caller (tp S) = PIdle" "mset (ran (tp S)) = mset (put (tp S))"
    using stuck_drained [OF I(2)] by blast+
  have "running (tp S) = {#}" using tp_invD(7,8) [OF I(2)] tp(1,3) by simp
  then have h: "held (tp S) = {#}" using tp by (simp add: held_def)
  show t: "todo S = []" using stuck sys_step.call [OF tp(2)] by (cases "todo S") blast+
  show "pool (kv (server S)) = []" using I(3) h t by simp
  show "caller (tp S) = PIdle" by (rule tp(2))
qed

text \<open>Without further turns the system settles; a disposal on the way is run by a worker.\<close>

lemma sys_settles: "\<exists>S'. (sys_step f)\<^sup>*\<^sup>* S S' \<and> (\<forall>T. \<not> sys_step f S' T)"
proof (induction "sys_left S" arbitrary: S rule: less_induct)
  case less
  show ?case
  proof (cases "\<exists>T. sys_step f S T")
    case True
    then obtain T where T: "sys_step f S T" by blast
    from less [OF sys_step_less [OF T]] show ?thesis using converse_rtranclp_into_rtranclp [where r = "sys_step f"] T by blast
  qed blast
qed

lemma sys_step_server:
  "sys_step f S S' \<Longrightarrow> clock S' = clock S \<and> (\<exists>k. server S' = (server S)\<lparr>kv := k\<rparr>) \<and>
    (pool (kv (server S')) = pool (kv (server S)) \<or> (\<exists>i w. at_pc (tp S) i (WRun w)))"
proof (erule sys_step.cases, goal_cases)
  case (4 i p w a k)
  then show ?case using worker_held [of i "tp S" p] by auto
qed (auto intro: exI [of _ "kv (server S)"])

lemma sys_steps_server:
  "(sys_step f)\<^sup>*\<^sup>* S S' \<Longrightarrow> clock S' = clock S \<and> (\<exists>k. server S' = (server S)\<lparr>kv := k\<rparr>)"
proof (induction rule: rtranclp_induct)
  case base
  then show ?case by (auto intro: exI [of _ "kv (server S)"])
next
  case (step T T')
  then show ?case using sys_step_server [OF step(2)] by auto
qed

lemma sys_steps_runs_job:
  "(sys_step f)\<^sup>*\<^sup>* S S' \<Longrightarrow> pool (kv (server S')) \<noteq> pool (kv (server S)) \<Longrightarrow>
     \<exists>T i w. (sys_step f)\<^sup>*\<^sup>* S T \<and> at_pc (tp T) i (WRun w)"
proof (induction rule: rtranclp_induct)
  case (step T T')
  then show ?case using sys_step_server [OF step(2)] by metis
qed simp

lemma system_run_steps: "(sys_step f)\<^sup>*\<^sup>* S S' \<Longrightarrow> system_run f S \<Longrightarrow> system_run f S'"
  by (induction rule: rtranclp_induct) (auto intro: system_run.step)

section \<open>A run that hands over a job\<close>

text \<open>A client that adds 1001 names to a sorted set and then deletes the set.\<close>

definition ex_zkey :: bytes where "ex_zkey = [122]"

definition ex_zadd :: "nat \<Rightarrow> bytes list" where
  "ex_zadd i = [cstr ''zadd'', ex_zkey, [], bytes_of_u32 (of_nat i)]"

definition ex_fill :: bytes where
  "ex_fill = concat (map (frame \<circ> enc_req) (map ex_zadd [0..<1001]))"

definition ex_drop :: bytes where
  "ex_drop = frame (enc_req [cstr ''del'', ex_zkey])"

definition only_zset :: "keyspace \<Rightarrow> bytes set \<Rightarrow> bool" where
  "only_zset A N \<longleftrightarrow> A = Map.empty \<and> N = {} \<or> (\<exists>Z. A = [ex_zkey \<mapsto> (KZSet Z, None)] \<and> dom Z = N)"

lemma only_zset_step:
  "kv_step now A (ex_zadd i) r A' \<Longrightarrow> only_zset A N \<Longrightarrow> only_zset A' (insert (bytes_of_u32 (of_nat i)) N)"
proof -
  let ?n = "bytes_of_u32 (of_nat i)"
  assume st: "kv_step now A (ex_zadd i) r A'" and A: "only_zset A N"
  note S = step_zadd [OF st [unfolded ex_zadd_def], unfolded str2dbl_empty]
  consider "A = Map.empty" "N = {}" | Z where "A = [ex_zkey \<mapsto> (KZSet Z, None)]" "dom Z = N"
    using A unfolding only_zset_def by blast
  then show ?thesis
  proof cases
    case 1
    then have "A' = [ex_zkey \<mapsto> (KZSet [?n \<mapsto> 0], None)]" using S by simp
    moreover have "dom [?n \<mapsto> 0 :: u64] = insert ?n N" using 1 by simp
    ultimately show ?thesis unfolding only_zset_def by blast
  next
    case (2 Z)
    then have "A' = [ex_zkey \<mapsto> (KZSet (Z(?n \<mapsto> new_score Z ?n 0)), None)]" using S by simp
    moreover have "dom (Z(?n \<mapsto> new_score Z ?n 0)) = insert ?n N" using 2 by simp
    ultimately show ?thesis unfolding only_zset_def by blast
  qed
qed

lemma only_zset_run:
  "kv_run clk j A (map ex_zadd xs) rs B \<Longrightarrow> only_zset A N \<Longrightarrow>
     only_zset B (N \<union> (\<lambda>i. bytes_of_u32 (of_nat i)) ` set xs)"
proof (induction xs arbitrary: j A N rs)
  case (Cons i xs)
  from Cons.prems(1) obtain r rs' A' where "kv_step (clk j) A (ex_zadd i) r A'" "kv_run clk (j + 1) A' (map ex_zadd xs) rs' B"
    by (auto simp: kv_run_Cons)
  then show ?case using Cons.IH only_zset_step [OF _ Cons.prems(2)] by fastforce
qed simp

lemma ex_filled:
  assumes "kv_run clk 0 Map.empty (map ex_zadd [0..<1001]) rs B"
  obtains Z where "B = [ex_zkey \<mapsto> (KZSet Z, None)]" "card (dom Z) = 1001"
proof -
  let ?f = "\<lambda>i :: nat. bytes_of_u32 (of_nat i)"
  have "inj_on ?f (set [0..<1001])"
    by (rule inj_onI) (simp add: u32c.enc_inject of_nat_u32_inject)
  then have c: "card (?f ` set [0..<1001]) = 1001" by (simp add: card_image)
  have "only_zset B ({} \<union> ?f ` set [0..<1001])" by (rule only_zset_run [OF assms]) (simp add: only_zset_def)
  then show thesis using that c unfolding only_zset_def by fastforce
qed


lemma ex_fill_split: "split_reqs ex_fill = (map ex_zadd [0..<1001], [], False)"
  and ex_fill_length: "length ex_fill \<le> 64 * 1024" "ex_fill \<noteq> []"
proof -
  have len: "length (enc_req (ex_zadd i)) = 29" for i
    by (simp add: length_enc_req ex_zadd_def ex_zkey_def enc_args_def)
  show "split_reqs ex_fill = (map ex_zadd [0..<1001], [], False)"
    using split_reqs_frames [of "map ex_zadd [0..<1001]" "[]"] len
    by (simp add: ex_fill_def split_reqs.simps [of "[]"] K_MAX_MSG_def)
  have "length (concat (map (frame \<circ> enc_req) (map ex_zadd xs))) = 33 * length xs" for xs
    by (induction xs) (simp_all add: frame_def len)
  from this [of "[0..<1001]"] have l: "length ex_fill = 33033" by (simp add: ex_fill_def)
  show "length ex_fill \<le> 64 * 1024" using l by simp
  show "ex_fill \<noteq> []" using l by auto
qed

lemma ex_drop_split: "split_reqs ex_drop = ([[cstr ''del'', ex_zkey]], [], False)"
  and ex_drop_length: "length ex_drop \<le> 64 * 1024" "ex_drop \<noteq> []"
proof -
  have len: "length (enc_req [cstr ''del'', ex_zkey]) = 16" by (simp add: length_enc_req ex_zkey_def enc_args_def)
  show "split_reqs ex_drop = ([[cstr ''del'', ex_zkey]], [], False)"
    using split_reqs_frame [of "[cstr ''del'', ex_zkey]" "[]"] len
    by (simp add: ex_drop_def split_reqs.simps [of "[]"] K_MAX_MSG_def)
  have l: "length ex_drop = 20" by (simp add: ex_drop_def frame_def len)
  show "length ex_drop \<le> 64 * 1024" using l by simp
  show "ex_drop \<noteq> []" using l by auto
qed

definition ex_sys :: sys where
  "ex_sys = \<lparr>sys_errno = 0, sys_socket = 3, sys_bind = 0, sys_listen = 0, sys_getfl = (0, 2), sys_setfl = 0,
     sys_mutex = 0, sys_cond = 0, sys_create = (\<lambda>_. 0)\<rparr>"

lemma ex_boot: obtains p where
  "system_run f \<lparr>clock = 0, server = ex_start, seen = [], tp = p, todo = []\<rparr>" "caller p = PIdle"
proof -
  have "0 \<le> sys_socket ex_sys" "sys_bind ex_sys = 0" "sys_listen ex_sys = 0" "fst (sys_getfl ex_sys) = 0"
    "sys_setfl ex_sys = 0" "sys_mutex ex_sys = 0" "sys_cond ex_sys = 0" "\<forall>i. sys_create ex_sys i = 0"
    by (simp_all add: ex_sys_def)
  from main_start_works [OF this, of ex_zmem] obtain fd flags s p where
    m: "main_start ex_sys ex_zmem = Some (Inr (fd, flags, s, p))" .
  have "s = ex_start" using main_start_parts(1) [OF m] ex_start_ok(1) by simp
  moreover have "caller p = PIdle" by (rule thread_pool_init_inv(3) [OF main_start_parts(2) [OF m]])
  ultimately show thesis using that system_run.start [OF m] by blast
qed

text \<open>The system settles after a turn, with the connection open and the keys as they were.\<close>

lemma ex_settle:
  assumes "system_run f S" "clock S = 1" "server S = ex_open\<lparr>kv := K\<rparr>" "kv_rep K A"
  obtains S' K' where "(sys_step f)\<^sup>*\<^sup>* S S'" "system_run f S'" "clock S' = 1" "server S' = ex_open\<lparr>kv := K'\<rparr>" "kv_rep K' A"
    "todo S' = []" "caller (tp S') = PIdle" "pool K' = []"
proof -
  from sys_settles [of f S] obtain S' where S': "(sys_step f)\<^sup>*\<^sup>* S S'" "\<forall>T. \<not> sys_step f S' T" by blast
  note inv = system_run_inv [OF assms(1)]
  obtain k where k: "clock S' = 1" "server S' = ex_open\<lparr>kv := k\<rparr>" using sys_steps_server [OF S'(1)] assms(2,3) by auto
  have "kv_rep (kv (server S')) A" by (rule sys_steps(2) [OF S'(1) inv]) (simp add: assms(3,4))
  then have rep: "kv_rep k A" using k(2) by simp
  note fin = sys_stuck [OF sys_steps(1) [OF S'(1) inv] S'(2)]
  show thesis
    by (rule that [OF S'(1) system_run_steps [OF S'(1) assms(1)] k rep fin(1)]) (use fin k(2) in simp_all)
qed

lemma ex_room_filled: "kv_rep K [ex_zkey \<mapsto> (KZSet Z, None)] \<Longrightarrow> card (dom Z) = 1001 \<Longrightarrow> room (ex_open\<lparr>kv := K\<rparr>)"
  unfolding room_def
proof (intro allI impI)
  fix A assume K: "kv_rep K [ex_zkey \<mapsto> (KZSet Z, None)]" and c: "card (dom Z) = 1001"
    and "kv_rep (kv (ex_open\<lparr>kv := K\<rparr>)) A"
  then have "A = [ex_zkey \<mapsto> (KZSet Z, None)]" using kv_rep_functional by simp
  then show "kv_room_for (K_TURN * length (fd2conn (ex_open\<lparr>kv := K\<rparr>))) A"
    using c by (simp add: kv_room_for_def K_TURN_def ex_open_def)
qed

lemma expired_never: "expired n now [k \<mapsto> (v, None)] B \<Longrightarrow> B = [k \<mapsto> (v, None)]"
proof -
  assume "expired n now [k \<mapsto> (v, None)] B"
  then obtain R where R: "B = [k \<mapsto> (v, None)] |` (- R)" "\<forall>k' \<in> R. \<exists>v' t. [k \<mapsto> (v, None)] k' = Some (v', Some t) \<and> t < now \<and>
      (\<forall>k'' v'' t'. B k'' = Some (v'', Some t') \<longrightarrow> t \<le> t')"
    unfolding expired_def by (elim exE conjE) (rule that)
  have "k \<notin> R" using R(2) by auto
  then show ?thesis using R(1) by (auto simp: restrict_map_def fun_eq_iff)
qed

lemma ex_turn_runs:
  assumes "system_run f S" "clock S = 1" "server S = ex_open\<lparr>kv := K\<rparr>" "todo S = []" "caller (tp S) = PIdle"
    "room (ex_open\<lparr>kv := K\<rparr>)" "length buf \<le> 64 * 1024" "loop_iter (ex_read buf) (ex_open\<lparr>kv := K\<rparr>) = Some (l, ex_open\<lparr>kv := K'\<rparr>)"
  obtains S' where "system_run f S'" "clock S' = 1" "server S' = ex_open\<lparr>kv := K'\<rparr>"
proof -
  have "env_ok (clock S) (server S) (ex_read buf)" unfolding assms(2,3) by (rule ex_read_ok [OF assms(7)])
  from system_run.turn [OF assms(1,4,5) this] assms(3,6,8) have
    "system_run f (S\<lparr>clock := (if e_intr (ex_read buf) then clock S else e_timer_now (ex_read buf)),
       server := ex_open\<lparr>kv := K'\<rparr>, seen := seen S @ l, todo := new_jobs f (server S) (ex_open\<lparr>kv := K'\<rparr>)\<rparr>)" by simp
  then show thesis by (rule that) (simp_all add: ex_read_def ex_env_def)
qed

lemma ex_filled_run:
  obtains S K Z where "system_run f S" "clock S = 1" "server S = ex_open\<lparr>kv := K\<rparr>" "todo S = []" "caller (tp S) = PIdle"
    "kv_rep K [ex_zkey \<mapsto> (KZSet Z, None)]" "card (dom Z) = 1001"
proof -
  let ?K0 = "kvs_init ex_zmem"
  have open0: "ex_open\<lparr>kv := ?K0\<rparr> = ex_open" by (simp add: ex_open_def)
  from ex_boot [of f] obtain p where
    b: "system_run f \<lparr>clock = 0, server = ex_start, seen = [], tp = p, todo = []\<rparr>" "caller p = PIdle" .
  have s1: "system_run f \<lparr>clock = 1, server = ex_open, seen = [], tp = p, todo = []\<rparr>"
    using system_run.turn [OF b(1), of ex_env "[]" ex_open] b(2) ex_start_ok(3,4) ex_turn
    by (simp add: new_jobs_def) (simp add: ex_env_def ex_start_def ex_open_def)
  have rm: "kv_room_for (length (map ex_zadd [0..<1001])) Map.empty" by (simp add: kv_room_for_def)
  from ex_serve [OF kv_rep_empty ex_fill_split ex_fill_length(2) rm, of ex_zmem] obtain rs B K' B' where
    t: "kv_run (\<lambda>_. 1) 0 Map.empty (map ex_zadd [0..<1001]) rs B" "kv_rep K' B'" "expired (Suc K_MAX_WORKS) 1 B B'"
      "loop_iter (ex_read ex_fill) (ex_open\<lparr>kv := ?K0\<rparr>) = Some ([(1, ex_fill, replies rs)], ex_open\<lparr>kv := K'\<rparr>)" by metis
  from ex_filled [OF t(1)] obtain Z where Z: "B = [ex_zkey \<mapsto> (KZSet Z, None)]" "card (dom Z) = 1001" .
  have rep: "kv_rep K' [ex_zkey \<mapsto> (KZSet Z, None)]" using t(2) expired_never t(3) Z(1) by metis
  obtain S2 where s2: "system_run f S2" "clock S2 = 1" "server S2 = ex_open\<lparr>kv := K'\<rparr>"
    by (rule ex_turn_runs [OF s1 _ _ _ _ _ ex_fill_length(1) t(4)]) (use b(2) ex_open_ok(3) in \<open>simp_all add: open0\<close>)
  from ex_settle [OF s2 rep] show thesis using that Z(2) by metis
qed

lemma ex_busy:
  obtains S i w where "system_run f S" "i < 4" "threads (tp S) ! i = WRun w"
proof -
  from ex_filled_run [of f] obtain S K Z where
    s: "system_run f S" "clock S = 1" "server S = ex_open\<lparr>kv := K\<rparr>" "todo S = []" "caller (tp S) = PIdle"
    "kv_rep K [ex_zkey \<mapsto> (KZSet Z, None)]" "card (dom Z) = 1001" .
  let ?A = "[ex_zkey \<mapsto> (KZSet Z, None)] :: keyspace"
  have rm: "kv_room_for (length [[cstr ''del'', ex_zkey]]) ?A" using s(7) by (simp add: kv_room_for_def)
  from ex_serve [OF s(6) ex_drop_split ex_drop_length(2) rm] obtain rs k K' B' where
    t: "handle_read (\<lambda>_. 1) (ex_open\<lparr>kv := K\<rparr>) 1 (RData ex_drop) (\<lambda>b. Wrote (length b)) = Some (replies rs, ex_open\<lparr>kv := k\<rparr>)"
      "expire_loop 1 0 k = Some K'" "kv_rep K' B'"
      "loop_iter (ex_read ex_drop) (ex_open\<lparr>kv := K\<rparr>) = Some ([(1, ex_drop, replies rs)], ex_open\<lparr>kv := K'\<rparr>)" by metis
  have c: "conns (ex_open\<lparr>kv := K\<rparr>) 1 = Some ex_client" "incoming ex_client = []" by (simp_all add: ex_open_def ex_client_def)
  obtain q out out' where "do_request 1 (kv (ex_open\<lparr>kv := K\<rparr>)) [cstr ''del'', ex_zkey] out = Some (q, out')"
    "prefix (pool q) (pool (kv (ex_open\<lparr>kv := k\<rparr>)))" by (rule handle_read_first [OF t(1) c ex_drop_split])
  then have q: "do_request 1 K [cstr ''del'', ex_zkey] out = Some (q, out')" "prefix (pool q) (pool k)" by simp_all
  from large_del_deferred [OF s(6) _ _ _ q(1), of Z None] s(7) obtain a where "pool q = pool K @ [a]" by auto
  then have ne: "pool K' \<noteq> []" using q(2) expire_loop_pool [OF t(2)] by (auto simp: prefix_def)
  obtain S2 where s2: "system_run f S2" "clock S2 = 1" "server S2 = ex_open\<lparr>kv := K'\<rparr>"
    by (rule ex_turn_runs [OF s(1-5) ex_room_filled [OF s(6,7)] ex_drop_length(1) t(4)])
  from ex_settle [OF s2 t(3)] obtain S3 K3 where
    s3: "(sys_step f)\<^sup>*\<^sup>* S2 S3" "server S3 = ex_open\<lparr>kv := K3\<rparr>" "pool K3 = []" by metis
  from sys_steps_runs_job [OF s3(1)] obtain T i w where
    T: "(sys_step f)\<^sup>*\<^sup>* S2 T" "at_pc (tp T) i (WRun w)" using s2(3) s3(2,3) ne by auto
  have run: "system_run f T" by (rule system_run_steps [OF T(1) s2(1)])
  have "i < 4" using T(2) tp_invD(2) [OF sys_invD(2) [OF system_run_inv [OF run]]] by simp
  then show thesis using that run T(2) by blast
qed

section \<open>Properties\<close>



text \<open>C9: all memory is reclaimed, and nobody notices.  From every state of the whole server, and as long
  as no further turn runs and no thread wakes up by itself, every schedule of the loop's thread
  and the workers comes to an end; then no disposal is pending any more and every entry that was
  waiting for it has been freed, while the keys represent the same keyspace all the time.\<close>

theorem disposal_complete:
  assumes "system_run f S"
  shows "\<not> (\<exists>g. g 0 = S \<and> (\<forall>n. sys_step f (g n) (g (Suc n)))) \<and>
    (\<forall>S'. (sys_step f)\<^sup>*\<^sup>* S S' \<longrightarrow>
       (\<forall>A. kv_rep (kv (server S)) A \<longrightarrow> kv_rep (kv (server S')) A) \<and>
       ((\<forall>T. \<not> sys_step f S' T) \<longrightarrow> todo S' = [] \<and> pool (kv (server S')) = [] \<and>
          (\<forall>a \<in> set (pool (kv (server S))). ents (kv (server S')) a = None)))"
proof (rule conjI)
  show "\<not> (\<exists>g. g 0 = S \<and> (\<forall>n. sys_step f (g n) (g (Suc n))))"
    by (rule no_infinite_descent [where m = sys_left]) (rule sys_step_less)
next
  note inv = system_run_inv [OF assms]
  show "\<forall>S'. (sys_step f)\<^sup>*\<^sup>* S S' \<longrightarrow>
       (\<forall>A. kv_rep (kv (server S)) A \<longrightarrow> kv_rep (kv (server S')) A) \<and>
       ((\<forall>T. \<not> sys_step f S' T) \<longrightarrow> todo S' = [] \<and> pool (kv (server S')) = [] \<and>
          (\<forall>a \<in> set (pool (kv (server S))). ents (kv (server S')) a = None))"
  proof (intro allI impI conjI ballI)
    fix S' A assume "(sys_step f)\<^sup>*\<^sup>* S S'" "kv_rep (kv (server S)) A"
    then show "kv_rep (kv (server S')) A" using sys_steps(2) inv by blast
  next
    fix S' assume st: "(sys_step f)\<^sup>*\<^sup>* S S'" and stuck: "\<forall>T. \<not> sys_step f S' T"
    note fin = sys_stuck [OF sys_steps(1) [OF st inv] stuck]
    show "todo S' = []" "pool (kv (server S')) = []" by (rule fin)+
    fix a assume "a \<in> set (pool (kv (server S)))"
    then have "given_up S' a" using sys_steps(3) [OF st inv] by (simp add: given_up_def)
    then show "ents (kv (server S')) a = None" using fin(2) by (simp add: given_up_def)
  qed
qed

theorem disposal_complete_witness:
  "\<exists>S i w. system_run 7 S \<and> threads (tp S) ! i = WRun w \<and> \<not> (\<exists>g. g 0 = S \<and> (\<forall>n. sys_step 7 (g n) (g (Suc n))))"
proof -
  from ex_busy [of 7] obtain S i w where s: "system_run 7 S" "threads (tp S) ! i = WRun w" .
  from disposal_complete [OF s(1)] show ?thesis using s by blast
qed

end
