(* ===== verification/EndToEnd.thy ===== *)
theory EndToEnd
  imports Pipeline ErrPack
begin

text \<open>
  The client's \<^verbatim>\<open>main\<close> (\<^verbatim>\<open>client.cpp\<close>) and its conversation with the server: what the client prints
  is the reply that the server's keyspace allows for the command on the command line.
\<close>

section \<open>The client program\<close>

text \<open>The results of \<^verbatim>\<open>socket\<close> and \<^verbatim>\<open>connect\<close>, and \<^verbatim>\<open>errno\<close> after them, are arguments; \<^verbatim>\<open>die\<close> ends the
  program with a message, and otherwise it ends with what it printed and the state of the descriptor.\<close>

definition client_main ::
  "int \<Rightarrow> int \<Rightarrow> int \<Rightarrow> bytes \<Rightarrow> ('s \<Rightarrow> bytes \<Rightarrow> int \<times> 's) \<Rightarrow> ('s \<Rightarrow> nat \<Rightarrow> bytes option \<times> 's) \<Rightarrow> 's \<Rightarrow> bytes list \<Rightarrow>
     (string + event list \<times> 's) option" where
  "client_main errno fd rv wbuf wr rd s argv =
     (if fd < 0 then do { t \<leftarrow> die errno ''socket()''; Some (Inl t) }
      else if rv \<noteq> 0 then do { t \<leftarrow> die errno ''connect''; Some (Inl t) }
      else do {
        let cmd = drop 1 argv;
        (err, s) \<leftarrow> send_req wbuf wr s cmd;
        if err \<noteq> 0 then Some (Inr ([], s))
        else do {
          (err, es, s) \<leftarrow> read_res rd s;
          Some (Inr (es, s))
        }
      })"

section \<open>The conversation\<close>

text \<open>The two streams of the client's descriptor are those of a connection of the server, which has
  sent all its replies; no buffer holds \<open>2 ^ 64\<close> bytes.\<close>

definition connected :: "addr \<Rightarrow> ('s \<Rightarrow> bytes) \<Rightarrow> ('s \<Rightarrow> bytes) \<Rightarrow> 's \<Rightarrow> bool" where
  "connected a out pend s \<longleftrightarrow> (\<exists>sv c. session a sv (out s) (pend s) \<and> conns sv a = Some c \<and> outgoing c = []) \<and>
     length (pend s) < 2 ^ 64"

lemma connected_reply:
  assumes "connected a out pend s" "out s = frame (enc_req cmd)" "length (enc_req cmd) \<le> K_MAX_MSG"
  obtains r now A A' where "kv_step now A cmd r A'" "pend s = reply_wire (encode r)" "length (pend s) < 2 ^ 64"
proof -
  from assms(1) obtain sv c where c: "session a sv (out s) (pend s)" "conns sv a = Some c" "outgoing c = []"
    unfolding connected_def by blast
  have sp: "split_reqs (out s) = ([cmd], [], False)"
    using split_reqs_frame [OF assms(3), of "[]"] assms(2) by (simp add: split_reqs.simps [of "[]"])
  from session_stream_ok [OF c(1)] c(2) have "stream_ok c (out s) (pend s)" by simp
  then obtain rs where rs: "answers [cmd] rs" "pend s = replies rs"
    unfolding stream_ok_def sp using c(3) by auto
  then obtain r now A A' where "rs = [r]" "kv_step now A cmd r A'" by (auto simp: answers_def list_all2_Cons1)
  then show thesis using that rs(2) assms(1) by (simp add: connected_def)
qed

lemma reply_wire_big:
  assumes "K_MAX_MSG < length body" "length (reply_wire body) < 2 ^ 64"
  shows "reply_wire body = frame too_big"
proof (cases "length body < 2 ^ 64")
  case True
  then show ?thesis using of_nat_u64_less [of K_MAX_MSG "length body"] assms(1) by (simp add: reply_wire_def K_MAX_MSG_def)
next
  case False
  then show ?thesis using assms(2) by (auto simp: reply_wire_def split: if_splits)
qed


lemma write_all_inv:
  assumes "\<forall>s bs. P (snd (wr s bs))"
  shows "P s \<Longrightarrow> write_all wr s buf = Some (e, s') \<Longrightarrow> P s'"
proof (induction "length buf" arbitrary: buf s rule: less_induct)
  case less
  show ?case
  proof (cases "buf = []")
    case True
    then show ?thesis using less.prems by (simp add: write_all.simps)
  next
    case False
    obtain rv s1 where w: "wr s buf = (rv, s1)" by fastforce
    then have "P s1" using assms by (metis snd_conv)
    moreover have "write_all wr s1 (drop (nat rv) buf) = Some (e, s')" if "0 < rv"
      using less.prems(2) w False that by (subst (asm) write_all.simps) (auto split: if_splits)
    moreover have "s' = s1" if "rv \<le> 0"
      using less.prems(2) w False that by (subst (asm) write_all.simps) auto
    ultimately show ?thesis using less.hyps [of "drop (nat rv) buf" s1] False by (cases "0 < rv") auto
  qed
qed

lemma send_req_inv:
  assumes "\<forall>s bs. P (snd (wr s bs))" "P s" "send_req wbuf wr s cmd = Some (e, s')"
  shows "P s'"
  using assms(3) write_all_inv [OF assms(1,2)] assms(2)
  by (auto simp: send_req_def Let_def bind_eq_Some_conv split: if_splits)

text \<open>A network that hands the server's answer to a request that has arrived completely to the client.\<close>

definition ex_answer :: "bytes \<Rightarrow> bytes \<Rightarrow> bytes \<Rightarrow> bytes" where
  "ex_answer req ans sent = (if sent = req then ans else [])"

definition ex_wr :: "bytes \<Rightarrow> bytes \<Rightarrow> bytes \<times> bytes \<Rightarrow> bytes \<Rightarrow> int \<times> bytes \<times> bytes" where
  "ex_wr req ans s bs = (let sent = fst s @ take 3 bs in (int (min 3 (length bs)), sent, ex_answer req ans sent))"

definition ex_rd :: "bytes \<times> bytes \<Rightarrow> nat \<Rightarrow> bytes option \<times> bytes \<times> bytes" where
  "ex_rd s n = (Some (take n (snd s)), fst s, drop n (snd s))"

lemma ex_wr_sink: "sink (ex_wr req ans) fst"
  unfolding sink_def
proof (intro allI impI)
  fix s :: "bytes \<times> bytes" and bs :: bytes assume "bs \<noteq> []"
  then show "\<exists>k s'. ex_wr req ans s bs = (int k, s') \<and> 0 < k \<and> k \<le> length bs \<and> fst s' = fst s @ take k bs"
    by (intro exI [of _ "min 3 (length bs)"]) (auto simp: ex_wr_def Let_def min_def)
qed

lemma ex_rd_source: "source ex_rd snd"
  unfolding source_def
proof (intro allI impI)
  fix s :: "bytes \<times> bytes" and n :: nat assume "0 < n \<and> snd s \<noteq> []"
  then show "\<exists>k s'. ex_rd s n = (Some (take k (snd s)), s') \<and> 0 < k \<and> k \<le> n \<and> k \<le> length (snd s) \<and>
      snd s' = drop k (snd s)"
    by (intro exI [of _ "min n (length (snd s))"]) (auto simp: ex_rd_def min_def)
qed

text \<open>A session that has answered an unknown command completely.\<close>

lemma step_flush:
  "kv_step now A [cstr ''flush''] r A' \<Longrightarrow> r = VErr (err_code ERR_UNKNOWN) (cstr ''unknown command.'')"
  by (erule kv_step.cases; simp add: known_shape_def; (simp add: cstr_def)?)

lemma ex_answered:
  obtains sv S c where "session 1 sv (frame (enc_req [cstr ''flush''])) S" "conns sv 1 = Some c" "outgoing c = []"
    "length S < 2 ^ 64"
proof -
  let ?buf = "frame (enc_req [cstr ''flush''])" and ?w = "\<lambda>b. Wrote (length b)"
  have e: "incoming ex_conn = []" "outgoing ex_conn = []" "\<not> want_close ex_conn" by (simp_all add: ex_conn_def)
  have s0: "session 1 ex_srv [] []" by (rule session.accepted [OF ex_srv_conn(1) e])
  have sp: "split_reqs (incoming ex_conn @ ?buf) = ([[cstr ''flush'']], [], False)"
    using split_reqs_frame [OF ex_flush, of "[]"] e(1) by (simp add: split_reqs.simps [of "[]"])
  have b: "?buf \<noteq> []" by (simp add: frame_def) (metis codec_length(1) list.size(3) zero_neq_numeral)
  have w: "write_ok ?w" by (simp add: write_ok_def)
  have room: "kv_room_for (length [[cstr ''flush'']]) Map.empty"
    "kv_room_for (length (fst (split_reqs (incoming ex_conn @ ?buf)))) Map.empty" unfolding sp using ex_room by simp_all
  from handle_read_ok [OF ex_srv_conn(1) sp b ex_srv_conn(2) room(1), of "\<lambda>_. 0" ?w] obtain k rs A' c1 where
    r: "kv_run (\<lambda>_. 0) 0 Map.empty [[cstr ''flush'']] rs A'" "kv_rep k A'"
      "c1 = ex_conn\<lparr>incoming := [], outgoing := outgoing ex_conn @ replies rs, want_close := want_close ex_conn \<or> False\<rparr>"
      "handle_read (\<lambda>_. 0) ex_srv 1 (RData ?buf) ?w =
         (if outgoing c1 = [] then Some ([], set_conn (ex_srv\<lparr>kv := k\<rparr>) 1 c1)
          else handle_write (set_conn (ex_srv\<lparr>kv := k\<rparr>) 1 (c1\<lparr>want_read := False, want_write := True\<rparr>)) 1 ?w)" .
  from r(1) obtain q B where "rs = [q]" "kv_step 0 Map.empty [cstr ''flush''] q B" by (auto simp: kv_run_Cons)
  then have "rs = [VErr (err_code ERR_UNKNOWN) (cstr ''unknown command.'')]" using step_flush by blast
  then have out: "outgoing c1 = frame (encode (VErr (err_code ERR_UNKNOWN) (cstr ''unknown command.'')))"
    using r(3) e(2) by (simp add: reply_wire_frame K_MAX_MSG_def)
  have ne: "outgoing c1 \<noteq> []" "length (outgoing c1) < 2 ^ 64" unfolding out by (simp_all add: frame_def)
  let ?c = "c1\<lparr>want_read := False, want_write := True\<rparr>"
  let ?c2 = "?c\<lparr>outgoing := [], want_read := True, want_write := False\<rparr>"
  have "handle_write (set_conn (ex_srv\<lparr>kv := k\<rparr>) 1 ?c) 1 ?w = Some (outgoing c1, set_conn (ex_srv\<lparr>kv := k\<rparr>) 1 ?c2)"
    using handle_write_ok [of "set_conn (ex_srv\<lparr>kv := k\<rparr>) 1 ?c" 1 ?c ?w] ne(1) w by (simp add: written_def)
  then have "handle_read (\<lambda>_. 0) ex_srv 1 (RData ?buf) ?w = Some (outgoing c1, set_conn (ex_srv\<lparr>kv := k\<rparr>) 1 ?c2)"
    using r(4) ne(1) by simp
  from session.readable [OF s0 ex_srv_conn(1) e(3) b ex_srv_conn(2) room(2) w this] show thesis
    using that [of "set_conn (ex_srv\<lparr>kv := k\<rparr>) 1 ?c2" "outgoing c1" ?c2] ne(2) by simp
qed


end
